(* ===== verification/Prelude.thy ===== *)
theory Prelude
  imports Main "HOL-Library.Word" "HOL-Library.AList"
begin

text \<open>
  Shared vocabulary of the development: the Go integer and hash types, the error values every
  fallible operation returns, and the generic lemmas on lists, results and 64-bit words that the
  component theories use. Collections of simplification rules are declared here:
  \<^verbatim>\<open>res_simps\<close> for the result type, \<^verbatim>\<open>u64_simps\<close> for unsigned 64-bit arithmetic.
\<close>

named_theorems res_simps
named_theorems u64_simps

section \<open>Types of the source\<close>

text \<open>
  \<^item> Go \<^verbatim>\<open>uint64\<close> is \<open>64 word\<close>: \<open>+\<close> and \<open>-\<close> wrap around.
  \<^item> Go \<^verbatim>\<open>int64\<close>/\<^verbatim>\<open>int\<close> values that are only compared or stored are \<open>int\<close>.
  \<^item> \<^verbatim>\<open>common.Hash\<close> is an array of 32 bytes, \<open>256 word\<close>; the zero hash is \<open>0\<close>.
  \<^item> \<^verbatim>\<open>[]byte\<close> is a list of \<open>8 word\<close>; Go strings are \<open>string\<close> (bytes as characters).
\<close>

type_synonym u64 = "64 word"
type_synonym hash = "256 word"
type_synonym byte = "8 word"
type_synonym bytes = "byte list"

definition MaxUint64 :: u64 where
  "MaxUint64 = - 1"

definition MaxInt64 :: int where
  "MaxInt64 = 9223372036854775807"

text \<open>
  Error values. \<open>NotFound\<close> is \<^verbatim>\<open>pebble.ErrNotFound\<close>, \<open>IOErr\<close> any other failure of an external
  call, \<open>Msg\<close> an error made by \<^verbatim>\<open>fmt.Errorf\<close> without a wrapped cause, \<open>Wrap\<close> one with \<^verbatim>\<open>%w\<close>,
  \<open>Join\<close> the result of \<^verbatim>\<open>errors.Join\<close> on two non-nil errors; \<open>NoCanonical\<close> and \<open>Stale\<close> are
  \<^verbatim>\<open>errScanNoCanonical\<close> and \<^verbatim>\<open>errScanStale\<close> of \<^verbatim>\<open>fork_scan.go\<close>; \<open>Canceled\<close> and
  \<open>DeadlineExceeded\<close> are the errors of package \<^verbatim>\<open>context\<close>.
\<close>

datatype err =
    NotFound
  | IOErr
  | NoCanonical
  | Stale
  | Canceled
  | DeadlineExceeded
  | Msg string
  | Wrap string err
  | Join err err

type_synonym 'a res = "err + 'a"

text \<open>\<^verbatim>\<open>errors.Is\<close>: the error itself or one in its chain or tree.\<close>

primrec errors_Is :: "err \<Rightarrow> err \<Rightarrow> bool" where
  "errors_Is NotFound t = (t = NotFound)"
| "errors_Is IOErr t = (t = IOErr)"
| "errors_Is NoCanonical t = (t = NoCanonical)"
| "errors_Is Stale t = (t = Stale)"
| "errors_Is Canceled t = (t = Canceled)"
| "errors_Is DeadlineExceeded t = (t = DeadlineExceeded)"
| "errors_Is (Msg m) t = (t = Msg m)"
| "errors_Is (Wrap m e) t = (t = Wrap m e \<or> errors_Is e t)"
| "errors_Is (Join a b) t = (t = Join a b \<or> errors_Is a t \<or> errors_Is b t)"

text \<open>\<^verbatim>\<open>errors.Join\<close> of two possibly nil errors.\<close>

fun errors_Join :: "err option \<Rightarrow> err option \<Rightarrow> err option" where
  "errors_Join None b = b"
| "errors_Join a None = a"
| "errors_Join (Some a) (Some b) = Some (Join a b)"

section \<open>Results\<close>

lemma res_case_Inr [res_simps]:
  "(case r of Inl e \<Rightarrow> Inl e | Inr x \<Rightarrow> f x) = Inr y \<longleftrightarrow> (\<exists>x. r = Inr x \<and> f x = Inr y)"
  by (cases r) auto

lemma res_if_Inr [res_simps]:
  "(if b then Inl e else r) = Inr y \<longleftrightarrow> \<not> b \<and> r = Inr y"
  by auto

text \<open>A loop over a list that stops at the first error, as a Go \<^verbatim>\<open>for\<close> with early return does.\<close>

fun fold_res :: "('a \<Rightarrow> 's \<Rightarrow> 's res) \<Rightarrow> 'a list \<Rightarrow> 's \<Rightarrow> 's res" where
  "fold_res f [] s = Inr s"
| "fold_res f (x # xs) s = (case f x s of Inl e \<Rightarrow> Inl e | Inr s' \<Rightarrow> fold_res f xs s')"

lemma fold_res_append:
  "fold_res f (xs @ ys) s = (case fold_res f xs s of Inl e \<Rightarrow> Inl e | Inr t \<Rightarrow> fold_res f ys t)"
  by (induction xs arbitrary: s) (auto split: sum.splits)

lemma fold_res_inv:
  assumes "fold_res f xs s = Inr t" and "P s"
    and "\<And>x s s'. x \<in> set xs \<Longrightarrow> P s \<Longrightarrow> f x s = Inr s' \<Longrightarrow> P s'"
  shows "P t"
  using assms
proof (induction xs arbitrary: s)
  case Nil
  then show ?case by simp
next
  case (Cons x xs)
  then obtain s' where "f x s = Inr s'" and "fold_res f xs s' = Inr t"
    by (auto split: sum.splits)
  with Cons show ?case by (metis list.set_intros)
qed

text \<open>
  The outcome of a call that may panic, or whose loop may not end: \<open>NoFuel\<close> is a loop that has not
  returned within the fuel it was given.
\<close>

datatype 'a outcome = Done 'a | Panic | NoFuel

section \<open>Unsigned 64-bit arithmetic\<close>

lemma MaxUint64_ge [simp]: "h \<le> MaxUint64"
  by (simp add: MaxUint64_def)

lemma MaxUint64_unat [u64_simps]: "unat MaxUint64 = 18446744073709551615"
  by (simp add: MaxUint64_def unsigned_minus_1_eq_mask mask_eq_exp_minus_1)

lemma not_MaxUint64_less: "h \<noteq> MaxUint64 \<longleftrightarrow> h < MaxUint64"
  by (simp add: order_less_le)

lemma u64_Suc: "h \<noteq> MaxUint64 \<Longrightarrow> unat (h + 1) = Suc (unat h)"
proof -
  assume "h \<noteq> MaxUint64"
  then have "h + 1 \<noteq> 0"
    by (metis MaxUint64_def add_eq_0_iff2 add.commute minus_equation_iff)
  then show ?thesis
    by (metis Suc_eq_plus1 add.commute unatSuc)
qed

lemma u64_less_Suc: "h \<noteq> MaxUint64 \<Longrightarrow> h < h + 1"
  by (simp add: word_less_nat_alt u64_Suc)

lemma u64_less_Suc_iff: "h \<noteq> MaxUint64 \<Longrightarrow> a < h + 1 \<longleftrightarrow> a \<le> h"
  by (simp add: word_less_nat_alt word_le_nat_alt u64_Suc less_Suc_eq_le)

lemma u64_Suc_le_iff: "h \<noteq> MaxUint64 \<Longrightarrow> h + 1 \<le> a \<longleftrightarrow> h < a"
  by (simp add: word_less_nat_alt word_le_nat_alt u64_Suc Suc_le_eq)

lemma u64_pred: "0 < h \<Longrightarrow> unat (h - 1) = unat h - 1" for h :: u64
  by (simp add: unat_minus_one word_greater_zero_iff)

lemma u64_le_pred_iff: "0 < h \<Longrightarrow> a \<le> h - 1 \<longleftrightarrow> a < h" for h :: u64
  by (auto simp: word_less_nat_alt word_le_nat_alt u64_pred)

lemma u64_less_not_Max: "a < b \<Longrightarrow> a \<noteq> MaxUint64" for a b :: u64
  by (metis MaxUint64_ge leD)

lemma u64_add_nat: "unat h + i < 2 ^ 64 \<Longrightarrow> unat (h + of_nat i) = unat h + i" for h :: u64
proof -
  assume lt: "unat h + i < 2 ^ 64"
  have i: "unat (of_nat i :: u64) = i" using lt by (simp add: unat_of_nat take_bit_eq_mod)
  have "unat h + unat (of_nat i :: u64) < 2 ^ LENGTH(64)" unfolding i using lt by simp
  then have "unat (h + of_nat i) = unat h + unat (of_nat i :: u64)" by (rule iffD1 [OF unat_add_lem])
  then show ?thesis by (simp only: i)
qed

section \<open>Transition systems\<close>

inductive reachable :: "('s \<Rightarrow> bool) \<Rightarrow> ('s \<Rightarrow> 's \<Rightarrow> bool) \<Rightarrow> 's \<Rightarrow> bool" for init step where
  reach_init: "init s \<Longrightarrow> reachable init step s"
| reach_step: "reachable init step s \<Longrightarrow> step s t \<Longrightarrow> reachable init step t"

text \<open>The contract of an inductive invariant, and what it gives.\<close>

locale invariant_system =
  fixes init :: "'s \<Rightarrow> bool" and step :: "'s \<Rightarrow> 's \<Rightarrow> bool" and inv :: "'s \<Rightarrow> bool"
  assumes inv_init: "init s \<Longrightarrow> inv s"
    and inv_step: "inv s \<Longrightarrow> step s t \<Longrightarrow> inv t"
begin

lemma reachable_inv: "reachable init step s \<Longrightarrow> inv s"
  by (induction rule: reachable.induct) (auto intro: inv_init inv_step)

end

end
