(* ===== verification/GoLib.thy ===== *)
theory GoLib
  imports Prelude
begin

text \<open>
  The parts of Go's standard library that build database keys and object names, written out:
  \<^verbatim>\<open>big.Int.Bytes\<close>, the bytes of a \<^verbatim>\<open>[32]byte\<close> hash, \<^verbatim>\<open>fmt\<close>'s \<^verbatim>\<open>%d\<close>, \<^verbatim>\<open>hex.EncodeToString\<close>,
  \<^verbatim>\<open>strings.Split\<close> at \<^verbatim>\<open>"/"\<close>, \<^verbatim>\<open>strings.TrimPrefix\<close> and \<^verbatim>\<open>strings.EqualFold\<close> on ASCII. The lemmas
  are the inverses and injectivity facts on which the separation of keys rests.
\<close>

section \<open>Big-endian bytes\<close>

definition be_nat :: "bytes \<Rightarrow> nat" where
  "be_nat bs = foldl (\<lambda>a b. a * 256 + unat b) 0 bs"

fun be_bytes :: "nat \<Rightarrow> nat \<Rightarrow> bytes" where
  "be_bytes 0 n = []"
| "be_bytes (Suc k) n = be_bytes k (n div 256) @ [of_nat (n mod 256)]"

text \<open>\<^verbatim>\<open>(*big.Int).Bytes\<close>: the minimal big-endian bytes of the absolute value; zero has none.\<close>

fun nat_Bytes :: "nat \<Rightarrow> bytes" where
  "nat_Bytes n = (if n = 0 then [] else nat_Bytes (n div 256) @ [of_nat (n mod 256)])"

declare nat_Bytes.simps [simp del]

definition big_Bytes :: "int \<Rightarrow> bytes" where
  "big_Bytes i = nat_Bytes (nat \<bar>i\<bar>)"

text \<open>\<^verbatim>\<open>hash[:]\<close> and \<^verbatim>\<open>common.BytesToHash\<close> on the 32-byte slices the code passes.\<close>

definition hash_bytes :: "hash \<Rightarrow> bytes" where
  "hash_bytes h = be_bytes 32 (unat h)"

definition BytesToHash :: "bytes \<Rightarrow> hash" where
  "BytesToHash bs = of_nat (be_nat bs)"

section \<open>Decimal and hexadecimal text\<close>

definition digit_char :: "nat \<Rightarrow> char" where
  "digit_char d = char_of (48 + d)"

fun decimal :: "nat \<Rightarrow> string" where
  "decimal n = (if n < 10 then [digit_char n] else decimal (n div 10) @ [digit_char (n mod 10)])"

declare decimal.simps [simp del]

definition undecimal :: "string \<Rightarrow> nat" where
  "undecimal s = foldl (\<lambda>a c. a * 10 + (of_char c - 48)) 0 s"

definition fmt_d :: "int \<Rightarrow> string" where
  "fmt_d i = (if i < 0 then CHR ''-'' # decimal (nat (- i)) else decimal (nat i))"

definition fmt_u64 :: "u64 \<Rightarrow> string" where
  "fmt_u64 w = decimal (unat w)"

definition hex_digit :: "nat \<Rightarrow> char" where
  "hex_digit d = (if d < 10 then char_of (48 + d) else char_of (87 + d))"

definition hex_EncodeToString :: "bytes \<Rightarrow> string" where
  "hex_EncodeToString bs =
     concat (map (\<lambda>b. [hex_digit (unat b div 16), hex_digit (unat b mod 16)]) bs)"

definition str_bytes :: "string \<Rightarrow> bytes" where
  "str_bytes s = map of_char s"

definition bytes_str :: "bytes \<Rightarrow> string" where
  "bytes_str bs = map (\<lambda>b. char_of (unat b)) bs"

section \<open>Strings\<close>

text \<open>\<^verbatim>\<open>strings.Split(s, "/")\<close>: always at least one part.\<close>

fun split_slash :: "string \<Rightarrow> string list" where
  "split_slash [] = [[]]"
| "split_slash (c # cs) =
     (if c = CHR ''/'' then [] # split_slash cs
      else (case split_slash cs of [] \<Rightarrow> [[c]] | p # ps \<Rightarrow> (c # p) # ps))"

fun has_prefix :: "string \<Rightarrow> string \<Rightarrow> bool" where
  "has_prefix s [] = True"
| "has_prefix [] (p # ps) = False"
| "has_prefix (c # cs) (p # ps) = (c = p \<and> has_prefix cs ps)"

definition TrimPrefix :: "string \<Rightarrow> string \<Rightarrow> string" where
  "TrimPrefix s p = (if has_prefix s p then drop (length p) s else s)"

definition ascii_lower :: "char \<Rightarrow> char" where
  "ascii_lower c = (let n = (of_char c :: nat) in if 65 \<le> n \<and> n \<le> 90 then char_of (n + 32) else c)"

definition EqualFold :: "string \<Rightarrow> string \<Rightarrow> bool" where
  "EqualFold a b = (map ascii_lower a = map ascii_lower b)"

section \<open>Lemmas: bytes\<close>

lemma be_nat_snoc [simp]: "be_nat (bs @ [b]) = be_nat bs * 256 + unat b"
  by (simp add: be_nat_def)

lemma be_nat_Nil [simp]: "be_nat [] = 0"
  by (simp add: be_nat_def)

lemma unat_of_nat_byte [simp]: "unat (of_nat (n mod 256) :: byte) = n mod 256"
  by (simp add: unat_of_nat take_bit_eq_mod)

lemma be_nat_nat_Bytes [simp]: "be_nat (nat_Bytes n) = n"
  by (induction n rule: nat_Bytes.induct) (subst nat_Bytes.simps, simp)

lemma nat_Bytes_inject [simp]: "nat_Bytes m = nat_Bytes n \<longleftrightarrow> m = n"
  by (metis be_nat_nat_Bytes)

lemma length_be_bytes [simp]: "length (be_bytes k n) = k"
  by (induction k arbitrary: n) auto

lemma be_nat_be_bytes: "be_nat (be_bytes k n) = n mod 256 ^ k"
proof (induction k arbitrary: n)
  case 0
  then show ?case by simp
next
  case (Suc k)
  have "be_nat (be_bytes (Suc k) n) = (n div 256 mod 256 ^ k) * 256 + n mod 256"
    by (simp add: Suc)
  also have "\<dots> = n mod (256 * 256 ^ k)"
    by (simp add: mod_mult2_eq)
  finally show ?case by simp
qed

lemma unat_hash_bound: "unat (h :: hash) < 256 ^ 32"
proof -
  have "unat h < 2 ^ 256" using unsigned_less [of h] by simp
  then show ?thesis by simp
qed

lemma BytesToHash_hash_bytes [simp]: "BytesToHash (hash_bytes h) = h"
  using unat_hash_bound [of h] by (simp add: BytesToHash_def hash_bytes_def be_nat_be_bytes)

lemma length_hash_bytes [simp]: "length (hash_bytes h) = 32"
  by (simp add: hash_bytes_def)

lemma hash_bytes_inject [simp]: "hash_bytes a = hash_bytes b \<longleftrightarrow> a = b"
  by (metis BytesToHash_hash_bytes)

section \<open>Lemmas: text\<close>

lemma decimal_digits: "c \<in> set (decimal n) \<Longrightarrow> \<exists>d<10. c = digit_char d"
proof (induction n rule: decimal.induct)
  case (1 n)
  show ?case
  proof (cases "n < 10")
    case True
    with "1.prems" show ?thesis by (subst (asm) decimal.simps) auto
  next
    case False
    with "1.prems" have "c \<in> set (decimal (n div 10)) \<or> c = digit_char (n mod 10)"
      by (subst (asm) decimal.simps) auto
    then show ?thesis
    proof
      assume "c \<in> set (decimal (n div 10))"
      then show ?thesis by (rule "1.IH" [OF False])
    next
      assume "c = digit_char (n mod 10)"
      then show ?thesis by (intro exI [of _ "n mod 10"]) simp
    qed
  qed
qed

lemma of_char_digit [simp]: "d < 10 \<Longrightarrow> (of_char (digit_char d) :: nat) = 48 + d"
  by (simp add: digit_char_def)

lemma decimal_range: "c \<in> set (decimal n) \<Longrightarrow> 48 \<le> (of_char c :: nat) \<and> (of_char c :: nat) \<le> 57"
  by (drule decimal_digits) auto

lemma decimal_nonempty [simp]: "decimal n \<noteq> []"
  by (subst decimal.simps) simp

lemma undecimal_decimal [simp]: "undecimal (decimal n) = n"
proof (induction n rule: decimal.induct)
  case (1 n)
  then show ?case
    by (subst decimal.simps) (auto simp: undecimal_def)
qed

lemma decimal_inject [simp]: "decimal m = decimal n \<longleftrightarrow> m = n"
  by (metis undecimal_decimal)

lemma decimal_no_slash [simp]: "CHR ''/'' \<notin> set (decimal n)"
  using decimal_range [of "CHR ''/''" n] by auto

lemma decimal_no_minus [simp]: "CHR ''-'' \<notin> set (decimal n)"
  using decimal_range [of "CHR ''-''" n] by auto

lemma decimal_minus_neq [simp]: "decimal n \<noteq> CHR ''-'' # s" "CHR ''-'' # s \<noteq> decimal n"
  by (metis decimal_no_minus list.set_intros(1))+

lemma fmt_d_inject [simp]: "fmt_d i = fmt_d j \<longleftrightarrow> i = j"
  by (auto simp: fmt_d_def)

lemma fmt_d_no_slash [simp]: "CHR ''/'' \<notin> set (fmt_d i)"
  by (simp add: fmt_d_def)

lemma fmt_u64_inject [simp]: "fmt_u64 a = fmt_u64 b \<longleftrightarrow> a = b"
  by (simp add: fmt_u64_def word_unat_eq_iff)

lemma fmt_u64_no_slash [simp]: "CHR ''/'' \<notin> set (fmt_u64 w)"
  by (simp add: fmt_u64_def)

lemma of_char_hex_digit [simp]:
  "d < 16 \<Longrightarrow> (of_char (hex_digit d) :: nat) = (if d < 10 then 48 + d else 87 + d)"
  by (simp add: hex_digit_def)

lemma hex_digit_inject: "a < 16 \<Longrightarrow> b < 16 \<Longrightarrow> hex_digit a = hex_digit b \<longleftrightarrow> a = b"
proof
  assume "a < 16" "b < 16" "hex_digit a = hex_digit b"
  then have "(of_char (hex_digit a) :: nat) = of_char (hex_digit b)" by simp
  with \<open>a < 16\<close> \<open>b < 16\<close> show "a = b" by (auto split: if_splits)
qed simp

lemma unat_byte_bound [simp]: "unat (b :: byte) < 256"
  using unsigned_less [of b] by simp

lemma unat_byte_div16 [simp]: "unat (b :: byte) div 16 < 16"
  using unat_byte_bound [of b] by linarith

lemma hex_pair_inject:
  fixes a b :: byte
  assumes "hex_digit (unat a div 16) = hex_digit (unat b div 16)"
    and "hex_digit (unat a mod 16) = hex_digit (unat b mod 16)"
  shows "a = b"
proof -
  from assms have "unat a div 16 = unat b div 16" and "unat a mod 16 = unat b mod 16"
    by (simp_all add: hex_digit_inject)
  then have "unat a = unat b" by (metis div_mult_mod_eq)
  then show ?thesis by (simp add: word_unat_eq_iff)
qed

lemma hex_EncodeToString_inject [simp]:
  "hex_EncodeToString a = hex_EncodeToString b \<longleftrightarrow> a = b"
proof
  show "hex_EncodeToString a = hex_EncodeToString b \<Longrightarrow> a = b"
  proof (induction a arbitrary: b)
    case Nil
    then show ?case by (cases b) (auto simp: hex_EncodeToString_def)
  next
    case (Cons x xs)
    then obtain y ys where "b = y # ys"
      by (cases b) (auto simp: hex_EncodeToString_def)
    with Cons show ?case
      by (auto simp: hex_EncodeToString_def intro: hex_pair_inject)
  qed
qed simp

lemma unat_of_char_byte: "unat (of_char c :: byte) = of_char c"
proof -
  have "(of_char c :: nat) < 256" by simp
  then show ?thesis
    by (metis of_nat_of_char unat_of_nat_byte mod_less)
qed

lemma str_bytes_inject [simp]: "str_bytes a = str_bytes b \<longleftrightarrow> a = b"
proof
  have "inj (of_char :: char \<Rightarrow> byte)"
    by (rule injI) (metis unat_of_char_byte char_of_char)
  then show "str_bytes a = str_bytes b \<Longrightarrow> a = b"
    by (simp add: str_bytes_def)
qed simp

lemma bytes_str_str_bytes [simp]: "bytes_str (str_bytes s) = s"
  by (induction s) (simp_all add: bytes_str_def str_bytes_def unat_of_char_byte)

lemma split_slash_plain: "CHR ''/'' \<notin> set a \<Longrightarrow> split_slash a = [a]"
  by (induction a) auto

lemma split_slash_cons: "CHR ''/'' \<notin> set a \<Longrightarrow> split_slash (a @ CHR ''/'' # b) = a # split_slash b"
  by (induction a) auto

lemma has_prefix_append: "has_prefix s p \<longleftrightarrow> (\<exists>r. s = p @ r)"
  by (induction s p rule: has_prefix.induct) auto

text \<open>Splitting at the first separator is unambiguous.\<close>

lemma sep_inject:
  assumes "c \<notin> set a" and "c \<notin> set b"
  shows "a @ c # s = b @ c # t \<longleftrightarrow> a = b \<and> s = t"
  using assms
proof (induction a arbitrary: b)
  case Nil
  then show ?case by (cases b) auto
next
  case (Cons y a)
  then show ?case by (cases b) auto
qed

end
