(* ===== verification/Config.thy ===== *)
theory Config
  imports Complex_Main GoLib
begin

text \<open>
  Package \<^verbatim>\<open>config\<close> and the configuration checks of \<^verbatim>\<open>cmd/checker/main.go\<close>. The YAML decoder is
  third-party code: \<^verbatim>\<open>decodeConfig\<close> takes it as a parameter, a function that overlays the decoded
  fields on the defaults or fails.
\<close>

section \<open>config/config.go\<close>

text \<open>
  \<open>ReadyRatio\<close> is the value of the float64, a rational; every other number is a Go \<^verbatim>\<open>int\<close> or
  \<^verbatim>\<open>int64\<close>.
\<close>

record Config =
  Listen :: string
  ReadyRatio :: rat
  CheckNum :: int
  CheckInterval :: int
  CheckTimeout :: int
  RpcNodeTimeout :: int
  MsgWaitTimeout :: int
  ChainID :: int
  Version :: string
  ConsistencyDBPath :: string
  OuterS3Bucket :: string
  OuterS3Region :: string
  InnerBrokers :: "string list"
  InnerNewBlockTopic :: string
  InnerNewBlockGroupID :: string
  OuterBrokers :: "string list"
  OuterNewBlockTopic :: string
  OuterVersionNewBlockTopic :: string
  EtcdEndpoints :: "string list"
  CommitInterval :: int
  EtcdWriteTimeout :: int
  EtcdLockTTL :: int
  VersionCheckInterval :: int
  ForkScanInterval :: int
  ForkScanLookback :: int

definition defaultConfig :: Config where
  "defaultConfig = \<lparr>
     Listen = '':8663'', ReadyRatio = 3602879701896397 / 4503599627370496, CheckNum = 0, CheckInterval = 20,
     CheckTimeout = 2000, RpcNodeTimeout = 5000, MsgWaitTimeout = 5000, ChainID = 0,
     Version = [], ConsistencyDBPath = [], OuterS3Bucket = [], OuterS3Region = [],
     InnerBrokers = [], InnerNewBlockTopic = [], InnerNewBlockGroupID = [], OuterBrokers = [],
     OuterNewBlockTopic = [], OuterVersionNewBlockTopic = [], EtcdEndpoints = [],
     CommitInterval = 0, EtcdWriteTimeout = 5000, EtcdLockTTL = 20, VersionCheckInterval = 5,
     ForkScanInterval = 60, ForkScanLookback = 64 \<rparr>"

definition IsVersionMode :: "Config \<Rightarrow> bool" where
  "IsVersionMode c = (Version c \<noteq> [] \<and> OuterVersionNewBlockTopic c \<noteq> [])"

text \<open>\<^verbatim>\<open>math.MaxInt64/int64(time.Second)\<close>, a constant the compiler evaluates.\<close>

definition maxIntervalSeconds :: int where
  "maxIntervalSeconds = MaxInt64 div 1000000000"

definition Validate :: "Config \<Rightarrow> unit res" where
  "Validate c =
     (if ForkScanLookback c < -1 then Inl (Msg ''fork_scan_lookback'')
      else if ForkScanInterval c > maxIntervalSeconds then Inl (Msg ''fork_scan_interval_sec'')
      else Inr ())"

definition ContinuousForkScan :: "Config \<Rightarrow> bool" where
  "ContinuousForkScan c = (ForkScanInterval c > 0 \<and> ForkScanLookback c = -1)"

text \<open>
  \<open>yaml\<close> stands for \<^verbatim>\<open>yaml.NewDecoder(r).Decode(&c)\<close> on the given reader: it fills the fields the
  document names and keeps the others.
\<close>

definition decodeConfig :: "(Config \<Rightarrow> Config res) \<Rightarrow> Config res" where
  "decodeConfig yaml =
     (case yaml defaultConfig of
        Inl e \<Rightarrow> Inl e
      | Inr c \<Rightarrow> (case Validate c of Inl e \<Rightarrow> Inl e | Inr _ \<Rightarrow> Inr c))"

text \<open>\<^verbatim>\<open>log.Fatalf\<close> ends the process: \<open>Inl\<close> is that outcome. \<open>opened\<close> is what \<^verbatim>\<open>os.Open\<close> returned.\<close>

definition LoadConfig :: "unit res \<Rightarrow> (Config \<Rightarrow> Config res) \<Rightarrow> Config res" where
  "LoadConfig opened yaml =
     (case opened of
        Inl e \<Rightarrow> Inl (Wrap ''open config file error'' e)
      | Inr _ \<Rightarrow> (case decodeConfig yaml of
                    Inl e \<Rightarrow> Inl (Wrap ''parse config file error'' e)
                  | Inr c \<Rightarrow> Inr c))"

section \<open>cmd/checker/main.go\<close>

definition parseCmdlineAndLoadConfig ::
  "string \<Rightarrow> unit res \<Rightarrow> (Config \<Rightarrow> Config res) \<Rightarrow> Config res" where
  "parseCmdlineAndLoadConfig listenFlag opened yaml =
     (case LoadConfig opened yaml of
        Inl e \<Rightarrow> Inl e
      | Inr fileConfig \<Rightarrow>
          (let c = (if listenFlag \<noteq> [] then fileConfig\<lparr>Listen := listenFlag\<rparr> else fileConfig) in
           if ChainID c = 0 then Inl (Msg ''chain_id must be set in config file'')
           else if (Version c \<noteq> [] \<and> OuterVersionNewBlockTopic c = []) \<or>
                   (Version c = [] \<and> OuterVersionNewBlockTopic c \<noteq> [])
           then Inl (Msg ''both version and outer_version_new_block_topic must be set'')
           else Inr c))"

section \<open>Properties\<close>

text \<open>The bound on the interval is what keeps \<^verbatim>\<open>time.Duration(interval)*time.Second\<close> inside int64.\<close>

lemma Validate_interval_no_overflow:
  assumes "Validate c = Inr ()"
  shows "ForkScanInterval c * 1000000000 \<le> MaxInt64" and "-1 \<le> ForkScanLookback c"
  using assms
  by (auto simp: Validate_def maxIntervalSeconds_def MaxInt64_def split: if_splits)

lemma decodeConfig_valid: "decodeConfig yaml = Inr c \<Longrightarrow> Validate c = Inr ()"
  by (auto simp: decodeConfig_def split: sum.splits)

lemma parse_startup_cases:
  assumes "parseCmdlineAndLoadConfig listenFlag opened yaml = Inr c"
  obtains f where "decodeConfig yaml = Inr f"
    and "c = (if listenFlag \<noteq> [] then f\<lparr>Listen := listenFlag\<rparr> else f)"
    and "ChainID c \<noteq> 0" and "IsVersionMode c \<longleftrightarrow> Version c \<noteq> []"
  using assms
  by (auto simp: parseCmdlineAndLoadConfig_def LoadConfig_def IsVersionMode_def Let_def
      split: sum.splits if_splits)

text \<open>
  C15: a configuration the process starts with is in exactly one of the documented modes: the chain
  id is set; version mode holds exactly when a version is given (so the node map, which tests only
  the version, agrees with it); the lookback is at least -1 and the scan interval in seconds can be
  turned into nanoseconds without overflowing int64; and the scan is exactly one of disabled,
  windowed (positive lookback) or continuous.
\<close>

theorem startup_config_modes:
  assumes "parseCmdlineAndLoadConfig listenFlag opened yaml = Inr c"
  shows "ChainID c \<noteq> 0 \<and> (IsVersionMode c \<longleftrightarrow> Version c \<noteq> []) \<and>
    ForkScanInterval c * 1000000000 \<le> MaxInt64 \<and> -1 \<le> ForkScanLookback c \<and>
    (ContinuousForkScan c \<longleftrightarrow>
       \<not> (ForkScanInterval c \<le> 0 \<or> ForkScanLookback c = 0) \<and> \<not> 0 < ForkScanLookback c)"
proof -
  obtain f where f: "decodeConfig yaml = Inr f"
    "c = (if listenFlag \<noteq> [] then f\<lparr>Listen := listenFlag\<rparr> else f)"
    "ChainID c \<noteq> 0" "IsVersionMode c \<longleftrightarrow> Version c \<noteq> []"
    using assms by (rule parse_startup_cases)
  note v = Validate_interval_no_overflow [OF decodeConfig_valid [OF f(1)]]
  from f(2) v have "ForkScanInterval c * 1000000000 \<le> MaxInt64" "-1 \<le> ForkScanLookback c"
    by auto
  with f(3,4) show ?thesis
    by (auto simp: ContinuousForkScan_def)
qed

theorem startup_config_modes_witness:
  "ContinuousForkScan (defaultConfig\<lparr>Listen := '':1'', ChainID := 56, ForkScanLookback := -1\<rparr>)"
proof -
  let ?y = "\<lambda>c. Inr (c\<lparr>ChainID := 56, ForkScanLookback := -1\<rparr>)"
  have "parseCmdlineAndLoadConfig '':1'' (Inr ()) ?y =
      Inr (defaultConfig\<lparr>Listen := '':1'', ChainID := 56, ForkScanLookback := -1\<rparr>)"
    by (simp add: parseCmdlineAndLoadConfig_def LoadConfig_def decodeConfig_def Validate_def
        maxIntervalSeconds_def MaxInt64_def defaultConfig_def)
  from startup_config_modes [OF this] show ?thesis
    by (simp add: defaultConfig_def)
qed

end
