(* ===== verification/Json.thy ===== *)
theory Json
  imports GoLib
begin

text \<open>
  The part of Go's \<^verbatim>\<open>encoding/json\<close> the program persists state with: the value tree, the compact
  text \<^verbatim>\<open>json.Marshal\<close> writes (with its HTML-safe string escapes), and a parser for the text
  \<^verbatim>\<open>json.Unmarshal\<close> accepts. A number keeps its literal, as a \<^verbatim>\<open>json.RawMessage\<close> does; the decoders
  of the structs read it with \<^verbatim>\<open>strconv\<close>. Strings are bytes: the replacement of invalid UTF-8 and
  the joining of surrogate escapes are left out, and the round trip is stated for ASCII strings,
  which is all the program stores. The parser's fuel is the length of the text, which bounds its
  recursion; the limit of 10000 nested values that Go adds is left out.
\<close>

section \<open>Values and their text\<close>

datatype json =
    JNull
  | JBool bool
  | JNum string
  | JStr string
  | JArr "json list"
  | JObj "(string \<times> json) list"

definition esc_u :: "nat \<Rightarrow> string" where
  "esc_u n = [CHR 0x5C, CHR ''u'', CHR ''0'', CHR ''0'', hex_digit (n div 16), hex_digit (n mod 16)]"

definition esc_char :: "char \<Rightarrow> string" where
  "esc_char c =
     (let n = (of_char c :: nat) in
      if n = 0x22 then [CHR 0x5C, CHR 0x22]
      else if n = 0x5C then [CHR 0x5C, CHR 0x5C]
      else if n = 8 then [CHR 0x5C, CHR ''b'']
      else if n = 12 then [CHR 0x5C, CHR ''f'']
      else if n = 10 then [CHR 0x5C, CHR ''n'']
      else if n = 13 then [CHR 0x5C, CHR ''r'']
      else if n = 9 then [CHR 0x5C, CHR ''t'']
      else if n < 32 \<or> c = CHR ''<'' \<or> c = CHR ''>'' \<or> c = CHR ''&'' then esc_u n
      else [c])"

definition print_str :: "string \<Rightarrow> string" where
  "print_str s = CHR 0x22 # concat (map esc_char s) @ [CHR 0x22]"

fun json_print :: "json \<Rightarrow> string"
and print_elems :: "json list \<Rightarrow> string"
and print_members :: "(string \<times> json) list \<Rightarrow> string" where
  "json_print JNull = ''null''"
| "json_print (JBool b) = (if b then ''true'' else ''false'')"
| "json_print (JNum lit) = lit"
| "json_print (JStr s) = print_str s"
| "json_print (JArr xs) = CHR ''['' # print_elems xs @ '']''"
| "json_print (JObj ms) = CHR ''{'' # print_members ms @ ''}''"
| "print_elems [] = []"
| "print_elems (x # xs) = json_print x @ (if xs = [] then [] else CHR '','' # print_elems xs)"
| "print_members [] = []"
| "print_members ((k, v) # ms) =
     print_str k @ CHR '':'' # json_print v @ (if ms = [] then [] else CHR '','' # print_members ms)"

section \<open>Parsing\<close>

definition is_ws :: "char \<Rightarrow> bool" where
  "is_ws c = (c = CHR '' '' \<or> c = CHR 0x09 \<or> c = CHR 0x0A \<or> c = CHR 0x0D)"

definition skip_ws :: "string \<Rightarrow> string" where
  "skip_ws s = dropWhile is_ws s"

definition is_digit :: "char \<Rightarrow> bool" where
  "is_digit c = (48 \<le> (of_char c :: nat) \<and> (of_char c :: nat) \<le> 57)"

definition hex_val :: "char \<Rightarrow> nat option" where
  "hex_val c = (let n = (of_char c :: nat) in
     if 48 \<le> n \<and> n \<le> 57 then Some (n - 48)
     else if 97 \<le> n \<and> n \<le> 102 then Some (n - 87)
     else if 65 \<le> n \<and> n \<le> 70 then Some (n - 55)
     else None)"

text \<open>The UTF-8 bytes of a \<^verbatim>\<open>\uXXXX\<close> escape.\<close>

definition utf8 :: "nat \<Rightarrow> string" where
  "utf8 n = (if n < 0x80 then [char_of n]
     else if n < 0x800 then [char_of (0xC0 + n div 64), char_of (0x80 + n mod 64)]
     else [char_of (0xE0 + n div 4096), char_of (0x80 + n div 64 mod 64), char_of (0x80 + n mod 64)])"

definition unescape :: "char \<Rightarrow> char option" where
  "unescape c = (if c = CHR 0x22 \<or> c = CHR 0x5C \<or> c = CHR ''/'' then Some c
     else if c = CHR ''b'' then Some (CHR 0x08) else if c = CHR ''f'' then Some (CHR 0x0C)
     else if c = CHR ''n'' then Some (CHR 0x0A) else if c = CHR ''r'' then Some (CHR 0x0D)
     else if c = CHR ''t'' then Some (CHR 0x09) else None)"

text \<open>The rest of a string literal after its opening quote.\<close>

fun parse_str :: "string \<Rightarrow> (string \<times> string) option" where
  "parse_str [] = None"
| "parse_str (c # cs) =
     (if c = CHR 0x22 then Some ([], cs)
      else if c = CHR 0x5C then
        (case cs of
           [] \<Rightarrow> None
         | e # r \<Rightarrow>
             if e = CHR ''u'' then
               (case r of
                  a # b # c' # d # r' \<Rightarrow>
                    (case (hex_val a, hex_val b, hex_val c', hex_val d) of
                       (Some w, Some x, Some y, Some z) \<Rightarrow>
                         map_option (\<lambda>(t, q). (utf8 (((w * 16 + x) * 16 + y) * 16 + z) @ t, q))
                           (parse_str r')
                     | _ \<Rightarrow> None)
                | _ \<Rightarrow> None)
             else (case unescape e of
                     None \<Rightarrow> None
                   | Some u \<Rightarrow> map_option (\<lambda>(t, q). (u # t, q)) (parse_str r)))
      else if (of_char c :: nat) < 32 then None
      else map_option (\<lambda>(t, q). (c # t, q)) (parse_str cs))"

text \<open>A number literal: sign, integer part without leading zeros, fraction, exponent.\<close>

definition parse_int_part :: "string \<Rightarrow> (string \<times> string) option" where
  "parse_int_part s = (case s of
     [] \<Rightarrow> None
   | c # cs \<Rightarrow> if c = CHR ''0'' then Some (''0'', cs)
       else if is_digit c then Some (takeWhile is_digit s, dropWhile is_digit s) else None)"

definition parse_frac :: "string \<Rightarrow> (string \<times> string) option" where
  "parse_frac s = (case s of
     c # cs \<Rightarrow> if c = CHR ''.'' then
         (if takeWhile is_digit cs = [] then None
          else Some (c # takeWhile is_digit cs, dropWhile is_digit cs))
       else Some ([], s)
   | [] \<Rightarrow> Some ([], s))"

definition parse_exp :: "string \<Rightarrow> (string \<times> string) option" where
  "parse_exp s = (case s of
     c # cs \<Rightarrow> if c = CHR ''e'' \<or> c = CHR ''E'' then
         (let (sg, ds) = (case cs of d # r \<Rightarrow> if d = CHR ''+'' \<or> d = CHR ''-'' then ([d], r) else ([], cs)
                          | [] \<Rightarrow> ([], cs)) in
          if takeWhile is_digit ds = [] then None
          else Some (c # sg @ takeWhile is_digit ds, dropWhile is_digit ds))
       else Some ([], s)
   | [] \<Rightarrow> Some ([], s))"

definition parse_num :: "string \<Rightarrow> (string \<times> string) option" where
  "parse_num s =
     (let (sg, s1) = (case s of c # cs \<Rightarrow> if c = CHR ''-'' then ([c], cs) else ([], s) | [] \<Rightarrow> ([], s)) in
      case parse_int_part s1 of None \<Rightarrow> None | Some (i, s2) \<Rightarrow>
      (case parse_frac s2 of None \<Rightarrow> None | Some (f, s3) \<Rightarrow>
      (case parse_exp s3 of None \<Rightarrow> None | Some (e, s4) \<Rightarrow> Some (sg @ i @ f @ e, s4))))"

fun pv :: "nat \<Rightarrow> string \<Rightarrow> (json \<times> string) option"
and pe :: "nat \<Rightarrow> string \<Rightarrow> (json list \<times> string) option"
and pm :: "nat \<Rightarrow> string \<Rightarrow> ((string \<times> json) list \<times> string) option" where
  "pv 0 s = None"
| "pv (Suc n) s =
     (case skip_ws s of
        [] \<Rightarrow> None
      | c # cs \<Rightarrow>
          if c = CHR ''{'' then
            (if take 1 (skip_ws cs) = ''}'' then Some (JObj [], drop 1 (skip_ws cs))
             else map_option (\<lambda>(ms, r). (JObj ms, r)) (pm n cs))
          else if c = CHR ''['' then
            (if take 1 (skip_ws cs) = '']'' then Some (JArr [], drop 1 (skip_ws cs))
             else map_option (\<lambda>(xs, r). (JArr xs, r)) (pe n cs))
          else if c = CHR 0x22 then map_option (\<lambda>(t, r). (JStr t, r)) (parse_str cs)
          else if has_prefix (c # cs) ''null'' then Some (JNull, drop 4 (c # cs))
          else if has_prefix (c # cs) ''true'' then Some (JBool True, drop 4 (c # cs))
          else if has_prefix (c # cs) ''false'' then Some (JBool False, drop 5 (c # cs))
          else map_option (\<lambda>(t, r). (JNum t, r)) (parse_num (c # cs)))"
| "pe 0 s = None"
| "pe (Suc n) s =
     (case pv n s of
        None \<Rightarrow> None
      | Some (v, r) \<Rightarrow>
          (case skip_ws r of
             c # r' \<Rightarrow> if c = CHR '','' then map_option (\<lambda>(xs, q). (v # xs, q)) (pe n r')
                       else if c = CHR '']'' then Some ([v], r') else None
           | [] \<Rightarrow> None))"
| "pm 0 s = None"
| "pm (Suc n) s =
     (case skip_ws s of
        [] \<Rightarrow> None
      | q # cs \<Rightarrow>
          if q \<noteq> CHR 0x22 then None else
          (case parse_str cs of
             None \<Rightarrow> None
           | Some (k, r) \<Rightarrow>
               (case skip_ws r of
                  [] \<Rightarrow> None
                | c # r1 \<Rightarrow>
                    if c \<noteq> CHR '':'' then None else
                    (case pv n r1 of
                       None \<Rightarrow> None
                     | Some (v, r2) \<Rightarrow>
                         (case skip_ws r2 of
                            d # r3 \<Rightarrow> if d = CHR '','' then map_option (\<lambda>(ms, z). ((k, v) # ms, z)) (pm n r3)
                                      else if d = CHR ''}'' then Some ([(k, v)], r3) else None
                          | [] \<Rightarrow> None)))))"

definition json_parse :: "string \<Rightarrow> json option" where
  "json_parse s = (case pv (Suc (length s)) s of
     Some (j, r) \<Rightarrow> if skip_ws r = [] then Some j else None
   | None \<Rightarrow> None)"

section \<open>Values the program writes\<close>

definition ascii :: "string \<Rightarrow> bool" where
  "ascii s = list_all (\<lambda>c. (of_char c :: nat) < 128) s"

definition lit_int :: "string \<Rightarrow> int" where
  "lit_int s = (case s of c # cs \<Rightarrow> if c = CHR ''-'' then - int (undecimal cs) else int (undecimal s)
                | [] \<Rightarrow> 0)"

fun json_ok :: "json \<Rightarrow> bool"
and elems_ok :: "json list \<Rightarrow> bool"
and members_ok :: "(string \<times> json) list \<Rightarrow> bool" where
  "json_ok JNull = True"
| "json_ok (JBool b) = True"
| "json_ok (JNum lit) = (lit = fmt_d (lit_int lit))"
| "json_ok (JStr s) = ascii s"
| "json_ok (JArr xs) = elems_ok xs"
| "json_ok (JObj ms) = members_ok ms"
| "elems_ok [] = True"
| "elems_ok (x # xs) = (json_ok x \<and> elems_ok xs)"
| "members_ok [] = True"
| "members_ok ((k, v) # ms) = (ascii k \<and> json_ok v \<and> members_ok ms)"

lemma lit_int_fmt_d [simp]: "lit_int (fmt_d i) = i"
proof (cases "i < 0")
  case True
  then show ?thesis by (simp add: lit_int_def fmt_d_def)
next
  case False
  obtain c cs where d: "decimal (nat i) = c # cs"
    by (meson decimal_nonempty neq_Nil_conv)
  then have "c \<noteq> CHR ''-''" by (metis decimal_minus_neq(1))
  moreover have "undecimal (c # cs) = nat i" by (simp flip: d)
  ultimately show ?thesis
    using False by (simp add: lit_int_def fmt_d_def d)
qed

section \<open>Round trip of strings and numbers\<close>

lemma hex_val_hex_digit [simp]: "d < 16 \<Longrightarrow> hex_val (hex_digit d) = Some d"
  by (auto simp: hex_val_def Let_def)

lemma of_char_nat_eq: "(of_char c :: nat) = of_char d \<longleftrightarrow> c = d"
  by (metis char_of_char)

lemma chr_codes:
  "(of_char c :: nat) = 34 \<longleftrightarrow> c = CHR 0x22" "(of_char c :: nat) = 92 \<longleftrightarrow> c = CHR 0x5C"
  "(of_char c :: nat) = 8 \<longleftrightarrow> c = CHR 0x08" "(of_char c :: nat) = 12 \<longleftrightarrow> c = CHR 0x0C"
  "(of_char c :: nat) = 10 \<longleftrightarrow> c = CHR 0x0A" "(of_char c :: nat) = 13 \<longleftrightarrow> c = CHR 0x0D"
  "(of_char c :: nat) = 9 \<longleftrightarrow> c = CHR 0x09"
  using of_char_nat_eq [of c "CHR 0x22"] of_char_nat_eq [of c "CHR 0x5C"]
    of_char_nat_eq [of c "CHR 0x08"] of_char_nat_eq [of c "CHR 0x0C"]
    of_char_nat_eq [of c "CHR 0x0A"] of_char_nat_eq [of c "CHR 0x0D"]
    of_char_nat_eq [of c "CHR 0x09"]
  by simp_all

lemma esc_char_cases:
  obtains (short) u where "esc_char c = [CHR 0x5C, u]" "unescape u = Some c" "u \<noteq> CHR ''u''"
  | (hex) "esc_char c = esc_u (of_char c)" "(of_char c :: nat) < 128"
  | (plain) "esc_char c = [c]" "c \<noteq> CHR 0x22" "c \<noteq> CHR 0x5C" "\<not> (of_char c :: nat) < 32"
proof -
  define sp where "sp = (c \<in> {CHR 0x22, CHR 0x5C, CHR 0x08, CHR 0x0C, CHR 0x0A, CHR 0x0D, CHR 0x09})"
  define hx where "hx = ((of_char c :: nat) < 32 \<or> c = CHR ''<'' \<or> c = CHR ''>'' \<or> c = CHR ''&'')"
  consider sp | "\<not> sp" hx | "\<not> sp" "\<not> hx" by blast
  then show thesis
  proof cases
    case 1
    then show thesis
      by (auto simp: sp_def esc_char_def unescape_def intro: short)
  next
    case 2
    then have "esc_char c = esc_u (of_char c)"
      by (simp add: sp_def hx_def esc_char_def Let_def chr_codes)
    moreover have "(of_char c :: nat) < 128" using 2(2) by (auto simp: hx_def)
    ultimately show thesis by (rule hex)
  next
    case 3
    then have "esc_char c = [c]" by (simp add: sp_def hx_def esc_char_def Let_def chr_codes)
    with 3 show thesis by (auto simp: sp_def hx_def intro: plain)
  qed
qed

lemma parse_str_u:
  "n < 128 \<Longrightarrow> parse_str (esc_u n @ rest) = map_option (\<lambda>(t, q). (char_of n # t, q)) (parse_str rest)"
proof -
  assume n: "n < 128"
  then have "n div 16 < 16" by linarith
  then have h: "hex_val (hex_digit (n div 16)) = Some (n div 16)"
    "hex_val (hex_digit (n mod 16)) = Some (n mod 16)"
    by simp_all
  have z: "hex_val CHR ''0'' = Some 0" by (simp add: hex_val_def)
  have "n div 16 * 16 + n mod 16 = n" by simp
  then show ?thesis
    using n by (simp add: esc_u_def h z utf8_def)
qed

lemma parse_str_esc:
  "parse_str (esc_char c @ rest) = map_option (\<lambda>(t, q). (c # t, q)) (parse_str rest)"
proof (cases c rule: esc_char_cases)
  case (short u)
  then show ?thesis by simp
next
  case hex
  then show ?thesis using parse_str_u [of "of_char c" rest] by simp
next
  case plain
  then show ?thesis by simp
qed

lemma parse_print_str: "parse_str (concat (map esc_char s) @ CHR 0x22 # rest) = Some (s, rest)"
  by (induction s) (simp_all add: parse_str_esc)

text \<open>What may follow a number without being read as part of it.\<close>

definition num_stop :: "string \<Rightarrow> bool" where
  "num_stop r = (case r of [] \<Rightarrow> True
     | c # _ \<Rightarrow> \<not> is_digit c \<and> c \<noteq> CHR ''.'' \<and> c \<noteq> CHR ''e'' \<and> c \<noteq> CHR ''E'')"

lemma num_stop_Nil [simp]: "num_stop []"
  by (simp add: num_stop_def)

lemma num_stop_punct [simp]:
  "num_stop (CHR '','' # r)" "num_stop (CHR '']'' # r)" "num_stop (CHR ''}'' # r)"
  by (simp_all add: num_stop_def is_digit_def)

lemma decimal_is_digit: "c \<in> set (decimal n) \<Longrightarrow> is_digit c"
  by (drule decimal_range) (simp add: is_digit_def)

lemma hd_decimal: "0 < n \<Longrightarrow> hd (decimal n) \<noteq> CHR ''0''"
proof (induction n rule: decimal.induct)
  case (1 n)
  show ?case
  proof (cases "n < 10")
    case True
    then have "(of_char (digit_char n) :: nat) = 48 + n" by simp
    with "1.prems" have "digit_char n \<noteq> CHR ''0''" by auto
    with True show ?thesis by (subst decimal.simps) simp
  next
    case False
    then have "hd (decimal (n div 10)) \<noteq> CHR ''0''" using "1.IH" by simp
    with False show ?thesis by (subst decimal.simps) simp
  qed
qed

lemma digits_span:
  assumes "num_stop r"
  shows "takeWhile is_digit (decimal n @ r) = decimal n" "dropWhile is_digit (decimal n @ r) = r"
proof -
  have "takeWhile is_digit r = []" "dropWhile is_digit r = r"
    using assms by (cases r; simp add: num_stop_def)+
  then show "takeWhile is_digit (decimal n @ r) = decimal n" "dropWhile is_digit (decimal n @ r) = r"
    by (simp_all add: decimal_is_digit)
qed

lemma parse_int_part_decimal:
  assumes "num_stop r"
  shows "parse_int_part (decimal n @ r) = Some (decimal n, r)"
proof (cases "n = 0")
  case True
  have "digit_char 0 = CHR ''0''"
    using of_char_nat_eq [of "digit_char 0" "CHR ''0''"] by simp
  then have "decimal 0 = ''0''" by (simp add: decimal.simps)
  with True show ?thesis by (simp add: parse_int_part_def)
next
  case False
  obtain c cs where d: "decimal n = c # cs" by (meson decimal_nonempty neq_Nil_conv)
  have "c \<noteq> CHR ''0''" using hd_decimal [of n] False d by simp
  moreover have "is_digit c" using decimal_is_digit [of c n] d by simp
  moreover note digits_span [OF assms, of n, unfolded d]
  ultimately show ?thesis
    by (simp add: parse_int_part_def d)
qed

lemma parse_num_tail: "num_stop r \<Longrightarrow> parse_frac r = Some ([], r)" "num_stop r \<Longrightarrow> parse_exp r = Some ([], r)"
  by (cases r; simp add: num_stop_def parse_frac_def parse_exp_def)+

lemma parse_num_fmt_d:
  assumes "num_stop r"
  shows "parse_num (fmt_d i @ r) = Some (fmt_d i, r)"
proof (cases "i < 0")
  case True
  then show ?thesis
    by (simp add: parse_num_def fmt_d_def parse_int_part_decimal [OF assms] parse_num_tail assms)
next
  case False
  obtain c cs where d: "decimal (nat i) = c # cs" by (meson decimal_nonempty neq_Nil_conv)
  then have "c \<noteq> CHR ''-''" by (metis decimal_minus_neq(1))
  with False show ?thesis
    using parse_int_part_decimal [OF assms, of "nat i"]
    by (simp add: parse_num_def fmt_d_def d parse_num_tail assms)
qed

section \<open>Round trip of values\<close>

lemma fmt_d_first:
  obtains c cs where "fmt_d i = c # cs" and "c = CHR ''-'' \<or> is_digit c"
proof (cases "i < 0")
  case True
  then show ?thesis using that by (simp add: fmt_d_def)
next
  case False
  obtain c cs where "decimal (nat i) = c # cs" by (meson decimal_nonempty neq_Nil_conv)
  with False show ?thesis using that decimal_is_digit [of c "nat i"] by (auto simp: fmt_d_def)
qed

lemma is_digit_not:
  "is_digit c \<Longrightarrow> c \<noteq> CHR ''{'' \<and> c \<noteq> CHR ''['' \<and> c \<noteq> CHR '']'' \<and> c \<noteq> CHR 0x22 \<and> c \<noteq> CHR ''n'' \<and>
    c \<noteq> CHR ''t'' \<and> c \<noteq> CHR ''f'' \<and> \<not> is_ws c"
  by (auto simp: is_digit_def is_ws_def)

lemma skip_ws_nonws [simp]: "\<not> is_ws c \<Longrightarrow> skip_ws (c # cs) = c # cs"
  by (simp add: skip_ws_def)

lemma not_ws_punct [simp]:
  "\<not> is_ws CHR ''{''" "\<not> is_ws CHR ''[''" "\<not> is_ws CHR '']''" "\<not> is_ws CHR ''}''" "\<not> is_ws CHR '':''"
  "\<not> is_ws CHR '',''" "\<not> is_ws CHR 0x22" "\<not> is_ws CHR ''n''" "\<not> is_ws CHR ''t''" "\<not> is_ws CHR ''f''"
  by (simp_all add: is_ws_def)

lemma json_print_first:
  assumes "json_ok j"
  obtains c cs where "json_print j = c # cs" and "\<not> is_ws c" and "c \<noteq> CHR '']''"
proof (cases j)
  case (JNum lit)
  with assms obtain c cs where "lit = c # cs" "c = CHR ''-'' \<or> is_digit c"
    by (metis fmt_d_first json_ok.simps(3))
  moreover have "\<not> is_ws CHR ''-''" by (simp add: is_ws_def)
  ultimately show ?thesis using that JNum is_digit_not by fastforce
next
  case (JBool b)
  then show ?thesis using that by (cases b) auto
qed (use that in \<open>simp_all add: print_str_def\<close>)

lemma pv_num:
  assumes "num_stop r" and "0 < n"
  shows "pv n (fmt_d i @ r) = Some (JNum (fmt_d i), r)"
proof -
  obtain c cs where c: "fmt_d i = c # cs" "c = CHR ''-'' \<or> is_digit c"
    by (rule fmt_d_first)
  obtain m where n: "n = Suc m" using assms(2) by (cases n) auto
  have w: "\<not> is_ws c \<and> c \<noteq> CHR ''{'' \<and> c \<noteq> CHR ''['' \<and> c \<noteq> CHR 0x22 \<and> c \<noteq> CHR ''n'' \<and>
    c \<noteq> CHR ''t'' \<and> c \<noteq> CHR ''f''"
    using c(2)
  proof
    assume "c = CHR ''-''"
    then show ?thesis by (simp add: is_ws_def)
  next
    assume "is_digit c"
    from is_digit_not [OF this] show ?thesis by fast
  qed
  have "parse_num (c # cs @ r) = Some (c # cs, r)"
    using parse_num_fmt_d [OF assms(1), of i] by (simp add: c(1))
  with w show ?thesis
    by (simp add: n c(1))
qed

lemma pv_arr:
  assumes "json_ok x" and "pe n (print_elems (x # xs) @ CHR '']'' # r) = Some (x # xs, r)"
  shows "pv (Suc n) (json_print (JArr (x # xs)) @ r) = Some (JArr (x # xs), r)"
proof -
  obtain c cs where c: "json_print x = c # cs" "\<not> is_ws c" "c \<noteq> CHR '']''"
    using assms(1) by (rule json_print_first)
  with assms(2) show ?thesis by simp
qed

lemma pm_step:
  assumes "pv n (json_print v @ rest) = Some (v, rest)" and "skip_ws rest = d # q"
  shows "pm (Suc n) (print_str k @ CHR '':'' # json_print v @ rest) =
    (if d = CHR '','' then map_option (\<lambda>(ms, z). ((k, v) # ms, z)) (pm n q)
     else if d = CHR ''}'' then Some ([(k, v)], q) else None)"
  using assms by (simp add: print_str_def parse_print_str)

lemma pv_print:
  "json_ok j \<Longrightarrow> length (json_print j) < n \<Longrightarrow> num_stop r \<Longrightarrow> pv n (json_print j @ r) = Some (j, r)"
  and pe_print:
  "elems_ok xs \<Longrightarrow> xs \<noteq> [] \<Longrightarrow> length (print_elems xs) + 1 < n \<Longrightarrow>
    pe n (print_elems xs @ CHR '']'' # r) = Some (xs, r)"
  and pm_print:
  "members_ok ms \<Longrightarrow> ms \<noteq> [] \<Longrightarrow> length (print_members ms) + 1 < n \<Longrightarrow>
    pm n (print_members ms @ CHR ''}'' # r) = Some (ms, r)"
proof (induction j and xs and ms arbitrary: n r and n r and n r
    rule: json_print_print_elems_print_members.induct)
  case 1
  then show ?case by (cases n) simp_all
next
  case (2 b)
  then show ?case by (cases n; cases b) simp_all
next
  case (3 lit)
  then show ?case using pv_num [of r n "lit_int lit"] by fastforce
next
  case (4 s)
  then show ?case by (cases n) (simp_all add: print_str_def parse_print_str)
next
  case (5 xs)
  then obtain m where n: "n = Suc m" by (cases n) auto
  show ?case
  proof (cases xs)
    case Nil
    with n show ?thesis by simp
  next
    case (Cons x ys)
    with 5 n have "pe m (print_elems xs @ CHR '']'' # r) = Some (xs, r)" by simp
    with Cons n 5 show ?thesis using pv_arr [of x m ys r] by simp
  qed
next
  case (6 ms)
  then obtain m where n: "n = Suc m" by (cases n) auto
  show ?case
  proof (cases ms)
    case Nil
    with n show ?thesis by simp
  next
    case (Cons kv ys)
    with 6 n have "pm m (print_members ms @ CHR ''}'' # r) = Some (ms, r)" by simp
    with Cons n show ?thesis by (cases kv) (simp add: print_str_def)
  qed
next
  case (8 x xs)
  then obtain m where n: "n = Suc m" by (cases n) auto
  let ?rest = "(if xs = [] then [] else CHR '','' # print_elems xs) @ CHR '']'' # r"
  have "pv m (json_print x @ ?rest) = Some (x, ?rest)"
    using 8 n by (intro "8.IH"(1)) (auto split: if_splits)
  then show ?case using 8 n by (cases "xs = []") auto
next
  case (10 k v ms)
  then obtain m where n: "n = Suc m" by (cases n) auto
  let ?rest = "(if ms = [] then [] else CHR '','' # print_members ms) @ CHR ''}'' # r"
  have "pv m (json_print v @ ?rest) = Some (v, ?rest)"
    using 10 n by (intro "10.IH"(1)) (auto split: if_splits)
  then show ?case using 10 n pm_step [of m v ?rest _ _ k] by (cases "ms = []") auto
next
  case 7
  then show ?case by simp
next
  case 9
  then show ?case by simp
qed

text \<open>Unmarshalling what was marshalled gives the value back.\<close>

theorem json_parse_print: "json_ok j \<Longrightarrow> json_parse (json_print j) = Some j"
  using pv_print [of j "Suc (length (json_print j))" "[]"]
  by (simp add: json_parse_def skip_ws_def)

end
