(* ===== verification/Extern.thy ===== *)
theory Extern
  imports Json
begin

text \<open>
  Third-party codecs as parameters. The definitions of the development take a record \<open>ext\<close> of the
  functions they call; the laws they rely on are the assumptions of the locale \<open>ext_codecs\<close>, whose
  predicate is the named hypothesis of the theorems that need them. The locale is interpreted on
  \<open>hexExt\<close>, the textual form go-ethereum documents for hashes (\<^verbatim>\<open>0x\<close> and 64 lower-case digits) and
  RLP for short lists of two non-negative integers.
\<close>

section \<open>The parameters\<close>

text \<open>
  \<open>hashString\<close> is \<^verbatim>\<open>common.Hash.String\<close> (also the text \<^verbatim>\<open>MarshalText\<close> writes), \<open>hashUnmarshal\<close> is
  \<^verbatim>\<open>common.Hash.UnmarshalJSON\<close>, \<open>HexToHash\<close> is \<^verbatim>\<open>common.HexToHash\<close>, \<open>rlpEncode\<close> and \<open>rlpDecode\<close> are
  \<^verbatim>\<open>rlp.EncodeToBytes\<close> and \<^verbatim>\<open>rlp.DecodeBytes\<close> on a struct of two \<^verbatim>\<open>*big.Int\<close>; \<open>None\<close> is an error.
\<close>

record ext =
  hashString :: "hash \<Rightarrow> string"
  hashUnmarshal :: "json \<Rightarrow> hash option"
  HexToHash :: "string \<Rightarrow> hash"
  rlpEncode :: "int \<times> int \<Rightarrow> bytes option"
  rlpDecode :: "bytes \<Rightarrow> (int \<times> int) option"

locale ext_codecs =
  fixes x :: ext
  assumes hash_unmarshal: "hashUnmarshal x (JStr (hashString x h)) = Some h"
    and hash_ascii: "ascii (hashString x h)"
    and hash_no_slash: "CHR ''/'' \<notin> set (hashString x h)"
    and hash_fold: "EqualFold (hashString x a) (hashString x b) \<Longrightarrow> a = b"
    and rlp_roundtrip: "rlpEncode x r = Some bs \<Longrightarrow> rlpDecode x bs = Some r"
    and rlp_negative: "n < 0 \<or> v < 0 \<Longrightarrow> rlpEncode x (n, v) = None"
    and rlp_total: "0 \<le> n \<Longrightarrow> n < 2 ^ 64 \<Longrightarrow> 0 \<le> v \<Longrightarrow> v < 2 ^ 64 \<Longrightarrow> \<exists>bs. rlpEncode x (n, v) = Some bs"
begin

lemma hashString_inject: "hashString x a = hashString x b \<longleftrightarrow> a = b"
  using hash_fold [of a b] by (auto simp: EqualFold_def)

lemma EqualFold_hashString: "EqualFold (hashString x a) (hashString x b) \<longleftrightarrow> a = b"
  using hash_fold by (auto simp: EqualFold_def)

end

section \<open>The documented instance\<close>

definition hexString :: "hash \<Rightarrow> string" where
  "hexString h = ''0x'' @ hex_EncodeToString (hash_bytes h)"

fun hex_decode :: "string \<Rightarrow> bytes option" where
  "hex_decode [] = Some []"
| "hex_decode [a] = None"
| "hex_decode (a # b # r) =
     (case (hex_val a, hex_val b, hex_decode r) of
        (Some m, Some n, Some bs) \<Rightarrow> Some (of_nat (m * 16 + n) # bs)
      | _ \<Rightarrow> None)"

definition hexUnmarshal :: "json \<Rightarrow> hash option" where
  "hexUnmarshal j = (case j of
     JStr s \<Rightarrow> if has_prefix s ''0x'' \<and> length s = 66
               then map_option BytesToHash (hex_decode (drop 2 s)) else None
   | _ \<Rightarrow> None)"

definition hexToHash :: "string \<Rightarrow> hash" where
  "hexToHash s = (case hex_decode (TrimPrefix s ''0x'') of Some bs \<Rightarrow> BytesToHash bs | None \<Rightarrow> 0)"

definition rlp_item :: "bytes \<Rightarrow> bytes" where
  "rlp_item bs = (if length bs = 1 \<and> unat (hd bs) < 128 then bs else of_nat (128 + length bs) # bs)"

definition rlp_pair :: "int \<times> int \<Rightarrow> bytes option" where
  "rlp_pair r = (case r of (n, v) \<Rightarrow>
     if n < 0 \<or> v < 0 \<or> 20 < length (big_Bytes n) \<or> 20 < length (big_Bytes v) then None
     else (let p = rlp_item (big_Bytes n) @ rlp_item (big_Bytes v) in
           Some (of_nat (192 + length p) # p)))"

definition rlp_read :: "bytes \<Rightarrow> (bytes \<times> bytes) option" where
  "rlp_read s = (case s of
     [] \<Rightarrow> None
   | b # r \<Rightarrow> if unat b < 128 then Some ([b], r)
       else if unat b < 184 \<and> unat b - 128 \<le> length r
       then Some (take (unat b - 128) r, drop (unat b - 128) r) else None)"

definition rlp_unpair :: "bytes \<Rightarrow> (int \<times> int) option" where
  "rlp_unpair s = (case rlp_read (drop 1 s) of
     None \<Rightarrow> None
   | Some (a, q) \<Rightarrow> (case rlp_read q of
       None \<Rightarrow> None
     | Some (b, t) \<Rightarrow> if t = [] then Some (int (be_nat a), int (be_nat b)) else None))"

definition hexExt :: ext where
  "hexExt = \<lparr> hashString = hexString, hashUnmarshal = hexUnmarshal, HexToHash = hexToHash,
     rlpEncode = rlp_pair, rlpDecode = rlp_unpair \<rparr>"

section \<open>The instance satisfies the laws\<close>

lemma hex_decode_encode: "hex_decode (hex_EncodeToString bs) = Some bs"
proof (induction bs)
  case Nil
  then show ?case by (simp add: hex_EncodeToString_def)
next
  case (Cons b bs)
  have "unat b div 16 * 16 + unat b mod 16 = unat b" by simp
  then have "(of_nat (unat b div 16 * 16 + unat b mod 16) :: byte) = b"
    by (simp del: div_mod_decomp)
  then show ?case using Cons by (simp add: hex_EncodeToString_def)
qed

lemma length_hex [simp]: "length (hex_EncodeToString bs) = 2 * length bs"
  by (induction bs) (simp_all add: hex_EncodeToString_def)

lemma hex_chars:
  "c \<in> set (hex_EncodeToString bs) \<Longrightarrow> \<exists>d<16. c = hex_digit d"
  by (auto simp: hex_EncodeToString_def intro: exI [of _ "unat b mod 16" for b])
    (metis unat_byte_div16 mod_less_divisor zero_less_numeral)+

lemma hex_char_code:
  assumes "c \<in> set (hex_EncodeToString bs)"
  shows "(of_char c :: nat) < 128" "c \<noteq> CHR ''/''" "ascii_lower c = c"
proof -
  obtain d where d: "d < 16" "c = hex_digit d" using hex_chars [OF assms] by blast
  then have n: "(of_char c :: nat) = (if d < 10 then 48 + d else 87 + d)" by simp
  with d(1) show "(of_char c :: nat) < 128" by (simp split: if_splits)
  show "c \<noteq> CHR ''/''" using n d(1) by (auto split: if_splits)
  show "ascii_lower c = c" using n d(1) by (auto simp: ascii_lower_def Let_def split: if_splits)
qed

lemma hexString_lower: "map ascii_lower (hexString h) = hexString h"
proof -
  have "ascii_lower CHR ''0'' = CHR ''0''" "ascii_lower CHR ''x'' = CHR ''x''"
    by (simp_all add: ascii_lower_def)
  moreover have "map ascii_lower (hex_EncodeToString bs) = hex_EncodeToString bs" for bs
    by (rule map_idI) (rule hex_char_code(3))
  ultimately show ?thesis by (simp add: hexString_def)
qed

lemma rlp_read_item:
  assumes "length bs \<le> 20"
  shows "rlp_read (rlp_item bs @ r) = Some (bs, r)"
proof (cases "length bs = 1 \<and> unat (hd bs) < 128")
  case True
  then obtain b where "bs = [b]" by (metis length_0_conv length_Suc_conv One_nat_def)
  with True show ?thesis by (simp add: rlp_item_def rlp_read_def)
next
  case False
  have "unat (of_nat (128 + length bs) :: byte) = 128 + length bs"
    using assms by (simp add: unat_of_nat take_bit_eq_mod del: of_nat_add)
  moreover have "rlp_item bs = of_nat (128 + length bs) # bs"
    using False unfolding rlp_item_def by argo
  ultimately show ?thesis
    using assms by (simp add: rlp_read_def del: of_nat_add)
qed

lemma rlp_unpair_pair: "rlp_pair r = Some bs \<Longrightarrow> rlp_unpair bs = Some r"
proof -
  assume a: "rlp_pair r = Some bs"
  obtain n v where r: "r = (n, v)" by (cases r)
  from a r have len: "length (big_Bytes n) \<le> 20" "length (big_Bytes v) \<le> 20"
    and nn: "0 \<le> n" "0 \<le> v"
    and bs: "drop 1 bs = rlp_item (big_Bytes n) @ rlp_item (big_Bytes v) @ []"
    by (auto simp: rlp_pair_def Let_def split: if_splits)
  show ?thesis
    unfolding rlp_unpair_def bs rlp_read_item [OF len(1)] rlp_read_item [OF len(2)] option.case prod.case
    by (simp add: r big_Bytes_def nn)
qed

lemma length_nat_Bytes: "n < 256 ^ k \<Longrightarrow> length (nat_Bytes n) \<le> k"
proof (induction k arbitrary: n)
  case 0
  then show ?case by (simp add: nat_Bytes.simps)
next
  case (Suc k)
  then have "n div 256 < 256 ^ k" by (simp add: less_mult_imp_div_less mult.commute)
  then have "length (nat_Bytes (n div 256)) \<le> k" by (rule Suc.IH)
  then show ?case by (subst nat_Bytes.simps) simp
qed

lemma length_big_Bytes: "0 \<le> n \<Longrightarrow> n < 2 ^ 64 \<Longrightarrow> length (big_Bytes n) \<le> 20"
proof -
  assume "0 \<le> n" "n < 2 ^ 64"
  then have "nat n < nat (2 ^ 64)" by simp
  then have "nat n < 256 ^ 8" by simp
  then show ?thesis
    using length_nat_Bytes [of "nat n" 8] \<open>0 \<le> n\<close> by (simp add: big_Bytes_def)
qed

interpretation hexc: ext_codecs hexExt
proof
  fix h a b :: hash and r :: "int \<times> int" and bs :: bytes and n v :: int
  show "hashUnmarshal hexExt (JStr (hashString hexExt h)) = Some h"
    by (simp add: hexExt_def hexUnmarshal_def hexString_def hex_decode_encode)
  show "ascii (hashString hexExt h)"
    by (auto simp: hexExt_def hexString_def ascii_def list_all_iff intro: hex_char_code(1))
  show "CHR ''/'' \<notin> set (hashString hexExt h)"
    using hex_char_code(2) by (auto simp: hexExt_def hexString_def)
  show "EqualFold (hashString hexExt a) (hashString hexExt b) \<Longrightarrow> a = b"
    by (simp add: hexExt_def EqualFold_def hexString_lower) (simp add: hexString_def)
  show "rlpEncode hexExt r = Some bs \<Longrightarrow> rlpDecode hexExt bs = Some r"
    by (simp add: hexExt_def rlp_unpair_pair)
  show "n < 0 \<or> v < 0 \<Longrightarrow> rlpEncode hexExt (n, v) = None"
    by (auto simp: hexExt_def rlp_pair_def)
  show "0 \<le> n \<Longrightarrow> n < 2 ^ 64 \<Longrightarrow> 0 \<le> v \<Longrightarrow> v < 2 ^ 64 \<Longrightarrow> \<exists>bs. rlpEncode hexExt (n, v) = Some bs"
    using length_big_Bytes [of n] length_big_Bytes [of v]
    by (simp add: hexExt_def rlp_pair_def Let_def)
qed

end
