(* ===== verification/Pebble.thy ===== *)
theory Pebble
  imports Prelude
begin

text \<open>
  The key-value store under \<^verbatim>\<open>db.ConsistencyDB\<close>. Pebble itself is third-party code; what the
  program relies on is stated as the locale \<open>kv_store\<close>: a read returns the stored value, reports a
  missing key as \<open>NotFound\<close> or fails with another error, and a batch commits completely or not at
  all. The model of the store is a map with an arbitrary schedule of failures: read and commit
  failures may differ at every epoch, and each commit attempt starts a new epoch.
\<close>

record pebble =
  kv :: "bytes \<rightharpoonup> bytes"
  epoch :: nat
  readErr :: "nat \<Rightarrow> bytes \<Rightarrow> bool"
  commitErr :: "nat \<Rightarrow> bool"

datatype batch_op = BSet bytes bytes | BDelete bytes

fun op_key :: "batch_op \<Rightarrow> bytes" where
  "op_key (BSet k v) = k"
| "op_key (BDelete k) = k"

fun apply_op :: "batch_op \<Rightarrow> (bytes \<rightharpoonup> bytes) \<Rightarrow> (bytes \<rightharpoonup> bytes)" where
  "apply_op (BSet k v) m = m(k \<mapsto> v)"
| "apply_op (BDelete k) m = m(k := None)"

definition apply_batch :: "batch_op list \<Rightarrow> (bytes \<rightharpoonup> bytes) \<Rightarrow> (bytes \<rightharpoonup> bytes)" where
  "apply_batch ops m = fold apply_op ops m"

definition Get :: "pebble \<Rightarrow> bytes \<Rightarrow> bytes res" where
  "Get p k = (if readErr p (epoch p) k then Inl IOErr
     else case kv p k of None \<Rightarrow> Inl NotFound | Some v \<Rightarrow> Inr v)"

definition Commit :: "pebble \<Rightarrow> batch_op list \<Rightarrow> unit res \<times> pebble" where
  "Commit p ops =
     (if commitErr p (epoch p) then (Inl IOErr, p\<lparr>epoch := Suc (epoch p)\<rparr>)
      else (Inr (), p\<lparr>kv := apply_batch ops (kv p), epoch := Suc (epoch p)\<rparr>))"

definition emptyPebble :: pebble where
  "emptyPebble = \<lparr> kv = Map.empty, epoch = 0, readErr = (\<lambda>_ _. False), commitErr = (\<lambda>_. False) \<rparr>"

section \<open>The contract of the store\<close>

locale kv_store =
  fixes get :: "'s \<Rightarrow> bytes \<Rightarrow> bytes res"
    and commit :: "'s \<Rightarrow> batch_op list \<Rightarrow> unit res \<times> 's"
    and content :: "'s \<Rightarrow> bytes \<rightharpoonup> bytes"
  assumes get_value: "get s k = Inr v \<Longrightarrow> content s k = Some v"
    and get_missing: "get s k = Inl NotFound \<Longrightarrow> content s k = None"
    and commit_ok: "commit s ops = (Inr u, s') \<Longrightarrow> content s' = apply_batch ops (content s)"
    and commit_failed: "commit s ops = (Inl e, s') \<Longrightarrow> content s' = content s"
begin

lemma commit_atomic:
  "content (snd (commit s ops)) = apply_batch ops (content s) \<or> content (snd (commit s ops)) = content s"
  by (cases "commit s ops"; cases "fst (commit s ops)") (auto dest: commit_ok commit_failed)

lemma get_after_commit:
  assumes "commit s ops = (Inr u, s')" and "get s' k = Inr v"
  shows "apply_batch ops (content s) k = Some v"
  using get_value [OF assms(2)] commit_ok [OF assms(1)] by simp

end

interpretation pebble_kv: kv_store Get Commit kv
  by unfold_locales (auto simp: Get_def Commit_def split: if_splits option.splits)

section \<open>Batches\<close>

lemma apply_batch_Nil [simp]: "apply_batch [] m = m"
  by (simp add: apply_batch_def)

lemma apply_batch_Cons [simp]: "apply_batch (a # ops) m = apply_batch ops (apply_op a m)"
  by (simp add: apply_batch_def)

lemma apply_batch_append [simp]: "apply_batch (a @ b) m = apply_batch b (apply_batch a m)"
  by (simp add: apply_batch_def)

lemma apply_op_other: "op_key a \<noteq> k \<Longrightarrow> apply_op a m k = m k"
  by (cases a) auto

lemma apply_batch_other: "k \<notin> op_key ` set ops \<Longrightarrow> apply_batch ops m k = m k"
  by (induction ops arbitrary: m) (auto simp: apply_op_other)

lemma Get_ok: "\<not> readErr p (epoch p) k \<Longrightarrow> kv p k = Some v \<Longrightarrow> Get p k = Inr v"
  by (simp add: Get_def)

lemma Commit_ok_iff:
  "Commit p ops = (Inr u, p') \<longleftrightarrow>
    \<not> commitErr p (epoch p) \<and> p' = p\<lparr>kv := apply_batch ops (kv p), epoch := Suc (epoch p)\<rparr>"
  by (auto simp: Commit_def)

end
