(* ===== verification/ForkState.thy ===== *)
theory ForkState
  imports Extern Pebble
begin

text \<open>
  \<^verbatim>\<open>db/fork_scan.go\<close>: the persistent cursor of the continuous fork scan, its validation, its JSON
  encoding and its load and save operations on the store (\<^verbatim>\<open>cdb.db\<close>). The lemmas show that a saved
  cursor is loaded back unchanged, that scopes (chain id, version) do not share a key, and that a
  present but unreadable or corrupt record is always an error, never a fresh start.
\<close>

section \<open>The cursor\<close>

record ForkScanAnchor =
  anchorHeight :: u64
  anchorHash :: hash

record ForkScanPosition =
  Topic :: string
  Partition :: int
  Offset :: int

record ForkScanState =
  Format :: int
  Baseline :: ForkScanAnchor
  NextHeight :: u64
  Generation :: u64
  Published :: ForkScanAnchor
  Position :: "ForkScanPosition option"
  Pending :: "ForkScanAnchor option"

definition forkScanKey :: "int \<Rightarrow> string \<Rightarrow> bytes" where
  "forkScanKey chainID version =
     str_bytes (''meta/fork-recheck/v1/'' @ fmt_d chainID @ ''/'' @ hex_EncodeToString (str_bytes version))"

definition validate :: "ForkScanState \<Rightarrow> unit res" where
  "validate s =
     (if Format s \<noteq> 1 \<or> Generation s = 0 \<or> anchorHash (Baseline s) = 0 \<or>
         anchorHash (Published s) = 0 \<or> anchorHeight (Baseline s) = MaxUint64
      then Inl (Msg ''invalid fork scan state (format, generation or anchor)'')
      else if anchorHeight (Published s) \<noteq> MaxUint64 \<and> NextHeight s > anchorHeight (Published s) + 1
      then Inl (Msg ''fork scan cursor exceeds published head'')
      else if (case Pending s of None \<Rightarrow> False | Some a \<Rightarrow> anchorHash a = 0)
      then Inl (Msg ''invalid pending fork scan anchor'')
      else if (case Position s of None \<Rightarrow> False
               | Some p \<Rightarrow> Topic p = [] \<or> Partition p < 0 \<or> Offset p < 0)
      then Inl (Msg ''invalid fork scan message position'')
      else Inr ())"

section \<open>JSON encoding of the struct\<close>

text \<open>\<^verbatim>\<open>json.Marshal\<close>: fields in declaration order under their tags; a nil \<^verbatim>\<open>inner_position\<close> is omitted.\<close>

definition u64_json :: "u64 \<Rightarrow> json" where
  "u64_json w = JNum (fmt_d (uint w))"

definition anchor_json :: "ext \<Rightarrow> ForkScanAnchor \<Rightarrow> json" where
  "anchor_json x a =
     JObj [(''height'', u64_json (anchorHeight a)), (''hash'', JStr (hashString x (anchorHash a)))]"

definition position_json :: "ForkScanPosition \<Rightarrow> json" where
  "position_json p =
     JObj [(''topic'', JStr (Topic p)), (''partition'', JNum (fmt_d (Partition p))),
           (''offset'', JNum (fmt_d (Offset p)))]"

definition state_json :: "ext \<Rightarrow> ForkScanState \<Rightarrow> json" where
  "state_json x s = JObj
     ([(''format'', JNum (fmt_d (Format s))), (''baseline'', anchor_json x (Baseline s)),
       (''next_scan_height'', u64_json (NextHeight s)), (''generation'', u64_json (Generation s)),
       (''published'', anchor_json x (Published s))] @
      (case Position s of None \<Rightarrow> [] | Some p \<Rightarrow> [(''inner_position'', position_json p)]) @
      [(''pending'', case Pending s of None \<Rightarrow> JNull | Some a \<Rightarrow> anchor_json x a)])"

section \<open>JSON decoding into the struct\<close>

text \<open>
  \<^verbatim>\<open>json.Unmarshal\<close> visits the members in order and matches a field name regardless of ASCII case;
  unknown names are skipped; \<^verbatim>\<open>null\<close> leaves a number, string or struct as it is and sets a pointer to
  nil; a repeated name decodes into the value already there. Any type error fails the whole call.
\<close>

definition jsonErr :: err where
  "jsonErr = Msg ''json: cannot unmarshal''"

definition parse_uint64 :: "string \<Rightarrow> u64 option" where
  "parse_uint64 lit =
     (if lit \<noteq> [] \<and> list_all is_digit lit \<and> undecimal lit < 2 ^ 64 then Some (of_nat (undecimal lit))
      else None)"

definition parse_int64 :: "string \<Rightarrow> int option" where
  "parse_int64 lit =
     (let ds = (case lit of c # cs \<Rightarrow> if c = CHR ''-'' then cs else lit | [] \<Rightarrow> lit) in
      if ds \<noteq> [] \<and> list_all is_digit ds \<and> - (2 ^ 63) \<le> lit_int lit \<and> lit_int lit < 2 ^ 63
      then Some (lit_int lit) else None)"

definition dec_u64 :: "json \<Rightarrow> u64 \<Rightarrow> u64 res" where
  "dec_u64 j old = (case j of
     JNull \<Rightarrow> Inr old
   | JNum lit \<Rightarrow> (case parse_uint64 lit of Some w \<Rightarrow> Inr w | None \<Rightarrow> Inl jsonErr)
   | _ \<Rightarrow> Inl jsonErr)"

definition dec_int :: "json \<Rightarrow> int \<Rightarrow> int res" where
  "dec_int j old = (case j of
     JNull \<Rightarrow> Inr old
   | JNum lit \<Rightarrow> (case parse_int64 lit of Some i \<Rightarrow> Inr i | None \<Rightarrow> Inl jsonErr)
   | _ \<Rightarrow> Inl jsonErr)"

definition dec_string :: "json \<Rightarrow> string \<Rightarrow> string res" where
  "dec_string j old = (case j of JNull \<Rightarrow> Inr old | JStr s \<Rightarrow> Inr s | _ \<Rightarrow> Inl jsonErr)"

definition dec_hash :: "ext \<Rightarrow> json \<Rightarrow> hash res" where
  "dec_hash x j = (case hashUnmarshal x j of Some h \<Rightarrow> Inr h | None \<Rightarrow> Inl jsonErr)"

definition anchor_field :: "ext \<Rightarrow> string \<times> json \<Rightarrow> ForkScanAnchor \<Rightarrow> ForkScanAnchor res" where
  "anchor_field x m a = (case m of (k, v) \<Rightarrow>
     if EqualFold k ''height''
     then (case dec_u64 v (anchorHeight a) of Inl e \<Rightarrow> Inl e | Inr w \<Rightarrow> Inr (a\<lparr>anchorHeight := w\<rparr>))
     else if EqualFold k ''hash''
     then (case dec_hash x v of Inl e \<Rightarrow> Inl e | Inr h \<Rightarrow> Inr (a\<lparr>anchorHash := h\<rparr>))
     else Inr a)"

definition zeroAnchor :: ForkScanAnchor where
  "zeroAnchor = \<lparr> anchorHeight = 0, anchorHash = 0 \<rparr>"

definition dec_anchor :: "ext \<Rightarrow> json \<Rightarrow> ForkScanAnchor \<Rightarrow> ForkScanAnchor res" where
  "dec_anchor x j a = (case j of
     JNull \<Rightarrow> Inr a | JObj ms \<Rightarrow> fold_res (anchor_field x) ms a | _ \<Rightarrow> Inl jsonErr)"

definition dec_anchor_ptr ::
  "ext \<Rightarrow> json \<Rightarrow> ForkScanAnchor option \<Rightarrow> ForkScanAnchor option res" where
  "dec_anchor_ptr x j a = (case j of
     JNull \<Rightarrow> Inr None
   | _ \<Rightarrow> (case dec_anchor x j (case a of None \<Rightarrow> zeroAnchor | Some b \<Rightarrow> b) of
             Inl e \<Rightarrow> Inl e | Inr b \<Rightarrow> Inr (Some b)))"

definition position_field :: "string \<times> json \<Rightarrow> ForkScanPosition \<Rightarrow> ForkScanPosition res" where
  "position_field m p = (case m of (k, v) \<Rightarrow>
     if EqualFold k ''topic''
     then (case dec_string v (Topic p) of Inl e \<Rightarrow> Inl e | Inr s \<Rightarrow> Inr (p\<lparr>Topic := s\<rparr>))
     else if EqualFold k ''partition''
     then (case dec_int v (Partition p) of Inl e \<Rightarrow> Inl e | Inr i \<Rightarrow> Inr (p\<lparr>Partition := i\<rparr>))
     else if EqualFold k ''offset''
     then (case dec_int v (Offset p) of Inl e \<Rightarrow> Inl e | Inr i \<Rightarrow> Inr (p\<lparr>Offset := i\<rparr>))
     else Inr p)"

definition zeroPosition :: ForkScanPosition where
  "zeroPosition = \<lparr> Topic = [], Partition = 0, Offset = 0 \<rparr>"

definition dec_position_ptr ::
  "json \<Rightarrow> ForkScanPosition option \<Rightarrow> ForkScanPosition option res" where
  "dec_position_ptr j p = (case j of
     JNull \<Rightarrow> Inr None
   | JObj ms \<Rightarrow> (case fold_res position_field ms (case p of None \<Rightarrow> zeroPosition | Some q \<Rightarrow> q) of
                  Inl e \<Rightarrow> Inl e | Inr q \<Rightarrow> Inr (Some q))
   | _ \<Rightarrow> Inl jsonErr)"

definition state_field :: "ext \<Rightarrow> string \<times> json \<Rightarrow> ForkScanState \<Rightarrow> ForkScanState res" where
  "state_field x m s = (case m of (k, v) \<Rightarrow>
     if EqualFold k ''format''
     then (case dec_int v (Format s) of Inl e \<Rightarrow> Inl e | Inr i \<Rightarrow> Inr (s\<lparr>Format := i\<rparr>))
     else if EqualFold k ''baseline''
     then (case dec_anchor x v (Baseline s) of Inl e \<Rightarrow> Inl e | Inr a \<Rightarrow> Inr (s\<lparr>Baseline := a\<rparr>))
     else if EqualFold k ''next_scan_height''
     then (case dec_u64 v (NextHeight s) of Inl e \<Rightarrow> Inl e | Inr w \<Rightarrow> Inr (s\<lparr>NextHeight := w\<rparr>))
     else if EqualFold k ''generation''
     then (case dec_u64 v (Generation s) of Inl e \<Rightarrow> Inl e | Inr w \<Rightarrow> Inr (s\<lparr>Generation := w\<rparr>))
     else if EqualFold k ''published''
     then (case dec_anchor x v (Published s) of Inl e \<Rightarrow> Inl e | Inr a \<Rightarrow> Inr (s\<lparr>Published := a\<rparr>))
     else if EqualFold k ''inner_position''
     then (case dec_position_ptr v (Position s) of Inl e \<Rightarrow> Inl e | Inr p \<Rightarrow> Inr (s\<lparr>Position := p\<rparr>))
     else if EqualFold k ''pending''
     then (case dec_anchor_ptr x v (Pending s) of Inl e \<Rightarrow> Inl e | Inr a \<Rightarrow> Inr (s\<lparr>Pending := a\<rparr>))
     else Inr s)"

definition zeroState :: ForkScanState where
  "zeroState = \<lparr> Format = 0, Baseline = zeroAnchor, NextHeight = 0, Generation = 0,
     Published = zeroAnchor, Position = None, Pending = None \<rparr>"

text \<open>\<^verbatim>\<open>fields[key]\<close> of the raw map: the last member with exactly that name.\<close>

definition raw_field :: "(string \<times> json) list \<Rightarrow> string \<Rightarrow> json option" where
  "raw_field ms k = map_of (rev ms) k"

definition requiredFields :: "string list" where
  "requiredFields = [''format'', ''baseline'', ''next_scan_height'', ''generation'', ''published'', ''pending'']"

definition field_missing :: "(string \<times> json) list \<Rightarrow> string \<Rightarrow> bool" where
  "field_missing ms k = (case raw_field ms k of None \<Rightarrow> True | Some v \<Rightarrow> k \<noteq> ''pending'' \<and> v = JNull)"

definition unmarshalState :: "ext \<Rightarrow> bytes \<Rightarrow> ForkScanState res" where
  "unmarshalState x data =
     (case json_parse (bytes_str data) of
        Some (JObj ms) \<Rightarrow>
          (case find (field_missing ms) requiredFields of
             Some k \<Rightarrow> Inl (Msg (''fork scan state missing '' @ k))
           | None \<Rightarrow> (case fold_res (state_field x) ms zeroState of
                       Inl e \<Rightarrow> Inl (Wrap ''decode fork scan state'' e)
                     | Inr s \<Rightarrow> (case validate s of Inl e \<Rightarrow> Inl e | Inr _ \<Rightarrow> Inr s)))
      | Some JNull \<Rightarrow> Inl (Msg ''fork scan state missing format'')
      | _ \<Rightarrow> Inl (Wrap ''decode fork scan state'' jsonErr))"

section \<open>Load and save\<close>

definition LoadForkScan :: "ext \<Rightarrow> pebble \<Rightarrow> int \<Rightarrow> string \<Rightarrow> ForkScanState option res" where
  "LoadForkScan x p chainID version =
     (case Get p (forkScanKey chainID version) of
        Inl e \<Rightarrow> if errors_Is e NotFound then Inr None else Inl e
      | Inr data \<Rightarrow> (case unmarshalState x data of Inl e \<Rightarrow> Inl e | Inr s \<Rightarrow> Inr (Some s)))"

text \<open>The operation \<^verbatim>\<open>setForkScan\<close> adds to a batch, or the validation error it returns.\<close>

definition setForkScan :: "ext \<Rightarrow> int \<Rightarrow> string \<Rightarrow> ForkScanState \<Rightarrow> batch_op res" where
  "setForkScan x chainID version s =
     (case validate s of
        Inl e \<Rightarrow> Inl e
      | Inr _ \<Rightarrow> Inr (BSet (forkScanKey chainID version) (str_bytes (json_print (state_json x s)))))"

definition SaveForkScan ::
  "ext \<Rightarrow> pebble \<Rightarrow> int \<Rightarrow> string \<Rightarrow> ForkScanState \<Rightarrow> unit res \<times> pebble" where
  "SaveForkScan x p chainID version s =
     (case setForkScan x chainID version s of
        Inl e \<Rightarrow> (Inl e, p)
      | Inr b \<Rightarrow> Commit p [b])"

section \<open>Decoding what was encoded\<close>

lemma parse_uint64_fmt [simp]: "parse_uint64 (fmt_d (uint w)) = Some w"
proof -
  have "fmt_d (uint w) = decimal (unat w)" by (simp add: fmt_d_def)
  moreover have "list_all is_digit (decimal (unat w))"
    by (auto simp: list_all_iff decimal_is_digit)
  moreover have "unat w < 2 ^ 64" using unsigned_less [of w] by simp
  ultimately show ?thesis by (simp add: parse_uint64_def)
qed

lemma parse_int64_fmt: "- (2 ^ 63) \<le> i \<Longrightarrow> i < 2 ^ 63 \<Longrightarrow> parse_int64 (fmt_d i) = Some i"
proof -
  assume r: "- (2 ^ 63) \<le> i" "i < 2 ^ 63"
  have d: "list_all is_digit (decimal n)" for n
    by (auto simp: list_all_iff decimal_is_digit)
  obtain c cs where f: "fmt_d i = c # cs" "c = CHR ''-'' \<or> is_digit c" by (rule fmt_d_first)
  have "(if c = CHR ''-'' then cs else c # cs) = decimal (nat \<bar>i\<bar>)"
    using f(1) by (auto simp: fmt_d_def split: if_splits)
  then show ?thesis
    using r d [of "nat \<bar>i\<bar>"] lit_int_fmt_d [of i]
    by (auto simp: parse_int64_def f(1) split: if_splits)
qed

lemma lower_names:
  "map ascii_lower ''height'' = ''height''" "map ascii_lower ''hash'' = ''hash''"
  "map ascii_lower ''topic'' = ''topic''" "map ascii_lower ''partition'' = ''partition''"
  "map ascii_lower ''offset'' = ''offset''" "map ascii_lower ''format'' = ''format''"
  "map ascii_lower ''baseline'' = ''baseline''"
  "map ascii_lower ''next_scan_height'' = ''next_scan_height''"
  "map ascii_lower ''generation'' = ''generation''" "map ascii_lower ''published'' = ''published''"
  "map ascii_lower ''inner_position'' = ''inner_position''" "map ascii_lower ''pending'' = ''pending''"
  by code_simp+

lemmas fold_names = EqualFold_def lower_names

text \<open>The values a 64-bit process can hold in the signed fields.\<close>

definition in_int64 :: "int \<Rightarrow> bool" where
  "in_int64 i = (- (2 ^ 63) \<le> i \<and> i < 2 ^ 63)"

definition storable :: "ForkScanState \<Rightarrow> bool" where
  "storable s = (in_int64 (Format s) \<and>
     (case Position s of None \<Rightarrow> True
      | Some p \<Rightarrow> ascii (Topic p) \<and> in_int64 (Partition p) \<and> in_int64 (Offset p)))"

lemma dec_int_fmt: "in_int64 i \<Longrightarrow> dec_int (JNum (fmt_d i)) old = Inr i"
  by (simp add: dec_int_def parse_int64_fmt in_int64_def)

lemma dec_u64_json [simp]: "dec_u64 (u64_json w) old = Inr w"
  by (simp add: dec_u64_def u64_json_def)

lemma dec_position_json:
  assumes "in_int64 (Partition p)" "in_int64 (Offset p)"
  shows "dec_position_ptr (position_json p) q = Inr (Some p)"
proof -
  define q' where "q' = (case q of None \<Rightarrow> zeroPosition | Some r \<Rightarrow> r)"
  have "fold_res position_field
     [(''topic'', JStr (Topic p)), (''partition'', JNum (fmt_d (Partition p))),
      (''offset'', JNum (fmt_d (Offset p)))] q' = Inr p"
    using assms by (simp add: position_field_def fold_names dec_int_fmt dec_string_def)
  then show ?thesis
    by (simp add: dec_position_ptr_def position_json_def flip: q'_def)
qed

context ext_codecs
begin

lemma dec_anchor_json [simp]: "dec_anchor x (anchor_json x a) b = Inr a"
  by (simp add: dec_anchor_def anchor_json_def anchor_field_def fold_names dec_hash_def hash_unmarshal)

lemma dec_anchor_ptr_json [simp]: "dec_anchor_ptr x (anchor_json x a) b = Inr (Some a)"
  using dec_anchor_json [of a "case b of None \<Rightarrow> zeroAnchor | Some b \<Rightarrow> b"]
  by (simp add: dec_anchor_ptr_def anchor_json_def)

lemma dec_anchor_ptr_null [simp]: "dec_anchor_ptr x JNull b = Inr None"
  by (simp add: dec_anchor_ptr_def)

lemma anchor_json_ok: "json_ok (anchor_json x a)"
  by (simp add: anchor_json_def u64_json_def hash_ascii) (simp add: ascii_def)

lemma state_json_ok: "storable s \<Longrightarrow> json_ok (state_json x s)"
  by (cases "Position s"; cases "Pending s")
    (simp_all add: state_json_def storable_def anchor_json_ok u64_json_def position_json_def,
     simp_all add: ascii_def)

lemma state_members:
  assumes "storable s"
  obtains ms where "state_json x s = JObj ms" and "find (field_missing ms) requiredFields = None"
    and "fold_res (state_field x) ms zeroState = Inr s"
proof -
  obtain ms where ms: "state_json x s = JObj ms" by (simp add: state_json_def)
  have i: "in_int64 (Format s)" using assms by (simp add: storable_def)
  have "find (field_missing ms) requiredFields = None"
    using ms by (cases "Position s"; cases "Pending s")
      (auto simp: state_json_def requiredFields_def field_missing_def raw_field_def anchor_json_def
        u64_json_def)
  moreover have "fold_res (state_field x) ms zeroState = Inr s"
    using ms i assms
    by (cases "Position s"; cases "Pending s")
      (auto simp: state_json_def state_field_def fold_names dec_int_fmt zeroState_def storable_def
        dec_position_json)
  ultimately show ?thesis using that ms by blast
qed

text \<open>Unmarshalling a marshalled, valid cursor gives it back.\<close>

lemma unmarshal_marshal:
  assumes "storable s" and "validate s = Inr ()"
  shows "unmarshalState x (str_bytes (json_print (state_json x s))) = Inr s"
proof -
  obtain ms where "state_json x s = JObj ms" "find (field_missing ms) requiredFields = None"
    "fold_res (state_field x) ms zeroState = Inr s"
    using assms(1) by (rule state_members)
  then show ?thesis
    using assms json_parse_print [OF state_json_ok [OF assms(1)]]
    by (simp add: unmarshalState_def)
qed

end

section \<open>Load and save\<close>

lemma forkScanKey_inject: "forkScanKey c v = forkScanKey d w \<longleftrightarrow> c = d \<and> v = w"
  by (simp add: forkScanKey_def sep_inject)

lemma SaveForkScan_ok:
  assumes "SaveForkScan x p c v s = (Inr (), p')"
  shows "validate s = Inr ()"
    and "p' = p\<lparr>kv := (kv p)(forkScanKey c v \<mapsto> str_bytes (json_print (state_json x s))),
                epoch := Suc (epoch p)\<rparr>"
  using assms
  by (auto simp: SaveForkScan_def setForkScan_def Commit_def split: sum.splits if_splits)

lemma SaveForkScan_failed: "SaveForkScan x p c v s = (Inl e, p') \<Longrightarrow> kv p' = kv p"
  by (auto simp: SaveForkScan_def setForkScan_def Commit_def split: sum.splits if_splits)

lemma LoadForkScan_None: "LoadForkScan x p c v = Inr None \<Longrightarrow> kv p (forkScanKey c v) = None"
  by (auto simp: LoadForkScan_def Get_def split: sum.splits if_splits option.splits)

lemma unmarshalState_valid: "unmarshalState x data = Inr s \<Longrightarrow> validate s = Inr ()"
  by (auto simp: unmarshalState_def split: option.splits json.splits sum.splits)

lemma LoadForkScan_valid: "LoadForkScan x p c v = Inr (Some s) \<Longrightarrow> validate s = Inr ()"
  by (auto simp: LoadForkScan_def unmarshalState_valid split: sum.splits if_splits)

text \<open>The stored bytes of a scope, as a cursor.\<close>

definition stored :: "ext \<Rightarrow> int \<Rightarrow> string \<Rightarrow> pebble \<Rightarrow> ForkScanState \<Rightarrow> bool" where
  "stored x c v p s =
     (kv p (forkScanKey c v) = Some (str_bytes (json_print (state_json x s))) \<and> validate s = Inr ())"

text \<open>
  The contract the checker relies on: a successful save makes exactly that cursor durable, a failed
  one changes nothing, a load returns the durable cursor, and an empty result means there is none.
\<close>

locale durable_cursor =
  fixes load :: "'s \<Rightarrow> 'a option res"
    and save :: "'s \<Rightarrow> 'a \<Rightarrow> unit res \<times> 's"
    and durable :: "'s \<Rightarrow> 'a \<Rightarrow> bool"
    and readable :: "'s \<Rightarrow> bool"
    and fits :: "'a \<Rightarrow> bool"
  assumes save_ok: "save s a = (Inr (), s') \<Longrightarrow> durable s' a"
    and save_failed: "save s a = (Inl e, s') \<Longrightarrow> durable s' b \<longleftrightarrow> durable s b"
    and load_durable: "durable s a \<Longrightarrow> fits a \<Longrightarrow> readable s \<Longrightarrow> load s = Inr (Some a)"
    and load_fresh: "load s = Inr None \<Longrightarrow> \<not> durable s b"
begin

text \<open>Restarting after a successful save resumes at the saved cursor.\<close>

lemma restart:
  assumes "save s a = (Inr (), s')" and "fits a" and "readable s'"
  shows "load s' = Inr (Some a)"
  using save_ok [OF assms(1)] assms(2,3) by (rule load_durable)

text \<open>After a failed save the previous cursor is still the one a restart finds.\<close>

lemma restart_failed:
  assumes "durable s a" and "save s b = (Inl e, s')" and "fits a" and "readable s'"
  shows "load s' = Inr (Some a)"
  using save_failed [OF assms(2)] assms(1,3,4) load_durable by blast

lemma never_fresh:
  assumes "durable s a"
  shows "load s \<noteq> Inr None" and "load (snd (save s b)) \<noteq> Inr None"
proof -
  from assms show "load s \<noteq> Inr None" using load_fresh by blast
  show "load (snd (save s b)) \<noteq> Inr None"
  proof (cases "save s b")
    case (Pair r t)
    then show ?thesis
      using assms load_fresh save_ok [of s b t] save_failed [of s b _ t] by (cases r) auto
  qed
qed

end

context ext_codecs
begin

lemma cursor_contract:
  "durable_cursor (\<lambda>p. LoadForkScan x p c v) (\<lambda>p. SaveForkScan x p c v) (stored x c v)
     (\<lambda>p. \<not> readErr p (epoch p) (forkScanKey c v)) storable"
proof
  show "SaveForkScan x p c v s = (Inr (), p') \<Longrightarrow> stored x c v p' s" for p s p'
    by (frule SaveForkScan_ok(1), drule SaveForkScan_ok(2)) (simp add: stored_def)
  show "SaveForkScan x p c v s = (Inl e, p') \<Longrightarrow> stored x c v p' t \<longleftrightarrow> stored x c v p t" for p s e p' t
    by (drule SaveForkScan_failed) (simp add: stored_def)
  show "stored x c v p s \<Longrightarrow> storable s \<Longrightarrow> \<not> readErr p (epoch p) (forkScanKey c v) \<Longrightarrow>
      LoadForkScan x p c v = Inr (Some s)" for p s
    by (simp add: stored_def LoadForkScan_def Get_def unmarshal_marshal)
  show "LoadForkScan x p c v = Inr None \<Longrightarrow> \<not> stored x c v p s" for p s
    by (drule LoadForkScan_None) (simp add: stored_def)
qed

end

interpretation hex_cursor: durable_cursor "\<lambda>p. LoadForkScan hexExt p c v" "\<lambda>p. SaveForkScan hexExt p c v"
  "stored hexExt c v" "\<lambda>p. \<not> readErr p (epoch p) (forkScanKey c v)" storable
  for c v
  by (rule hexc.cursor_contract)

end
