(* ===== verification/Notices.thy ===== *)
theory Notices
  imports Prelude
begin

text \<open>
  The message types of the pipeline that the checker consumes and produces, with the fields its
  source reads. They are declared in the third-party module \<^verbatim>\<open>github.com/Chaintable/pipeline/types\<close>;
  a validation object has further fields the checker copies without reading, kept in \<open>bvRest\<close>.
\<close>

record BlockContext =
  BlockNumber :: u64
  Hash :: hash
  ParentHash :: hash
  Timestamp :: int

record BlockChangeNotification =
  NewBlocks :: "BlockContext list"
  DropBlocks :: "BlockContext list"

record OuterBlockChangeNotification =
  outBlockNumber :: u64
  outHash :: hash
  outChainID :: int
  outTimestamp :: int
  outIsFork :: bool

record BlockValidation =
  bvValidationHash :: int
  bvIsFork :: bool
  bvRest :: string

text \<open>Heights in a list of blocks grow strictly, as in every chain segment.\<close>

definition ascending :: "BlockContext list \<Rightarrow> bool" where
  "ascending bs = sorted_wrt (<) (map BlockNumber bs)"

lemma ascending_hd_le: "ascending bs \<Longrightarrow> b \<in> set bs \<Longrightarrow> BlockNumber (hd bs) \<le> BlockNumber b"
  by (cases bs) (auto simp: ascending_def)

lemma ascending_le_last: "ascending bs \<Longrightarrow> b \<in> set bs \<Longrightarrow> BlockNumber b \<le> BlockNumber (last bs)"
proof (induction bs)
  case (Cons a bs)
  then show ?case
    by (cases "bs = []") (auto simp: ascending_def dest: last_in_set intro: less_imp_le)
qed simp

lemma ascending_unique:
  "ascending bs \<Longrightarrow> a \<in> set bs \<Longrightarrow> b \<in> set bs \<Longrightarrow> BlockNumber a = BlockNumber b \<Longrightarrow> a = b"
  by (induction bs) (auto simp: ascending_def)

text \<open>A chain segment has consecutive heights.\<close>

fun contiguous :: "BlockContext list \<Rightarrow> bool" where
  "contiguous [] = True"
| "contiguous [b] = True"
| "contiguous (a # b # bs) =
     (BlockNumber a \<noteq> MaxUint64 \<and> BlockNumber b = BlockNumber a + 1 \<and> contiguous (b # bs))"

lemma contiguous_ascending: "contiguous bs \<Longrightarrow> ascending bs"
proof (induction bs rule: contiguous.induct)
  case (3 a b bs)
  then have asc: "ascending (b # bs)" and lt: "BlockNumber a < BlockNumber b"
    by (auto simp: u64_less_Suc)
  have "BlockNumber a < BlockNumber c" if "c \<in> set (b # bs)" for c
    using ascending_hd_le [OF asc that] lt by simp
  then show ?case using asc by (simp add: ascending_def)
qed (simp_all add: ascending_def)

lemma contiguous_covers:
  assumes "contiguous bs" and "bs \<noteq> []" and "BlockNumber (hd bs) \<le> k" and "k \<le> BlockNumber (last bs)"
  shows "k \<in> BlockNumber ` set bs"
  using assms
proof (induction bs rule: contiguous.induct)
  case (3 a b bs)
  show ?case
  proof (cases "k = BlockNumber a")
    case False
    with 3 have "BlockNumber b \<le> k" by (simp add: u64_Suc_le_iff)
    with 3 show ?thesis by auto
  qed simp
qed auto

end
