(* ===== verification/ConsistencyDB.thy ===== *)
theory ConsistencyDB
  imports ForkState Notices
begin

text \<open>
  \<^verbatim>\<open>db/consistency.go\<close>: the dual index over the store (\<^verbatim>\<open>h\<close> + hash to block info, \<^verbatim>\<open>n\<close> + number to
  hash), its queries, and the batch that installs new canonical blocks, removes stale mappings above
  the new tip and rewinds the scan cursor. The lemmas show that the three key spaces are disjoint,
  give the exact index after a write, its atomicity on every error path, and that the cursor is
  rewound to or below every height whose canonical mapping changes.
\<close>

section \<open>Keys and records\<close>

definition HashPrefix :: bytes where
  "HashPrefix = [0x68]"

definition NumPrefix :: bytes where
  "NumPrefix = [0x6E]"

definition HashKey :: "hash \<Rightarrow> bytes" where
  "HashKey h = HashPrefix @ hash_bytes h"

definition NumKey :: "int \<Rightarrow> bytes" where
  "NumKey n = NumPrefix @ big_Bytes n"

text \<open>\<^verbatim>\<open>BlockInfoRlp\<close> is the pair (number, validation hash) of big integers that RLP encodes.\<close>

record BlockInfo =
  ID :: hash
  Height :: u64
  ValidationHash :: int
  IsFork :: bool

record ConsistencyDB =
  db :: pebble
  latest :: "BlockInfo option"

section \<open>Queries\<close>

definition GetLatestBlockInfo :: "ConsistencyDB \<Rightarrow> BlockInfo option" where
  "GetLatestBlockInfo cdb = latest cdb"

definition getBlockHashByNum :: "pebble \<Rightarrow> int \<Rightarrow> hash res" where
  "getBlockHashByNum p num =
     (case Get p (NumKey num) of
        Inl e \<Rightarrow> Inl e
      | Inr data \<Rightarrow> if length data \<noteq> 32 then Inl (Msg ''invalid canonical hash'')
                    else Inr (BytesToHash data))"

definition GetCanonicalHashByNum :: "pebble \<Rightarrow> u64 \<Rightarrow> hash option res" where
  "GetCanonicalHashByNum p num =
     (case getBlockHashByNum p (uint num) of
        Inl e \<Rightarrow> if errors_Is e NotFound then Inr None else Inl e
      | Inr h \<Rightarrow> Inr (Some h))"

text \<open>\<^verbatim>\<open>big.Int.Uint64\<close> and \<^verbatim>\<open>big.Int.Int64\<close> keep the low 64 bits.\<close>

definition big_Uint64 :: "int \<Rightarrow> u64" where
  "big_Uint64 i = word_of_int i"

definition big_Int64 :: "int \<Rightarrow> int" where
  "big_Int64 i = sint (word_of_int i :: 64 word)"

definition GetBlockInfoByHash :: "ext \<Rightarrow> pebble \<Rightarrow> hash \<Rightarrow> BlockInfo res" where
  "GetBlockInfoByHash x p h =
     (case Get p (HashKey h) of
        Inl e \<Rightarrow> Inl e
      | Inr data \<Rightarrow>
          (case rlpDecode x data of
             None \<Rightarrow> Inl (Msg ''rlp'')
           | Some (num, vh) \<Rightarrow>
               (case getBlockHashByNum p num of
                  Inl e \<Rightarrow>
                    if errors_Is e NotFound
                    then Inr \<lparr> ID = h, Height = big_Uint64 num, ValidationHash = big_Int64 vh, IsFork = True \<rparr>
                    else Inl e
                | Inr canonicalHash \<Rightarrow>
                    Inr \<lparr> ID = h, Height = big_Uint64 num, ValidationHash = big_Int64 vh,
                          IsFork = (canonicalHash \<noteq> h) \<rparr>)))"

definition GetBlockInfoByNum :: "ext \<Rightarrow> pebble \<Rightarrow> int \<Rightarrow> BlockInfo res" where
  "GetBlockInfoByNum x p num =
     (case getBlockHashByNum p num of Inl e \<Rightarrow> Inl e | Inr h \<Rightarrow> GetBlockInfoByHash x p h)"

text \<open>
  \<^verbatim>\<open>rpc.BlockNumberOrHash\<close> is a pair of optional number and optional hash; the result is \<open>None\<close> where
  the code returns a nil pointer (no latest block yet).
\<close>

definition GetBlockInfoByNumOrHash ::
  "ext \<Rightarrow> ConsistencyDB \<Rightarrow> int option \<times> hash option \<Rightarrow> BlockInfo option res" where
  "GetBlockInfoByNumOrHash x cdb bid =
     (case bid of
        (Some number, _) \<Rightarrow>
          if number = -2 \<or> number = -1 then Inr (GetLatestBlockInfo cdb)
          else (case GetBlockInfoByNum x (db cdb) number of Inl e \<Rightarrow> Inl e | Inr b \<Rightarrow> Inr (Some b))
      | (None, Some h) \<Rightarrow>
          (case GetBlockInfoByHash x (db cdb) h of Inl e \<Rightarrow> Inl e | Inr b \<Rightarrow> Inr (Some b))
      | (None, None) \<Rightarrow> Inl (Msg ''GetBlockInfoByNumOrHash params error''))"

section \<open>Writing canonical blocks\<close>

text \<open>The local variables of the write: \<^verbatim>\<open>next\<close>, \<^verbatim>\<open>changed\<close> and the batch.\<close>

record wacc =
  wNext :: "ForkScanState option"
  wChanged :: bool
  wOps :: "batch_op list"

definition affected :: "u64 \<Rightarrow> wacc \<Rightarrow> wacc" where
  "affected h a = a\<lparr> wChanged := True,
     wNext := map_option (\<lambda>s. if h < NextHeight s then s\<lparr>NextHeight := h\<rparr> else s) (wNext a) \<rparr>"

definition writeBlock :: "ext \<Rightarrow> pebble \<Rightarrow> BlockContext \<times> int \<Rightarrow> wacc \<Rightarrow> wacc res" where
  "writeBlock x p bv a = (case bv of (block, vh) \<Rightarrow>
     (case GetCanonicalHashByNum p (BlockNumber block) of
        Inl e \<Rightarrow> Inl e
      | Inr old \<Rightarrow>
          (let a1 = (case old of
                       Some h \<Rightarrow> if h \<noteq> Hash block then affected (BlockNumber block) a else a
                     | None \<Rightarrow> a) in
           case rlpEncode x (uint (BlockNumber block), vh) of
             None \<Rightarrow> Inl (Msg ''rlp'')
           | Some data \<Rightarrow>
               Inr (a1\<lparr> wOps := wOps a1 @
                 [BSet (HashKey (Hash block)) data,
                  BSet (NumKey (uint (BlockNumber block))) (hash_bytes (Hash block))] \<rparr>))))"

text \<open>The loop that deletes the mappings above the new tip up to the first missing height.\<close>

function cleanAbove :: "pebble \<Rightarrow> u64 \<Rightarrow> wacc \<Rightarrow> wacc res" where
  "cleanAbove p h a =
     (if h < MaxUint64 then
        (case Get p (NumKey (uint (h + 1))) of
           Inl e \<Rightarrow> if errors_Is e NotFound then Inr a else Inl e
         | Inr _ \<Rightarrow> cleanAbove p (h + 1)
             ((affected (h + 1) a)\<lparr> wOps := wOps a @ [BDelete (NumKey (uint (h + 1)))] \<rparr>))
      else Inr a)"
  by pat_completeness auto
termination
  by (relation "measure (\<lambda>(p, h, a). unat MaxUint64 - unat h)")
    (auto simp: u64_Suc u64_less_not_Max word_less_nat_alt)

declare cleanAbove.simps [simp del]

definition finishCursor :: "ext \<Rightarrow> int \<Rightarrow> string \<Rightarrow> wacc \<Rightarrow> (ForkScanState option \<times> batch_op list) res" where
  "finishCursor x chainID version a =
     (case wNext a of
        None \<Rightarrow> Inr (None, wOps a)
      | Some s \<Rightarrow>
          if wChanged a \<and> Generation s = MaxUint64 then Inl (Msg ''fork scan generation overflow'')
          else (let s' = (if wChanged a then s\<lparr>Generation := Generation s + 1\<rparr> else s) in
                case setForkScan x chainID version s' of
                  Inl e \<Rightarrow> Inl e
                | Inr b \<Rightarrow> Inr (Some s', wOps a @ [b])))"

definition tailAnchor :: "BlockContext list \<Rightarrow> ForkScanAnchor" where
  "tailAnchor bs = \<lparr> anchorHeight = BlockNumber (last bs), anchorHash = Hash (last bs) \<rparr>"

definition startWrite :: "BlockContext list \<Rightarrow> ForkScanState option \<Rightarrow> wacc" where
  "startWrite newBlocks state =
     (let a = \<lparr> wNext = map_option (\<lambda>s. s\<lparr>Pending := Some (tailAnchor newBlocks)\<rparr>) state,
                wChanged = False, wOps = [] \<rparr> in
      case state of
        Some s \<Rightarrow> if BlockNumber (hd newBlocks) \<le> anchorHeight (Published s)
                  then affected (BlockNumber (hd newBlocks)) a else a
      | None \<Rightarrow> a)"

definition buildWrite ::
  "ext \<Rightarrow> pebble \<Rightarrow> BlockContext list \<Rightarrow> int list \<Rightarrow> int \<Rightarrow> string \<Rightarrow> ForkScanState option \<Rightarrow>
   (ForkScanState option \<times> batch_op list) res" where
  "buildWrite x p newBlocks validationHashes chainID version state =
     (if newBlocks = [] \<or> length newBlocks \<noteq> length validationHashes
      then Inl (Msg ''invalid block/validation counts'')
      else
        (case fold_res (writeBlock x p) (zip newBlocks validationHashes) (startWrite newBlocks state) of
           Inl e \<Rightarrow> Inl e
         | Inr a \<Rightarrow>
             (case cleanAbove p (BlockNumber (last newBlocks)) a of
                Inl e \<Rightarrow> Inl e
              | Inr a' \<Rightarrow> finishCursor x chainID version a')))"

definition WriteBlockInfosWithForkScan ::
  "ext \<Rightarrow> ConsistencyDB \<Rightarrow> BlockContext list \<Rightarrow> int list \<Rightarrow> int \<Rightarrow> string \<Rightarrow> ForkScanState option \<Rightarrow>
   ForkScanState option res \<times> ConsistencyDB" where
  "WriteBlockInfosWithForkScan x cdb newBlocks validationHashes chainID version state =
     (case buildWrite x (db cdb) newBlocks validationHashes chainID version state of
        Inl e \<Rightarrow> (Inl e, cdb)
      | Inr (next, ops) \<Rightarrow>
          (case Commit (db cdb) ops of
             (Inl e, p) \<Rightarrow> (Inl e, cdb\<lparr>db := p\<rparr>)
           | (Inr _, p) \<Rightarrow>
               (Inr next, cdb\<lparr>db := p,
                  latest := Some \<lparr> ID = Hash (last newBlocks), Height = BlockNumber (last newBlocks),
                                   ValidationHash = last validationHashes, IsFork = False \<rparr>\<rparr>)))"

definition WriteBlockInfos ::
  "ext \<Rightarrow> ConsistencyDB \<Rightarrow> BlockContext list \<Rightarrow> int list \<Rightarrow> unit res \<times> ConsistencyDB" where
  "WriteBlockInfos x cdb newBlocks validationHashes =
     (case WriteBlockInfosWithForkScan x cdb newBlocks validationHashes 0 [] None of
        (Inl e, c) \<Rightarrow> (Inl e, c)
      | (Inr _, c) \<Rightarrow> (Inr (), c))"

section \<open>Key spaces\<close>

lemma HashKey_inject [simp]: "HashKey a = HashKey b \<longleftrightarrow> a = b"
  by (simp add: HashKey_def)

lemma NumKey_inject: "NumKey a = NumKey b \<longleftrightarrow> \<bar>a\<bar> = \<bar>b\<bar>"
  by (auto simp: NumKey_def big_Bytes_def nat_eq_iff)

lemma NumKey_uint_inject [simp]: "NumKey (uint a) = NumKey (uint b) \<longleftrightarrow> a = b"
  by (simp add: NumKey_inject word_uint_eq_iff)

lemma forkScanKey_first: "\<exists>r. forkScanKey c v = 0x6D # r"
  by (simp add: forkScanKey_def str_bytes_def)

lemma keys_disjoint [simp]:
  "HashKey h \<noteq> NumKey n" "NumKey n \<noteq> HashKey h"
  "HashKey h \<noteq> forkScanKey c v" "forkScanKey c v \<noteq> HashKey h"
  "NumKey n \<noteq> forkScanKey c v" "forkScanKey c v \<noteq> NumKey n"
  using forkScanKey_first [of c v]
  by (auto simp: HashKey_def NumKey_def HashPrefix_def NumPrefix_def)

section \<open>The canonical index as a partial map\<close>

text \<open>
  The abstract state of the index is the map from heights to canonical hashes; a stored value of
  the wrong length has no meaning in it.
\<close>

definition canon :: "pebble \<Rightarrow> u64 \<rightharpoonup> hash" where
  "canon p h = (case kv p (NumKey (uint h)) of
     None \<Rightarrow> None | Some d \<Rightarrow> if length d = 32 then Some (BytesToHash d) else None)"

definition index_ok :: "pebble \<Rightarrow> bool" where
  "index_ok p = (\<forall>(h::u64) d. kv p (NumKey (uint h)) = Some d \<longrightarrow> length d = 32)"

text \<open>The heights above \<open>tip\<close> that are mapped without a gap.\<close>

definition run_above :: "(u64 \<rightharpoonup> 'a) \<Rightarrow> u64 \<Rightarrow> u64 \<Rightarrow> bool" where
  "run_above c tip h = (tip < h \<and> (\<forall>k. tip < k \<and> k \<le> h \<longrightarrow> c k \<noteq> None))"

text \<open>
  The abstract operation: the new blocks become canonical at their heights, the run of mappings
  right above the last of them is removed, everything else stays.
\<close>

definition install :: "BlockContext list \<Rightarrow> (u64 \<rightharpoonup> hash) \<Rightarrow> u64 \<rightharpoonup> hash" where
  "install bs c h =
     (case find (\<lambda>b. BlockNumber b = h) bs of
        Some b \<Rightarrow> Some (Hash b)
      | None \<Rightarrow> if run_above c (BlockNumber (last bs)) h then None else c h)"

lemma canon_eq_None: "index_ok p \<Longrightarrow> canon p h = None \<longleftrightarrow> kv p (NumKey (uint h)) = None"
  by (auto simp: canon_def index_ok_def split: option.splits)

lemma getBlockHashByNum_canon:
  "getBlockHashByNum p (uint n) = Inr h \<Longrightarrow> canon p n = Some h"
  by (auto simp: getBlockHashByNum_def canon_def Get_def split: sum.splits if_splits option.splits)

lemma GetCanonicalHashByNum_canon:
  "GetCanonicalHashByNum p n = Inr r \<Longrightarrow> canon p n = r"
  by (auto simp: GetCanonicalHashByNum_def getBlockHashByNum_def canon_def Get_def
      split: sum.splits if_splits option.splits)

lemma GetCanonicalHashByNum_kv:
  "GetCanonicalHashByNum p n = Inr None \<Longrightarrow> kv p (NumKey (uint n)) = None"
  by (auto simp: GetCanonicalHashByNum_def getBlockHashByNum_def Get_def
      split: sum.splits if_splits option.splits)

lemma GetCanonicalHashByNum_eq:
  "\<not> readErr p (epoch p) (NumKey (uint n)) \<Longrightarrow> index_ok p \<Longrightarrow> GetCanonicalHashByNum p n = Inr (canon p n)"
  by (auto simp: GetCanonicalHashByNum_def getBlockHashByNum_def canon_def Get_def index_ok_def
      split: option.splits)

section \<open>The batch of a write\<close>

lemma affected_ops [simp]: "wOps (affected h a) = wOps a"
  by (simp add: affected_def)

lemma writeBlock_ops:
  assumes "writeBlock x p (b, v) a = Inr a'"
  obtains d where "wOps a' = wOps a @ [BSet (HashKey (Hash b)) d,
      BSet (NumKey (uint (BlockNumber b))) (hash_bytes (Hash b))]"
    and "rlpEncode x (uint (BlockNumber b), v) = Some d"
  using assms by (auto simp: writeBlock_def Let_def split: sum.splits option.splits if_splits)

lemma writeBlocks_other:
  assumes "fold_res (writeBlock x p) bvs a = Inr a'"
    and "h \<notin> (BlockNumber \<circ> fst) ` set bvs"
  shows "apply_batch (wOps a') m (NumKey (uint h)) = apply_batch (wOps a) m (NumKey (uint h))"
  using assms
proof (induction bvs arbitrary: a)
  case (Cons bv bvs)
  obtain b v where bv: "bv = (b, v)" by (cases bv)
  with Cons obtain a1 where a1: "writeBlock x p (b, v) a = Inr a1"
    "fold_res (writeBlock x p) bvs a1 = Inr a'" by (auto split: sum.splits)
  from a1(1) have "apply_batch (wOps a1) m (NumKey (uint h)) = apply_batch (wOps a) m (NumKey (uint h))"
    using Cons.prems(2) bv by (elim writeBlock_ops) auto
  with Cons.IH [OF a1(2)] Cons.prems(2) show ?case by simp
qed simp

lemma writeBlocks_set:
  assumes "fold_res (writeBlock x p) bvs a = Inr a'"
    and "distinct (map (BlockNumber \<circ> fst) bvs)" and "(b, v) \<in> set bvs"
  shows "apply_batch (wOps a') m (NumKey (uint (BlockNumber b))) = Some (hash_bytes (Hash b))"
  using assms
proof (induction bvs arbitrary: a)
  case (Cons bv bvs)
  obtain b1 v1 where bv: "bv = (b1, v1)" by (cases bv)
  with Cons obtain a1 where a1: "writeBlock x p (b1, v1) a = Inr a1"
    "fold_res (writeBlock x p) bvs a1 = Inr a'" by (auto split: sum.splits)
  show ?case
  proof (cases "(b, v) \<in> set bvs")
    case True
    then show ?thesis using Cons.IH [OF a1(2)] Cons.prems(2) by simp
  next
    case False
    with Cons.prems bv have b: "b1 = b" "v1 = v" by auto
    have "BlockNumber b \<notin> (BlockNumber \<circ> fst) ` set bvs"
      using Cons.prems(2) bv b by (auto simp: image_comp)
    then have "apply_batch (wOps a') m (NumKey (uint (BlockNumber b))) =
        apply_batch (wOps a1) m (NumKey (uint (BlockNumber b)))"
      by (rule writeBlocks_other [OF a1(2)])
    also have "\<dots> = Some (hash_bytes (Hash b))"
      using a1(1) b by (elim writeBlock_ops) auto
    finally show ?thesis .
  qed
qed simp

lemma run_above_step:
  assumes "h < MaxUint64"
  shows "run_above c h g \<longleftrightarrow> c (h + 1) \<noteq> None \<and> (g = h + 1 \<or> run_above c (h + 1) g)"
proof -
  have nm: "h \<noteq> MaxUint64" using assms by simp
  show ?thesis
  proof
    assume r: "run_above c h g"
    then have "h < g" by (simp add: run_above_def)
    then have le: "h + 1 \<le> g" by (simp add: u64_Suc_le_iff nm)
    with r have "c (h + 1) \<noteq> None" by (simp add: run_above_def u64_less_Suc nm)
    moreover have "g = h + 1 \<or> run_above c (h + 1) g"
      using r le u64_less_Suc [OF nm] by (auto simp: run_above_def)
    ultimately show "c (h + 1) \<noteq> None \<and> (g = h + 1 \<or> run_above c (h + 1) g)" by blast
  next
    assume r: "c (h + 1) \<noteq> None \<and> (g = h + 1 \<or> run_above c (h + 1) g)"
    have "h < g" using r u64_less_Suc [OF nm] by (auto simp: run_above_def)
    moreover have "c k \<noteq> None" if "h < k" "k \<le> g" for k
    proof (cases "k = h + 1")
      case False
      then have "h + 1 < k" using that(1) nm by (metis u64_Suc_le_iff order_less_le)
      then show ?thesis using r that(2) by (auto simp: run_above_def)
    qed (use r in simp)
    ultimately show "run_above c h g" by (simp add: run_above_def)
  qed
qed

lemma run_above_None: "c (h + 1) = None \<Longrightarrow> h < MaxUint64 \<Longrightarrow> \<not> run_above c h g"
  by (simp add: run_above_step)

lemma run_above_Max: "\<not> h < MaxUint64 \<Longrightarrow> \<not> run_above c h g"
  by (auto simp: run_above_def) (metis MaxUint64_ge leD le_less_trans not_less)

abbreviation mapped :: "pebble \<Rightarrow> u64 \<rightharpoonup> bytes" where
  "mapped p \<equiv> \<lambda>h. kv p (NumKey (uint h))"

lemma Get_cases:
  "Get p k = Inl e \<Longrightarrow> errors_Is e NotFound \<Longrightarrow> kv p k = None"
  "Get p k = Inr v \<Longrightarrow> kv p k = Some v"
  by (auto simp: Get_def split: if_splits option.splits)

lemma cleanAbove_index:
  assumes "cleanAbove p h a = Inr a'"
  shows "apply_batch (wOps a') m (NumKey (uint g)) =
    (if run_above (mapped p) h g then None else apply_batch (wOps a) m (NumKey (uint g)))"
  using assms
proof (induction p h a rule: cleanAbove.induct)
  case (1 p h a)
  show ?case
  proof (cases "h < MaxUint64")
    case False
    then show ?thesis using "1.prems" by (simp add: cleanAbove.simps run_above_Max)
  next
    case True
    show ?thesis
    proof (cases "Get p (NumKey (uint (h + 1)))")
      case (Inl e)
      with True "1.prems" have "errors_Is e NotFound" "a' = a"
        by (auto simp: cleanAbove.simps [of p h] split: if_splits)
      with Inl True show ?thesis by (simp add: run_above_None Get_cases(1))
    next
      case (Inr v)
      note IH = "1.IH" [OF True Inr]
      have "mapped p (h + 1) \<noteq> None" using Get_cases(2) [OF Inr] by simp
      moreover have "apply_batch (wOps a') m (NumKey (uint g)) =
          (if run_above (mapped p) (h + 1) g then None
           else if g = h + 1 then None else apply_batch (wOps a) m (NumKey (uint g)))"
        using IH "1.prems" True Inr by (subst (asm) cleanAbove.simps) auto
      ultimately show ?thesis using True by (auto simp: run_above_step [OF True])
    qed
  qed
qed

section \<open>The cursor of a write\<close>

text \<open>
  \<open>lowered s a a'\<close>: between two accumulators the cursor \<open>s\<close> changed at most by lowering its next
  height, and only together with the changed flag.
\<close>

definition lowered :: "ForkScanState \<Rightarrow> wacc \<Rightarrow> wacc \<Rightarrow> bool" where
  "lowered s a a' = (\<exists>n. n \<le> NextHeight s \<and> wNext a' = Some (s\<lparr>NextHeight := n\<rparr>) \<and>
     (wChanged a \<longrightarrow> wChanged a') \<and> (n \<noteq> NextHeight s \<longrightarrow> wChanged a'))"

text \<open>\<open>covers a h\<close>: the write knows that height \<open>h\<close> changed and its cursor does not lie above it.\<close>

definition covers :: "wacc \<Rightarrow> u64 \<Rightarrow> bool" where
  "covers a h = (wChanged a \<and> (case wNext a of Some s \<Rightarrow> NextHeight s \<le> h | None \<Rightarrow> True))"

lemma lowered_refl: "wNext a = Some s \<Longrightarrow> lowered s a a"
  by (auto simp: lowered_def intro: exI [of _ "NextHeight s"])

lemma lowered_trans:
  assumes "lowered s a b" and "wNext b = Some t" and "lowered t b c"
  shows "lowered s a c"
proof -
  from assms(1,2) obtain n where n: "n \<le> NextHeight s" "t = s\<lparr>NextHeight := n\<rparr>"
    "wChanged a \<longrightarrow> wChanged b" "n \<noteq> NextHeight s \<longrightarrow> wChanged b"
    by (auto simp: lowered_def)
  from assms(3) obtain k where "k \<le> NextHeight t" "wNext c = Some (t\<lparr>NextHeight := k\<rparr>)"
    "wChanged b \<longrightarrow> wChanged c" "k \<noteq> NextHeight t \<longrightarrow> wChanged c"
    by (auto simp: lowered_def)
  with n show ?thesis
    by (auto simp: lowered_def intro!: exI [of _ k])
qed

lemma lowered_affected: "wNext a = Some s \<Longrightarrow> lowered s a (affected h a)"
  by (auto simp: lowered_def affected_def intro: exI [of _ h] exI [of _ "NextHeight s"])

lemma covers_affected: "covers (affected h a) h"
  by (auto simp: covers_def affected_def split: option.splits)

lemma covers_lowered: "covers a h \<Longrightarrow> wNext a = Some s \<Longrightarrow> lowered s a a' \<Longrightarrow> covers a' h"
  by (auto simp: covers_def lowered_def)

lemma lowered_ops [simp]: "lowered s a (a'\<lparr>wOps := ops\<rparr>) = lowered s a a'"
  by (simp add: lowered_def)

lemma covers_ops [simp]: "covers (a\<lparr>wOps := ops\<rparr>) h = covers a h"
  by (simp add: covers_def)

lemma lowered_wNext: "lowered s a a' \<Longrightarrow> \<exists>t. wNext a' = Some t"
  by (auto simp: lowered_def)

lemma writeBlock_cursor:
  assumes "writeBlock x p (b, v) a = Inr a'" and "wNext a = Some s"
  shows "lowered s a a'"
    and "canon p (BlockNumber b) = Some h \<Longrightarrow> h \<noteq> Hash b \<Longrightarrow> covers a' (BlockNumber b)"
proof -
  obtain old d where o: "GetCanonicalHashByNum p (BlockNumber b) = Inr old"
    and a': "a' = (case old of Some h \<Rightarrow> if h \<noteq> Hash b then affected (BlockNumber b) a else a | None \<Rightarrow> a)
       \<lparr> wOps := d \<rparr>"
    using assms(1) by (auto simp: writeBlock_def Let_def split: sum.splits option.splits)
  then show "lowered s a a'"
    using assms(2) by (auto simp: lowered_refl lowered_affected split: option.splits)
  show "covers a' (BlockNumber b)" if "canon p (BlockNumber b) = Some h" "h \<noteq> Hash b"
    using that GetCanonicalHashByNum_canon [OF o] by (simp add: a' covers_affected)
qed

lemma writeBlocks_cursor:
  assumes "fold_res (writeBlock x p) bvs a = Inr a'" and "wNext a = Some s"
  shows "lowered s a a' \<and> (\<forall>(b, v) \<in> set bvs. \<forall>h.
     canon p (BlockNumber b) = Some h \<longrightarrow> h \<noteq> Hash b \<longrightarrow> covers a' (BlockNumber b))"
  using assms
proof (induction bvs arbitrary: a s)
  case Nil
  then show ?case by (simp add: lowered_refl)
next
  case (Cons bv bvs)
  obtain b v where bv: "bv = (b, v)" by (cases bv)
  with Cons.prems obtain a1 where a1: "writeBlock x p (b, v) a = Inr a1"
    "fold_res (writeBlock x p) bvs a1 = Inr a'" by (auto split: sum.splits)
  note l1 = writeBlock_cursor(1) [OF a1(1) Cons.prems(2)]
  obtain t where t: "wNext a1 = Some t" using lowered_wNext [OF l1] by blast
  note IH = Cons.IH [OF a1(2) t]
  have "lowered s a a'" using lowered_trans [OF l1 t] IH by blast
  moreover have "covers a' (BlockNumber b)" if "canon p (BlockNumber b) = Some h" "h \<noteq> Hash b" for h
    using covers_lowered [OF writeBlock_cursor(2) [OF a1(1) Cons.prems(2) that] t] IH by blast
  ultimately show ?case using IH bv by auto
qed

lemma cleanAbove_cursor:
  assumes "cleanAbove p h a = Inr a'" and "wNext a = Some s"
  shows "lowered s a a' \<and> (\<forall>g. run_above (mapped p) h g \<longrightarrow> covers a' g)"
  using assms
proof (induction p h a arbitrary: s rule: cleanAbove.induct)
  case (1 p h a)
  show ?case
  proof (cases "h < MaxUint64")
    case False
    then show ?thesis using "1.prems" by (simp add: cleanAbove.simps run_above_Max lowered_refl)
  next
    case True
    show ?thesis
    proof (cases "Get p (NumKey (uint (h + 1)))")
      case (Inl e)
      with True "1.prems" have "errors_Is e NotFound" "a' = a"
        by (auto simp: cleanAbove.simps [of p h] split: if_splits)
      with Inl True "1.prems"(2) show ?thesis
        by (simp add: run_above_None Get_cases(1) lowered_refl)
    next
      case (Inr v)
      let ?a1 = "(affected (h + 1) a)\<lparr>wOps := wOps a @ [BDelete (NumKey (uint (h + 1)))]\<rparr>"
      have c: "cleanAbove p (h + 1) ?a1 = Inr a'"
        using "1.prems"(1) True Inr by (subst (asm) cleanAbove.simps) simp
      have l1: "lowered s a ?a1" using lowered_affected "1.prems"(2) by simp
      obtain t where t: "wNext ?a1 = Some t" using lowered_wNext [OF l1] by blast
      note IH = "1.IH" [OF True Inr c t]
      have "lowered s a a'" using lowered_trans [OF l1 t] IH by blast
      moreover have "covers a' (h + 1)"
        using covers_lowered [OF _ t, of "h + 1" a'] IH covers_affected by simp
      ultimately show ?thesis using IH by (auto simp: run_above_step [OF True])
    qed
  qed
qed

section \<open>A completed write\<close>

lemma buildWrite_cases:
  assumes "buildWrite x p bs vs c v st = Inr (next, ops)"
  obtains a a' where "bs \<noteq> []" "length bs = length vs"
    and "fold_res (writeBlock x p) (zip bs vs) (startWrite bs st) = Inr a"
    and "cleanAbove p (BlockNumber (last bs)) a = Inr a'"
    and "finishCursor x c v a' = Inr (next, ops)"
  using assms by (auto simp: buildWrite_def split: sum.splits if_splits)

lemma finishCursor_ops:
  assumes "finishCursor x c v a = Inr (next, ops)"
  shows "apply_batch ops m (NumKey n) = apply_batch (wOps a) m (NumKey n)"
  using assms
  by (auto simp: finishCursor_def setForkScan_def Let_def split: option.splits if_splits sum.splits)

lemma startWrite_ops [simp]: "wOps (startWrite bs st) = []"
  by (simp add: startWrite_def Let_def split: option.splits)

lemma zip_numbers: "length bs = length vs \<Longrightarrow> map (BlockNumber \<circ> fst) (zip bs vs) = map BlockNumber bs"
  by (simp flip: map_map)

lemma find_number_Some:
  assumes "ascending bs" and "b \<in> set bs"
  shows "find (\<lambda>b'. BlockNumber b' = BlockNumber b) bs = Some b"
proof -
  have "find (\<lambda>b'. BlockNumber b' = BlockNumber b) bs \<noteq> None"
    using assms(2) by (auto simp: find_None_iff)
  then obtain b' where b': "find (\<lambda>b'. BlockNumber b' = BlockNumber b) bs = Some b'" by blast
  then have "b' \<in> set bs" "BlockNumber b' = BlockNumber b"
    by (auto simp: find_Some_iff)
  then have "b' = b" using ascending_unique [OF assms(1)] assms(2) by blast
  with b' show ?thesis by simp
qed

lemma find_number_cases:
  assumes "ascending bs"
  obtains b where "b \<in> set bs" "BlockNumber b = h" "find (\<lambda>b. BlockNumber b = h) bs = Some b"
  | "h \<notin> BlockNumber ` set bs" "find (\<lambda>b. BlockNumber b = h) bs = None"
proof (cases "h \<in> BlockNumber ` set bs")
  case True
  then obtain b where "b \<in> set bs" "BlockNumber b = h" by blast
  with find_number_Some [OF assms] that(1) show ?thesis by blast
next
  case False
  then have "find (\<lambda>b. BlockNumber b = h) bs = None" by (auto simp: find_None_iff)
  with False that(2) show ?thesis by blast
qed

lemma buildWrite_index:
  assumes "buildWrite x p bs vs c v st = Inr (next, ops)" and "ascending bs"
  shows "apply_batch ops (kv p) (NumKey (uint h)) =
    (case find (\<lambda>b. BlockNumber b = h) bs of
       Some b \<Rightarrow> Some (hash_bytes (Hash b))
     | None \<Rightarrow> if run_above (mapped p) (BlockNumber (last bs)) h then None else mapped p h)"
proof -
  obtain a a' where ne: "bs \<noteq> []" and len: "length bs = length vs"
    and w: "fold_res (writeBlock x p) (zip bs vs) (startWrite bs st) = Inr a"
    and cl: "cleanAbove p (BlockNumber (last bs)) a = Inr a'"
    and f: "finishCursor x c v a' = Inr (next, ops)"
    using assms(1) by (rule buildWrite_cases)
  have eq: "apply_batch ops (kv p) (NumKey (uint h)) =
    (if run_above (mapped p) (BlockNumber (last bs)) h then None
     else apply_batch (wOps a) (kv p) (NumKey (uint h)))"
    using finishCursor_ops [OF f] cleanAbove_index [OF cl] by metis
  have dist: "distinct (map (BlockNumber \<circ> fst) (zip bs vs))"
    using assms(2) by (simp only: zip_numbers [OF len]) (simp add: ascending_def strict_sorted_iff)
  show ?thesis
  proof (rule find_number_cases [OF assms(2), of h])
    fix b assume b: "b \<in> set bs" "BlockNumber b = h" "find (\<lambda>b. BlockNumber b = h) bs = Some b"
    then have "\<not> run_above (mapped p) (BlockNumber (last bs)) h"
      using ascending_le_last [OF assms(2) b(1)] by (auto simp: run_above_def)
    moreover obtain w where "(b, w) \<in> set (zip bs vs)"
      using b(1) len by (metis in_set_impl_in_set_zip1)
    ultimately show ?thesis
      using writeBlocks_set [OF w dist, of b] b eq by auto
  next
    assume n: "h \<notin> BlockNumber ` set bs" "find (\<lambda>b. BlockNumber b = h) bs = None"
    then have "h \<notin> (BlockNumber \<circ> fst) ` set (zip bs vs)"
      by (auto dest: set_zip_leftD)
    from writeBlocks_other [OF w this] n eq show ?thesis by simp
  qed
qed

lemma Write_ok_cases:
  assumes "WriteBlockInfosWithForkScan x cdb bs vs c v st = (Inr next, cdb')"
  obtains ops where "buildWrite x (db cdb) bs vs c v st = Inr (next, ops)"
    and "Commit (db cdb) ops = (Inr (), db cdb')"
    and "latest cdb' = Some \<lparr> ID = Hash (last bs), Height = BlockNumber (last bs),
           ValidationHash = last vs, IsFork = False \<rparr>"
  using assms
  by (auto simp: WriteBlockInfosWithForkScan_def split: sum.splits prod.splits)

section \<open>Properties\<close>

lemma write_refines:
  assumes "WriteBlockInfosWithForkScan x cdb bs vs c v st = (Inr next, cdb')"
    and "ascending bs" and "index_ok (db cdb)"
  shows "canon (db cdb') = install bs (canon (db cdb)) \<and> index_ok (db cdb') \<and>
    latest cdb' = Some \<lparr> ID = Hash (last bs), Height = BlockNumber (last bs),
                         ValidationHash = last vs, IsFork = False \<rparr>"
proof -
  let ?p = "db cdb" and ?p' = "db cdb'"
  obtain ops where b: "buildWrite x ?p bs vs c v st = Inr (next, ops)"
    and k: "Commit ?p ops = (Inr (), ?p')"
    and l: "latest cdb' = Some \<lparr> ID = Hash (last bs), Height = BlockNumber (last bs),
       ValidationHash = last vs, IsFork = False \<rparr>"
    using assms(1) by (rule Write_ok_cases)
  have kv': "mapped ?p' h = (case find (\<lambda>b. BlockNumber b = h) bs of
       Some b \<Rightarrow> Some (hash_bytes (Hash b))
     | None \<Rightarrow> if run_above (mapped ?p) (BlockNumber (last bs)) h then None else mapped ?p h)" for h
    using pebble_kv.commit_ok [OF k] buildWrite_index [OF b assms(2)] by simp
  have r: "run_above (canon ?p) t h = run_above (mapped ?p) t h" for t h
    by (simp add: run_above_def canon_eq_None [OF assms(3)])
  have "canon ?p' h = install bs (canon ?p) h" for h
    by (auto simp: canon_def [of ?p'] kv' install_def r split: option.splits)
      (auto simp: canon_def)
  moreover have "index_ok ?p'"
    using assms(3) by (auto simp: index_ok_def kv' split: option.splits if_splits)
  ultimately show ?thesis using l by auto
qed

text \<open>
  C9: functional refinement of the canonical index. Whatever the store holds, when a write of
  blocks in ascending height order succeeds, the map from heights to canonical hashes is exactly
  the abstract operation applied to the old map: each new block is canonical at its height, the
  unbroken run of old mappings above the new tip is gone, and every other height is untouched;
  the index stays well formed and the latest block is the tail of the new blocks.
\<close>

theorem write_refines_install:
  assumes "WriteBlockInfosWithForkScan x cdb bs vs c v st = (Inr next, cdb')"
    and "ascending bs" and "index_ok (db cdb)"
  shows "canon (db cdb') = install bs (canon (db cdb)) \<and> index_ok (db cdb') \<and>
    latest cdb' = Some \<lparr> ID = Hash (last bs), Height = BlockNumber (last bs),
                         ValidationHash = last vs, IsFork = False \<rparr>"
  using assms by (rule write_refines)

definition exBlock :: "u64 \<Rightarrow> hash \<Rightarrow> BlockContext" where
  "exBlock n h = \<lparr> BlockNumber = n, Hash = h, ParentHash = 0, Timestamp = 0 \<rparr>"

definition exDB :: ConsistencyDB where
  "exDB = \<lparr> db = emptyPebble, latest = None \<rparr>"

lemma ex_rlp: "rlp_pair (3, 33) = Some [0xC2, 3, 33]"
  by (simp add: rlp_pair_def big_Bytes_def nat_Bytes.simps rlp_item_def)

lemma ex_write:
  "\<exists>cdb'. WriteBlockInfosWithForkScan hexExt exDB [exBlock 3 7] [33] 0 [] None = (Inr None, cdb')"
  by (simp add: WriteBlockInfosWithForkScan_def buildWrite_def startWrite_def exDB_def exBlock_def
      writeBlock_def GetCanonicalHashByNum_def getBlockHashByNum_def Get_def emptyPebble_def
      cleanAbove.simps hexExt_def ex_rlp finishCursor_def Commit_def MaxUint64_def)

theorem write_refines_install_witness:
  "\<exists>cdb'. WriteBlockInfosWithForkScan hexExt exDB [exBlock 3 7] [33] 0 [] None = (Inr None, cdb') \<and>
     canon (db cdb') 3 = Some 7 \<and> canon (db cdb') 4 = None"
proof -
  obtain cdb' where w:
    "WriteBlockInfosWithForkScan hexExt exDB [exBlock 3 7] [33] 0 [] None = (Inr None, cdb')"
    using ex_write by blast
  have "ascending [exBlock 3 7]" "index_ok (db exDB)"
    by (simp_all add: ascending_def index_ok_def exDB_def emptyPebble_def)
  note r = write_refines_install [OF w this]
  have e: "canon (db exDB) h = None" for h by (simp add: canon_def exDB_def emptyPebble_def)
  have "canon (db cdb') 3 = Some 7" "canon (db cdb') 4 = None"
    using r e by (simp_all add: install_def exBlock_def)
  with w show ?thesis by blast
qed

text \<open>
  C11: a write is all or nothing. On every error path (bad counts, a failed or corrupt read, a
  value RLP rejects, an invalid or overflowing cursor, a failed commit) neither the store's
  contents nor the latest block change, so in particular the canonical index and the durable
  cursor are the old ones together.
\<close>

theorem write_error_changes_nothing:
  assumes "WriteBlockInfosWithForkScan x cdb bs vs c v st = (Inl e, cdb')"
  shows "kv (db cdb') = kv (db cdb) \<and> latest cdb' = latest cdb"
proof (cases "buildWrite x (db cdb) bs vs c v st")
  case (Inl e')
  then show ?thesis using assms by (simp add: WriteBlockInfosWithForkScan_def)
next
  case (Inr r)
  obtain nx ops where "r = (nx, ops)" by (cases r)
  with Inr assms obtain p where "Commit (db cdb) ops = (Inl e, p)" "cdb' = cdb\<lparr>db := p\<rparr>"
    by (auto simp: WriteBlockInfosWithForkScan_def split: sum.splits prod.splits)
  then show ?thesis by (simp add: pebble_kv.commit_failed)
qed

theorem write_error_changes_nothing_witness:
  "kv (db (snd (WriteBlockInfosWithForkScan hexExt exDB [exBlock 3 7] [-1] 0 [] None))) = kv (db exDB)"
proof -
  have n: "rlp_pair (3, -1) = None" by (simp add: rlp_pair_def)
  have "\<exists>e. WriteBlockInfosWithForkScan hexExt exDB [exBlock 3 7] [-1] 0 [] None = (Inl e, exDB)"
    by (simp add: WriteBlockInfosWithForkScan_def buildWrite_def startWrite_def exDB_def exBlock_def
        writeBlock_def GetCanonicalHashByNum_def getBlockHashByNum_def Get_def emptyPebble_def
        hexExt_def n)
  then obtain e where
    "WriteBlockInfosWithForkScan hexExt exDB [exBlock 3 7] [-1] 0 [] None = (Inl e, exDB)" by blast
  from this write_error_changes_nothing [OF this] show ?thesis by simp
qed

text \<open>The cursor of a write, from its parts.\<close>

lemma startWrite_lowered:
  "wNext (startWrite bs (Some s)) = Some t \<Longrightarrow>
    (\<exists>n. n \<le> NextHeight s \<and> t = s\<lparr>Pending := Some (tailAnchor bs), NextHeight := n\<rparr> \<and>
       (n \<noteq> NextHeight s \<longrightarrow> wChanged (startWrite bs (Some s))))"
  by (rule exI [of _ "NextHeight t"])
    (auto simp: startWrite_def affected_def Let_def split: if_splits)

lemma startWrite_Some: "\<exists>t. wNext (startWrite bs (Some s)) = Some t"
  by (auto simp: startWrite_def affected_def Let_def)

lemma startWrite_covers:
  "BlockNumber (hd bs) \<le> anchorHeight (Published s) \<Longrightarrow> BlockNumber (hd bs) \<le> h \<Longrightarrow>
    covers (startWrite bs (Some s)) h"
  by (auto simp: startWrite_def Let_def covers_def affected_def)

lemma finishCursor_Some:
  assumes "finishCursor x c v a = Inr (next, ops)" and "wNext a = Some s"
  shows "next = Some (if wChanged a then s\<lparr>Generation := Generation s + 1\<rparr> else s)"
    and "wChanged a \<Longrightarrow> Generation s \<noteq> MaxUint64"
    and "validate (the next) = Inr ()"
    and "ops = wOps a @ [BSet (forkScanKey c v) (str_bytes (json_print (state_json x (the next))))]"
  using assms(1) unfolding finishCursor_def assms(2) option.case
  by (auto simp: setForkScan_def Let_def split: if_splits sum.splits)

text \<open>
  The cursor a write returns: the saved cursor with its next height lowered at most, the tail as
  pending anchor, and the generation advanced by one exactly when the write changed something. It
  is at or below the first new height when that is not above the published head, at or below every
  height whose canonical hash is replaced, and at or below every mapping removed above the tip.
\<close>

lemma buildWrite_cursor:
  assumes "buildWrite x p bs vs c v (Some s) = Inr (next, ops)"
  obtains n ch where "next = Some (s\<lparr>Pending := Some (tailAnchor bs), NextHeight := n,
       Generation := (if ch then Generation s + 1 else Generation s)\<rparr>)"
    and "n \<le> NextHeight s" and "ch \<Longrightarrow> Generation s \<noteq> MaxUint64" and "n \<noteq> NextHeight s \<Longrightarrow> ch"
    and "\<And>h. BlockNumber (hd bs) \<le> anchorHeight (Published s) \<Longrightarrow> BlockNumber (hd bs) \<le> h \<Longrightarrow> ch \<and> n \<le> h"
    and "\<And>b h. b \<in> set bs \<Longrightarrow> canon p (BlockNumber b) = Some h \<Longrightarrow> h \<noteq> Hash b \<Longrightarrow> ch \<and> n \<le> BlockNumber b"
    and "\<And>g. run_above (mapped p) (BlockNumber (last bs)) g \<Longrightarrow> ch \<and> n \<le> g"
    and "validate (the next) = Inr ()"
    and "apply_batch ops m (forkScanKey c v) = Some (str_bytes (json_print (state_json x (the next))))"
proof -
  obtain a a' where ne: "bs \<noteq> []" and len: "length bs = length vs"
    and w: "fold_res (writeBlock x p) (zip bs vs) (startWrite bs (Some s)) = Inr a"
    and cl: "cleanAbove p (BlockNumber (last bs)) a = Inr a'"
    and f: "finishCursor x c v a' = Inr (next, ops)"
    using assms by (rule buildWrite_cases)
  obtain t where t: "wNext (startWrite bs (Some s)) = Some t" using startWrite_Some by blast
  note W = writeBlocks_cursor [OF w t]
  obtain u where u: "wNext a = Some u" using W lowered_wNext by blast
  note C = cleanAbove_cursor [OF cl u]
  obtain z where z: "wNext a' = Some z" using C lowered_wNext by blast
  have low: "lowered t (startWrite bs (Some s)) a'" using lowered_trans [OF _ u] W C by blast
  have cov_a: "covers a h \<Longrightarrow> covers a' h" for h using covers_lowered [OF _ u] C by blast
  have cov_s: "covers (startWrite bs (Some s)) h \<Longrightarrow> covers a' h" for h
    using covers_lowered [OF _ t low] by blast
  note F = finishCursor_Some [OF f z]
  show thesis
  proof (rule that [where n = "NextHeight z" and ch = "wChanged a'"])
    from low z startWrite_lowered [OF t] show "NextHeight z \<le> NextHeight s"
      by (auto simp: lowered_def)
    from low z startWrite_lowered [OF t] show "NextHeight z \<noteq> NextHeight s \<Longrightarrow> wChanged a'"
      by (auto simp: lowered_def)
    have "z = s\<lparr>Pending := Some (tailAnchor bs), NextHeight := NextHeight z\<rparr>"
      using low z startWrite_lowered [OF t] by (auto simp: lowered_def)
    then obtain n where zn: "z = s\<lparr>Pending := Some (tailAnchor bs), NextHeight := n\<rparr>" by blast
    then have gen: "Generation z = Generation s" by simp
    show "next = Some (s\<lparr>Pending := Some (tailAnchor bs), NextHeight := NextHeight z,
       Generation := (if wChanged a' then Generation s + 1 else Generation s)\<rparr>)"
      using F(1) by (simp add: zn)
    show "wChanged a' \<Longrightarrow> Generation s \<noteq> MaxUint64" using F(2) gen by simp
    show "validate (the next) = Inr ()" by (rule F(3))
    show "apply_batch ops m (forkScanKey c v) = Some (str_bytes (json_print (state_json x (the next))))"
      by (simp add: F(4))
    show "wChanged a' \<and> NextHeight z \<le> h"
      if "BlockNumber (hd bs) \<le> anchorHeight (Published s)" "BlockNumber (hd bs) \<le> h" for h
      using cov_s [OF startWrite_covers [OF that]] z by (simp add: covers_def)
    show "wChanged a' \<and> NextHeight z \<le> BlockNumber b"
      if b: "b \<in> set bs" "canon p (BlockNumber b) = Some h" "h \<noteq> Hash b" for b h
    proof -
      obtain vv where "(b, vv) \<in> set (zip bs vs)" using b(1) len by (metis in_set_impl_in_set_zip1)
      then have "covers a' (BlockNumber b)" using W b cov_a by blast
      then show ?thesis using z by (simp add: covers_def)
    qed
    show "wChanged a' \<and> NextHeight z \<le> g" if "run_above (mapped p) (BlockNumber (last bs)) g" for g
      using C that z by (auto simp: covers_def)
  qed
qed

lemma validate_cursor_bound:
  assumes "validate s = Inr ()" and "anchorHeight (Published s) < h"
  shows "NextHeight s \<le> h"
proof -
  have nm: "anchorHeight (Published s) \<noteq> MaxUint64" using assms(2) by (rule u64_less_not_Max)
  with assms(1) have "NextHeight s \<le> anchorHeight (Published s) + 1"
    by (auto simp: validate_def split: if_splits)
  also have "\<dots> \<le> h" using assms(2) nm by (simp add: u64_Suc_le_iff)
  finally show ?thesis .
qed

lemma write_cursor_covers_changes:
  assumes W: "WriteBlockInfosWithForkScan x cdb bs vs c v (Some s) = (Inr next, cdb')"
    and asc: "ascending bs" and ok: "index_ok (db cdb)" and val: "validate s = Inr ()"
    and can: "canon (db cdb') = install bs (canon (db cdb))"
    and ch: "canon (db cdb') h \<noteq> canon (db cdb) h"
  shows "NextHeight (the next) \<le> h"
    and "canon (db cdb) h \<noteq> None \<Longrightarrow> Generation (the next) = Generation s + 1 \<and> Generation s < Generation (the next)"
proof -
  let ?p = "db cdb"
  obtain ops where b: "buildWrite x ?p bs vs c v (Some s) = Inr (next, ops)"
    using W by (rule Write_ok_cases)
  have r: "run_above (canon ?p) t g = run_above (mapped ?p) t g" for t g
    by (simp add: run_above_def canon_eq_None [OF ok])
  obtain n g where nx: "next = Some (s\<lparr>Pending := Some (tailAnchor bs), NextHeight := n,
       Generation := (if g then Generation s + 1 else Generation s)\<rparr>)"
    and le: "n \<le> NextHeight s" and gm: "g \<Longrightarrow> Generation s \<noteq> MaxUint64"
    and first: "\<And>h. BlockNumber (hd bs) \<le> anchorHeight (Published s) \<Longrightarrow> BlockNumber (hd bs) \<le> h \<Longrightarrow> g \<and> n \<le> h"
    and repl: "\<And>b h. b \<in> set bs \<Longrightarrow> canon ?p (BlockNumber b) = Some h \<Longrightarrow> h \<noteq> Hash b \<Longrightarrow> g \<and> n \<le> BlockNumber b"
    and above: "\<And>k. run_above (mapped ?p) (BlockNumber (last bs)) k \<Longrightarrow> g \<and> n \<le> k"
    using b by (rule buildWrite_cursor [where m = Map.empty]) blast
  have "n \<le> h \<and> (canon ?p h \<noteq> None \<longrightarrow> g)"
  proof (rule find_number_cases [OF asc, of h])
    fix b assume B: "b \<in> set bs" "BlockNumber b = h" "find (\<lambda>b. BlockNumber b = h) bs = Some b"
    then have ne: "canon ?p h \<noteq> Some (Hash b)" using ch can by (simp add: install_def)
    show ?thesis
    proof (cases "canon ?p h")
      case None
      have "n \<le> h"
      proof (cases "BlockNumber (hd bs) \<le> anchorHeight (Published s)")
        case True
        then show ?thesis using first ascending_hd_le [OF asc B(1)] B(2) by blast
      next
        case False
        then have "anchorHeight (Published s) < h"
          using ascending_hd_le [OF asc B(1)] B(2) by simp
        then show ?thesis using validate_cursor_bound [OF val] le order_trans by blast
      qed
      with None show ?thesis by simp
    next
      case (Some h')
      then show ?thesis using repl [OF B(1)] B(2) ne by auto
    qed
  next
    assume "find (\<lambda>b. BlockNumber b = h) bs = None"
    then have "run_above (mapped ?p) (BlockNumber (last bs)) h"
      using ch can by (auto simp: install_def r split: if_splits)
    then show ?thesis using above by blast
  qed
  then show "NextHeight (the next) \<le> h"
    and "canon ?p h \<noteq> None \<Longrightarrow> Generation (the next) = Generation s + 1 \<and> Generation s < Generation (the next)"
    using gm by (auto simp: nx u64_less_Suc)
qed

text \<open>
  C10: the scan cursor never stays above a height whose canonical block changed. When a write of
  blocks in ascending order succeeds with a valid cursor, the cursor it returns is at or below every
  height where the canonical map differs from before (a replaced block, a newly mapped height or a
  mapping removed by a shorter chain), never above the old one, and the generation advances by
  exactly one, without wrapping, whenever an existing mapping was replaced or removed.
\<close>

theorem write_rewinds_cursor:
  assumes "WriteBlockInfosWithForkScan x cdb bs vs c v (Some s) = (Inr (Some s'), cdb')"
    and "ascending bs" and "index_ok (db cdb)" and "validate s = Inr ()"
  shows "(\<forall>h. canon (db cdb') h \<noteq> canon (db cdb) h \<longrightarrow> NextHeight s' \<le> h) \<and>
    (\<forall>h. canon (db cdb) h \<noteq> None \<and> canon (db cdb') h \<noteq> canon (db cdb) h \<longrightarrow>
       Generation s' = Generation s + 1 \<and> Generation s < Generation s') \<and>
    NextHeight s' \<le> NextHeight s \<and> Pending s' = Some (tailAnchor bs)"
proof -
  have can: "canon (db cdb') = install bs (canon (db cdb))"
    using write_refines [OF assms(1-3)] by simp
  note cov = write_cursor_covers_changes [OF assms(1-4) can]
  obtain ops where b: "buildWrite x (db cdb) bs vs c v (Some s) = Inr (Some s', ops)"
    using assms(1) by (rule Write_ok_cases)
  then have "NextHeight s' \<le> NextHeight s \<and> Pending s' = Some (tailAnchor bs)"
    by (rule buildWrite_cursor [where m = Map.empty]) auto
  with cov show ?thesis by auto
qed

definition exCursor :: ForkScanState where
  "exCursor = \<lparr> Format = 1, Baseline = \<lparr> anchorHeight = 1, anchorHash = 1 \<rparr>, NextHeight = 6,
     Generation = 4, Published = \<lparr> anchorHeight = 5, anchorHash = 5 \<rparr>, Position = None, Pending = None \<rparr>"

definition exCursor' :: ForkScanState where
  "exCursor' = exCursor\<lparr> Pending := Some \<lparr> anchorHeight = 3, anchorHash = 7 \<rparr>, NextHeight := 3, Generation := 5 \<rparr>"

lemmas ex_write_simps = WriteBlockInfosWithForkScan_def buildWrite_def startWrite_def exDB_def
  exBlock_def writeBlock_def GetCanonicalHashByNum_def getBlockHashByNum_def Get_def emptyPebble_def
  cleanAbove.simps hexExt_def ex_rlp finishCursor_def Commit_def MaxUint64_def affected_def
  tailAnchor_def setForkScan_def validate_def Let_def

lemma ex_write_cursor:
  "\<exists>cdb'. WriteBlockInfosWithForkScan hexExt exDB [exBlock 3 7] [33] 56 ''v'' (Some exCursor) =
     (Inr (Some exCursor'), cdb')"
  by (simp add: ex_write_simps exCursor_def exCursor'_def)

lemma ex_hyps: "ascending [exBlock 3 7]" "index_ok (db exDB)" "validate exCursor = Inr ()"
  by (simp_all add: ascending_def index_ok_def exDB_def emptyPebble_def validate_def exCursor_def
      MaxUint64_def)

theorem write_rewinds_cursor_witness:
  "\<exists>cdb'. WriteBlockInfosWithForkScan hexExt exDB [exBlock 3 7] [33] 56 ''v'' (Some exCursor) =
     (Inr (Some exCursor'), cdb') \<and> NextHeight exCursor' \<le> NextHeight exCursor"
proof -
  obtain cdb' where w: "WriteBlockInfosWithForkScan hexExt exDB [exBlock 3 7] [33] 56 ''v'' (Some exCursor) =
     (Inr (Some exCursor'), cdb')"
    using ex_write_cursor by blast
  from w write_rewinds_cursor [OF w ex_hyps] show ?thesis by blast
qed

lemma buildWrite_stored:
  assumes "buildWrite x p bs vs c v (Some s) = Inr (Some s', ops)"
  shows "validate s' = Inr () \<and> (storable s' \<longleftrightarrow> storable s) \<and>
    apply_batch ops m (forkScanKey c v) = Some (str_bytes (json_print (state_json x s')))"
  using assms by (rule buildWrite_cursor [where m = m]) (auto simp: storable_def)

text \<open>
  The canonical index and the cursor become durable together. After a successful write with a
  cursor, a restart that can read the record loads exactly the cursor the write returned, for the
  scope it was written under, with whatever codecs satisfy the documented laws.
\<close>

theorem write_then_restart:
  assumes "WriteBlockInfosWithForkScan x cdb bs vs c v (Some s) = (Inr (Some s'), cdb')"
    and "ext_codecs x" and "storable s"
    and "\<not> readErr (db cdb') (epoch (db cdb')) (forkScanKey c v)"
  shows "LoadForkScan x (db cdb') c v = Inr (Some s')"
proof -
  obtain ops where b: "buildWrite x (db cdb) bs vs c v (Some s) = Inr (Some s', ops)"
    and k: "Commit (db cdb) ops = (Inr (), db cdb')"
    using assms(1) by (rule Write_ok_cases)
  note st = buildWrite_stored [OF b, of "kv (db cdb)"]
  have "stored x c v (db cdb') s'"
    using pebble_kv.commit_ok [OF k] st by (simp add: stored_def)
  then show ?thesis
    using durable_cursor.load_durable [OF ext_codecs.cursor_contract [OF assms(2)]] st assms(3,4) by blast
qed

theorem write_then_restart_witness:
  "\<exists>cdb' :: ConsistencyDB. LoadForkScan hexExt (db cdb') 56 ''v'' = Inr (Some exCursor')"
proof -
  obtain cdb' where w: "WriteBlockInfosWithForkScan hexExt exDB [exBlock 3 7] [33] 56 ''v'' (Some exCursor) =
     (Inr (Some exCursor'), cdb')"
    using ex_write_cursor by blast
  obtain ops where "Commit (db exDB) ops = (Inr (), db cdb')" using w by (rule Write_ok_cases)
  then have r: "\<not> readErr (db cdb') (epoch (db cdb')) (forkScanKey 56 ''v'')"
    unfolding Commit_ok_iff by (simp add: exDB_def emptyPebble_def)
  have st: "storable exCursor" by (simp add: storable_def exCursor_def in_int64_def)
  from write_then_restart [OF w hexc.ext_codecs_axioms st r] show ?thesis by blast
qed

section \<open>The shape of the canonical chain\<close>

definition no_gaps :: "(u64 \<rightharpoonup> hash) \<Rightarrow> bool" where
  "no_gaps c = (\<forall>g k h. c g \<noteq> None \<and> c h \<noteq> None \<and> g \<le> k \<and> k \<le> h \<longrightarrow> c k \<noteq> None)"

text \<open>The first new block follows or replaces a mapped block, or nothing is mapped yet.\<close>

definition attaches :: "BlockContext list \<Rightarrow> (u64 \<rightharpoonup> hash) \<Rightarrow> bool" where
  "attaches bs c = (c = Map.empty \<or> c (BlockNumber (hd bs)) \<noteq> None \<or>
     (0 < BlockNumber (hd bs) \<and> c (BlockNumber (hd bs) - 1) \<noteq> None))"

lemma attaches_base:
  assumes "attaches bs c" and "c h \<noteq> None"
  obtains a where "c a \<noteq> None" and "a \<le> BlockNumber (hd bs)" and "\<And>k. k < BlockNumber (hd bs) \<Longrightarrow> k \<le> a"
  using assms unfolding attaches_def
proof (elim disjE conjE)
  assume "0 < BlockNumber (hd bs)" "c (BlockNumber (hd bs) - 1) \<noteq> None"
  moreover from this(1) have "BlockNumber (hd bs) - 1 \<le> BlockNumber (hd bs)"
    by (simp add: word_le_nat_alt u64_pred)
  ultimately show thesis
    by (intro that [of "BlockNumber (hd bs) - 1"]) (simp_all add: u64_le_pred_iff)
qed (use assms(2) that in auto)

lemma install_above_tip:
  assumes "contiguous bs" "bs \<noteq> []" "no_gaps c" "attaches bs c" "install bs c h \<noteq> None"
  shows "h \<le> BlockNumber (last bs)"
proof (rule ccontr)
  assume "\<not> ?thesis"
  then have gt: "BlockNumber (last bs) < h" by simp
  have asc: "ascending bs" using assms(1) by (rule contiguous_ascending)
  have hl: "BlockNumber (hd bs) \<le> BlockNumber (last bs)"
    using ascending_hd_le [OF asc, of "last bs"] assms(2) by simp
  have "find (\<lambda>b. BlockNumber b = h) bs = None"
    using gt ascending_le_last [OF asc] by (simp add: find_None_iff) (use leD in blast)
  with assms(5) have ch: "c h \<noteq> None" and nr: "\<not> run_above c (BlockNumber (last bs)) h"
    by (auto simp: install_def split: if_splits)
  obtain a where a: "c a \<noteq> None" "a \<le> BlockNumber (hd bs)"
    using attaches_base [OF assms(4) ch] by blast
  have "c k \<noteq> None" if "BlockNumber (last bs) < k" "k \<le> h" for k
    using assms(3) a(1) ch that(2) order_trans [OF a(2) order_trans [OF hl less_imp_le [OF that(1)]]]
    unfolding no_gaps_def by blast
  with gt nr show False by (auto simp: run_above_def)
qed

lemma install_no_gaps:
  assumes "contiguous bs" "bs \<noteq> []" "no_gaps c" "attaches bs c"
  shows "no_gaps (install bs c)"
  unfolding no_gaps_def
proof (intro allI impI, elim conjE)
  fix g k h
  assume i: "install bs c g \<noteq> None" "install bs c h \<noteq> None" and gk: "g \<le> k" and kh: "k \<le> h"
  have hl: "h \<le> BlockNumber (last bs)" using install_above_tip [OF assms i(2)] .
  have asc: "ascending bs" using assms(1) by (rule contiguous_ascending)
  show "install bs c k \<noteq> None"
  proof (cases "BlockNumber (hd bs) \<le> k")
    case True
    then have "k \<in> BlockNumber ` set bs"
      using contiguous_covers [OF assms(1,2)] order_trans [OF kh hl] by blast
    then obtain b where "b \<in> set bs" "k = BlockNumber b" by blast
    then show ?thesis using find_number_Some [OF asc, of b] by (simp add: install_def)
  next
    case False
    then have kl: "k < BlockNumber (hd bs)" by simp
    have out: "find (\<lambda>b. BlockNumber b = j) bs = None" if "j \<le> k" for j
    proof -
      have "BlockNumber b \<noteq> j" if "b \<in> set bs" for b
        using ascending_hd_le [OF asc that] kl \<open>j \<le> k\<close> by (metis leD le_less_trans)
      then show ?thesis by (auto simp: find_None_iff)
    qed
    have nr: "\<not> run_above c (BlockNumber (last bs)) j" if "j \<le> k" for j
      using order_trans [OF that order_trans [OF kh hl]] by (auto simp: run_above_def dest: leD)
    have cg: "c g \<noteq> None" using i(1) out [OF gk] nr [OF gk] by (simp add: install_def)
    obtain a where a: "c a \<noteq> None" "\<And>j. j < BlockNumber (hd bs) \<Longrightarrow> j \<le> a"
      using attaches_base [OF assms(4) cg] by blast
    have "c k \<noteq> None" using assms(3) cg a(1) a(2) [OF kl] gk unfolding no_gaps_def by blast
    then show ?thesis using out [of k] nr [of k] by (simp add: install_def)
  qed
qed

text \<open>
  C12: the index always describes one chain that ends at the published segment. If the mapped heights
  have no gap and a segment of consecutive blocks attaches to them, then after a successful write
  the mapped heights still have no gap and the highest of them is the tail of the segment, also when
  the new chain is shorter than the old one.
\<close>

theorem write_keeps_one_chain:
  assumes "WriteBlockInfosWithForkScan x cdb bs vs c v st = (Inr next, cdb')"
    and "contiguous bs" and "index_ok (db cdb)"
    and "no_gaps (canon (db cdb))" and "attaches bs (canon (db cdb))"
  shows "no_gaps (canon (db cdb')) \<and> canon (db cdb') (BlockNumber (last bs)) = Some (Hash (last bs)) \<and>
    (\<forall>h > BlockNumber (last bs). canon (db cdb') h = None)"
proof -
  have asc: "ascending bs" using assms(2) by (rule contiguous_ascending)
  have can: "canon (db cdb') = install bs (canon (db cdb))"
    using write_refines [OF assms(1) asc assms(3)] by simp
  have ne: "bs \<noteq> []" using assms(1) by (elim Write_ok_cases buildWrite_cases) 
  have "install bs (canon (db cdb)) (BlockNumber (last bs)) = Some (Hash (last bs))"
    using find_number_Some [OF asc, of "last bs"] ne by (simp add: install_def)
  moreover have "install bs (canon (db cdb)) h = None" if "BlockNumber (last bs) < h" for h
    using install_above_tip [OF assms(2) ne assms(4,5), of h] that by force
  ultimately show ?thesis
    using install_no_gaps [OF assms(2) ne assms(4,5)] by (simp add: can)
qed

theorem write_keeps_one_chain_witness:
  "\<exists>cdb' :: ConsistencyDB. no_gaps (canon (db cdb')) \<and> canon (db cdb') 3 = Some 7 \<and> canon (db cdb') 4 = None"
proof -
  obtain cdb' where w:
    "WriteBlockInfosWithForkScan hexExt exDB [exBlock 3 7] [33] 0 [] None = (Inr None, cdb')"
    using ex_write by blast
  have e: "canon (db exDB) = Map.empty" by (auto simp: canon_def exDB_def emptyPebble_def)
  have "contiguous [exBlock 3 7]" "no_gaps (canon (db exDB))" "attaches [exBlock 3 7] (canon (db exDB))"
    by (simp_all add: e no_gaps_def attaches_def)
  note k = write_keeps_one_chain [OF w this(1) ex_hyps(2) this(2,3)]
  then have "canon (db cdb') 3 = Some 7" "canon (db cdb') 4 = None" by (simp_all add: exBlock_def)
  with k show ?thesis by blast
qed

section \<open>Reading back\<close>

lemma writeBlocks_info_other:
  assumes "fold_res (writeBlock x p) bvs a = Inr a'" and "h \<notin> (Hash \<circ> fst) ` set bvs"
  shows "apply_batch (wOps a') m (HashKey h) = apply_batch (wOps a) m (HashKey h)"
  using assms
proof (induction bvs arbitrary: a)
  case (Cons bv bvs)
  obtain b v where bv: "bv = (b, v)" by (cases bv)
  with Cons obtain a1 where a1: "writeBlock x p (b, v) a = Inr a1"
    "fold_res (writeBlock x p) bvs a1 = Inr a'" by (auto split: sum.splits)
  from a1(1) have "apply_batch (wOps a1) m (HashKey h) = apply_batch (wOps a) m (HashKey h)"
    using Cons.prems(2) bv by (elim writeBlock_ops) auto
  with Cons.IH [OF a1(2)] Cons.prems(2) show ?case by simp
qed simp

lemma writeBlocks_info:
  assumes "fold_res (writeBlock x p) bvs a = Inr a'"
    and "distinct (map (Hash \<circ> fst) bvs)" and "(b, v) \<in> set bvs"
  shows "\<exists>d. rlpEncode x (uint (BlockNumber b), v) = Some d \<and>
    apply_batch (wOps a') m (HashKey (Hash b)) = Some d"
  using assms
proof (induction bvs arbitrary: a)
  case (Cons bv bvs)
  obtain b1 v1 where bv: "bv = (b1, v1)" by (cases bv)
  with Cons obtain a1 where a1: "writeBlock x p (b1, v1) a = Inr a1"
    "fold_res (writeBlock x p) bvs a1 = Inr a'" by (auto split: sum.splits)
  show ?case
  proof (cases "(b, v) \<in> set bvs")
    case True
    then show ?thesis using Cons.IH [OF a1(2)] Cons.prems(2) by simp
  next
    case False
    with Cons.prems bv have b: "b1 = b" "v1 = v" by auto
    have "Hash b \<notin> (Hash \<circ> fst) ` set bvs"
      using Cons.prems(2) bv b by (auto simp: image_comp)
    note other = writeBlocks_info_other [OF a1(2) this, of m]
    from a1(1) obtain d where "rlpEncode x (uint (BlockNumber b), v) = Some d"
      "apply_batch (wOps a1) m (HashKey (Hash b)) = Some d"
      unfolding b by (rule writeBlock_ops) auto
    with other show ?thesis by simp
  qed
qed simp

lemma cleanAbove_info: "cleanAbove p h a = Inr a' \<Longrightarrow> apply_batch (wOps a') m (HashKey k) = apply_batch (wOps a) m (HashKey k)"
proof (induction p h a rule: cleanAbove.induct)
  case (1 p h a)
  then show ?case
    by (subst (asm) (2) cleanAbove.simps) (auto split: if_splits sum.splits)
qed

lemma finishCursor_info:
  "finishCursor x c v a = Inr (next, ops) \<Longrightarrow> apply_batch ops m (HashKey k) = apply_batch (wOps a) m (HashKey k)"
  by (auto simp: finishCursor_def setForkScan_def Let_def split: option.splits if_splits sum.splits)

lemma write_block_info:
  assumes "WriteBlockInfosWithForkScan x cdb bs vs c v st = (Inr next, cdb')"
    and "distinct (map Hash bs)" and "i < length bs"
  shows "\<exists>d. rlpEncode x (uint (BlockNumber (bs ! i)), vs ! i) = Some d \<and>
    kv (db cdb') (HashKey (Hash (bs ! i))) = Some d"
proof -
  obtain ops where b: "buildWrite x (db cdb) bs vs c v st = Inr (next, ops)"
    and k: "Commit (db cdb) ops = (Inr (), db cdb')"
    using assms(1) by (rule Write_ok_cases)
  obtain a a' where len: "length bs = length vs"
    and w: "fold_res (writeBlock x (db cdb)) (zip bs vs) (startWrite bs st) = Inr a"
    and cl: "cleanAbove (db cdb) (BlockNumber (last bs)) a = Inr a'"
    and f: "finishCursor x c v a' = Inr (next, ops)"
    using b by (rule buildWrite_cases)
  have "map (Hash \<circ> fst) (zip bs vs) = map Hash bs" using len by (simp flip: map_map)
  moreover have "(bs ! i, vs ! i) \<in> set (zip bs vs)" using assms(3) len by (auto simp: in_set_zip)
  ultimately show ?thesis
    using writeBlocks_info [OF w, of "bs ! i" "vs ! i" "kv (db cdb)"] assms(2)
      pebble_kv.commit_ok [OF k] finishCursor_info [OF f] cleanAbove_info [OF cl]
    by simp
qed

lemma big_Int64_id: "in_int64 i \<Longrightarrow> big_Int64 i = i"
  unfolding in_int64_def big_Int64_def
  by (simp add: sint_sbintrunc' signed_take_bit_int_eq_self)

lemma GetBlockInfoByHash_canon:
  assumes "GetBlockInfoByHash x p h = Inr bi" and "kv p (HashKey h) = Some d"
    and "rlpDecode x d = Some (uint n, vh)"
  shows "bi = \<lparr> ID = h, Height = n, ValidationHash = big_Int64 vh, IsFork = (canon p n \<noteq> Some h) \<rparr>"
  using assms
  by (auto simp: GetBlockInfoByHash_def getBlockHashByNum_def Get_def canon_def big_Uint64_def
      split: if_splits option.splits)

text \<open>
  C13: what was written is what is served. After a successful write, absent read errors and with
  codecs that satisfy the documented laws, asking for a new block by its hash or by its number
  returns its hash, its height and its validation hash, and reports it as canonical.
\<close>

theorem written_block_is_served:
  assumes "WriteBlockInfosWithForkScan x cdb bs vs c v st = (Inr next, cdb')"
    and "ext_codecs x" and "ascending bs" and "index_ok (db cdb)" and "distinct (map Hash bs)"
    and "i < length bs" and "in_int64 (vs ! i)"
    and "\<And>k. \<not> readErr (db cdb') (epoch (db cdb')) k"
  shows "GetBlockInfoByHash x (db cdb') (Hash (bs ! i)) =
      Inr \<lparr> ID = Hash (bs ! i), Height = BlockNumber (bs ! i), ValidationHash = vs ! i, IsFork = False \<rparr> \<and>
    GetBlockInfoByNum x (db cdb') (uint (BlockNumber (bs ! i))) =
      GetBlockInfoByHash x (db cdb') (Hash (bs ! i))"
proof -
  let ?b = "bs ! i" and ?p = "db cdb'"
  obtain d where d: "rlpEncode x (uint (BlockNumber ?b), vs ! i) = Some d"
    "kv ?p (HashKey (Hash ?b)) = Some d"
    using write_block_info [OF assms(1,5,6)] by blast
  note dec = ext_codecs.rlp_roundtrip [OF assms(2) d(1)]
  have can: "canon ?p (BlockNumber ?b) = Some (Hash ?b)"
    using write_refines [OF assms(1,3,4)] find_number_Some [OF assms(3), of ?b] assms(6)
    by (simp add: install_def)
  then obtain e where e: "kv ?p (NumKey (uint (BlockNumber ?b))) = Some e" "length e = 32"
    "BytesToHash e = Hash ?b"
    by (auto simp: canon_def split: option.splits if_splits)
  then have n: "getBlockHashByNum ?p (uint (BlockNumber ?b)) = Inr (Hash ?b)"
    by (simp add: getBlockHashByNum_def Get_def assms(8))
  then have "GetBlockInfoByHash x ?p (Hash ?b) =
      Inr \<lparr> ID = Hash ?b, Height = BlockNumber ?b, ValidationHash = big_Int64 (vs ! i), IsFork = False \<rparr>"
    by (simp add: GetBlockInfoByHash_def Get_def assms(8) d(2) dec big_Uint64_def)
  then show ?thesis
    using n by (simp add: GetBlockInfoByNum_def big_Int64_id [OF assms(7)])
qed

theorem written_block_is_served_witness:
  "\<exists>cdb' :: ConsistencyDB. GetBlockInfoByHash hexExt (db cdb') 7 =
     Inr \<lparr> ID = 7, Height = 3, ValidationHash = 33, IsFork = False \<rparr>"
proof -
  obtain cdb' where w:
    "WriteBlockInfosWithForkScan hexExt exDB [exBlock 3 7] [33] 0 [] None = (Inr None, cdb')"
    using ex_write by blast
  obtain ops where "Commit (db exDB) ops = (Inr (), db cdb')" using w by (rule Write_ok_cases)
  then have r: "\<not> readErr (db cdb') (epoch (db cdb')) k" for k
    unfolding Commit_ok_iff by (simp add: exDB_def emptyPebble_def)
  from written_block_is_served [OF w hexc.ext_codecs_axioms ex_hyps(1,2) _ _ _ r, of 0] show ?thesis
    by (auto simp: exBlock_def in_int64_def)
qed

text \<open>
  C14: a block is reported as canonical exactly when it is the canonical block of its height. For any
  store contents, whenever the lookup of a hash whose record carries a 64-bit height succeeds, the
  fork flag of the answer is false exactly if the index maps that height to this hash; in particular
  a block whose height was unmapped by a shorter chain is a fork.
\<close>

theorem fork_flag_iff_not_canonical:
  assumes "GetBlockInfoByHash x p h = Inr bi" and "kv p (HashKey h) = Some d"
    and "rlpDecode x d = Some (uint n, vh)"
  shows "ID bi = h \<and> Height bi = n \<and> (IsFork bi \<longleftrightarrow> canon p n \<noteq> Some h)"
  using GetBlockInfoByHash_canon [OF assms] by simp

definition exForkPebble :: pebble where
  "exForkPebble = emptyPebble\<lparr> kv := [HashKey 7 \<mapsto> [0xC2, 3, 33]] \<rparr>"

theorem fork_flag_iff_not_canonical_witness:
  "\<exists>bi. GetBlockInfoByHash hexExt exForkPebble 7 = Inr bi \<and> Height bi = 3 \<and> IsFork bi"
proof -
  have d: "rlpDecode hexExt [0xC2, 3, 33] = Some (uint (3 :: u64), 33)"
    using rlp_unpair_pair [OF ex_rlp] by (simp add: hexExt_def)
  have k: "kv exForkPebble (HashKey 7) = Some [0xC2, 3, 33]" by (simp add: exForkPebble_def)
  obtain bi where g: "GetBlockInfoByHash hexExt exForkPebble 7 = Inr bi"
    using d by (simp add: GetBlockInfoByHash_def exForkPebble_def emptyPebble_def Get_def
        getBlockHashByNum_def)
  have "canon exForkPebble 3 = None" by (simp add: canon_def exForkPebble_def emptyPebble_def)
  with g fork_flag_iff_not_canonical [OF g k d] show ?thesis by auto
qed

text \<open>
  The number index ignores the sign. \<^verbatim>\<open>big.Int.Bytes\<close> encodes the absolute value, so a query for a
  negative number answers with the block at the positive height; the block tags \<^verbatim>\<open>finalized\<close> (-3) and
  \<^verbatim>\<open>safe\<close> (-4) of the RPC types are therefore served as heights 3 and 4.
\<close>

theorem negative_number_aliases_height:
  "GetBlockInfoByNum x p (- n) = GetBlockInfoByNum x p n \<and>
   GetBlockInfoByNumOrHash x cdb (Some (- 3), None) = GetBlockInfoByNumOrHash x cdb (Some 3, None) \<and>
   GetBlockInfoByNumOrHash x cdb (Some (- 4), None) = GetBlockInfoByNumOrHash x cdb (Some 4, None)"
proof -
  have k: "NumKey (- m) = NumKey m" for m by (simp add: NumKey_inject)
  have "GetBlockInfoByNum x q (- m) = GetBlockInfoByNum x q m" for q m
    by (simp add: GetBlockInfoByNum_def getBlockHashByNum_def k)
  from this [of p n] this [of "db cdb" 3] this [of "db cdb" 4] show ?thesis
    by (simp add: GetBlockInfoByNumOrHash_def)
qed

end
