(* ===== verification/Retry.thy ===== *)
theory Retry
  imports Prelude
begin

text \<open>
  \<^verbatim>\<open>retryWithBackoff\<close> of \<^verbatim>\<open>check/check.go\<close>, generic in the state the retried call works on. The wait
  starts at 50 ms, doubles, is capped at one second, and the loop gives up once the accumulated wait
  has reached the limit. The lemmas give the exact number of attempts for the limit the program
  uses, and the exact outcome in terms of the first successful attempt.
\<close>

section \<open>The loop\<close>

text \<open>Durations are nanoseconds, as in package \<^verbatim>\<open>time\<close>.\<close>

definition Millisecond :: int where
  "Millisecond = 1000000"

definition Second :: int where
  "Second = 1000000000"

definition s3RetryMaxWait :: int where
  "s3RetryMaxWait = 3 * Second"

text \<open>The next back-off.\<close>

definition nextBackoff :: "int \<Rightarrow> int" where
  "nextBackoff b = (if b < Second then (if b * 2 > Second then Second else b * 2) else b)"

text \<open>
  \<open>ctxErr s\<close> tells whether \<^verbatim>\<open>ctx.Err() != nil\<close> in state \<open>s\<close>; \<open>sleep d s\<close> is the state after the
  \<^verbatim>\<open>select\<close> together with whether it was left by \<^verbatim>\<open>quit\<close> or \<^verbatim>\<open>ctx.Done()\<close> instead of the timer. The test
  \<open>backoff \<le> 0\<close> never holds in the program, where the back-off starts at 50 ms and only grows; it
  makes the recursion total.
\<close>

function retryLoop ::
  "('s \<Rightarrow> bool) \<Rightarrow> (int \<Rightarrow> 's \<Rightarrow> bool \<times> 's) \<Rightarrow> int \<Rightarrow> ('s \<Rightarrow> 'a res \<times> 's) \<Rightarrow> int \<Rightarrow> int \<Rightarrow> 's \<Rightarrow> 'a res \<times> 's"
where
  "retryLoop ctxErr sleep maxWait fn backoff waited s =
     (case fn s of
        (Inr a, s1) \<Rightarrow> (Inr a, s1)
      | (Inl e, s1) \<Rightarrow>
          if waited \<ge> maxWait \<or> backoff \<le> 0 then (Inl (Wrap ''retries exhausted'' e), s1)
          else if ctxErr s1 then (Inl e, s1)
          else (case sleep backoff s1 of
                  (True, s2) \<Rightarrow> (Inl e, s2)
                | (False, s2) \<Rightarrow>
                    retryLoop ctxErr sleep maxWait fn (nextBackoff backoff) (waited + backoff) s2))"
  by pat_completeness auto
termination
  by (relation "measure (\<lambda>(c, l, m, f, b, w, s). nat (m - w))") auto

declare retryLoop.simps [simp del]

definition retryWithBackoff ::
  "('s \<Rightarrow> bool) \<Rightarrow> (int \<Rightarrow> 's \<Rightarrow> bool \<times> 's) \<Rightarrow> int \<Rightarrow> ('s \<Rightarrow> 'a res \<times> 's) \<Rightarrow> 's \<Rightarrow> 'a res \<times> 's" where
  "retryWithBackoff ctxErr sleep maxWait fn s =
     retryLoop ctxErr sleep maxWait fn (50 * Millisecond) 0 s"

section \<open>How often it tries\<close>

text \<open>
  The waits before the second and later attempts, up to the limit. For three seconds they are 50,
  100, 200, 400, 800, 1000 and 1000 ms, so a call is attempted at most eight times.
\<close>

function waits :: "int \<Rightarrow> int \<Rightarrow> int \<Rightarrow> int list" where
  "waits maxWait backoff waited =
     (if waited \<ge> maxWait \<or> backoff \<le> 0 then []
      else backoff # waits maxWait (nextBackoff backoff) (waited + backoff))"
  by pat_completeness auto
termination
  by (relation "measure (\<lambda>(m, b, w). nat (m - w))") auto

declare waits.simps [simp del]

lemma waits_s3:
  "waits s3RetryMaxWait (50 * Millisecond) 0 =
     map (\<lambda>ms. ms * Millisecond) [50, 100, 200, 400, 800, 1000, 1000]"
  by (simp add: waits.simps nextBackoff_def s3RetryMaxWait_def Second_def Millisecond_def)

text \<open>The same loop, driven by the list of waits.\<close>

fun attempts ::
  "('s \<Rightarrow> bool) \<Rightarrow> (int \<Rightarrow> 's \<Rightarrow> bool \<times> 's) \<Rightarrow> ('s \<Rightarrow> 'a res \<times> 's) \<Rightarrow> int list \<Rightarrow> 's \<Rightarrow> 'a res \<times> 's"
where
  "attempts ctxErr sleep fn [] s =
     (case fn s of (Inr a, s1) \<Rightarrow> (Inr a, s1) | (Inl e, s1) \<Rightarrow> (Inl (Wrap ''retries exhausted'' e), s1))"
| "attempts ctxErr sleep fn (d # ds) s =
     (case fn s of
        (Inr a, s1) \<Rightarrow> (Inr a, s1)
      | (Inl e, s1) \<Rightarrow>
          if ctxErr s1 then (Inl e, s1)
          else (case sleep d s1 of
                  (True, s2) \<Rightarrow> (Inl e, s2)
                | (False, s2) \<Rightarrow> attempts ctxErr sleep fn ds s2))"

lemma retryLoop_attempts:
  "retryLoop c l m fn b w s = attempts c l fn (waits m b w) s"
proof (induction c l m fn b w s rule: retryLoop.induct)
  case (1 c l m fn b w s)
  show ?case
  proof (cases "w \<ge> m \<or> b \<le> 0")
    case True
    then show ?thesis
      by (subst retryLoop.simps, subst waits.simps) (auto split: prod.splits sum.splits)
  next
    case False
    then have w: "waits m b w = b # waits m (nextBackoff b) (w + b)"
      by (subst waits.simps) auto
    show ?thesis
    proof (cases "fn s")
      case (Pair r s1)
      show ?thesis
      proof (cases r)
        case (Inr a)
        then show ?thesis using Pair by (subst retryLoop.simps) (simp add: w)
      next
        case (Inl e)
        then show ?thesis
          using Pair False "1" [of r s1 e]
          by (subst retryLoop.simps) (auto simp: w split: prod.splits bool.splits)
      qed
    qed
  qed
qed

lemma retryWithBackoff_s3:
  "retryWithBackoff c l s3RetryMaxWait fn s =
     attempts c l fn (map (\<lambda>ms. ms * Millisecond) [50, 100, 200, 400, 800, 1000, 1000]) s"
  by (simp only: retryWithBackoff_def retryLoop_attempts waits_s3)

section \<open>Outcomes\<close>

text \<open>A property of the state kept by the call and by sleeping is kept by the loop.\<close>

lemma attempts_inv:
  assumes "attempts c l fn ds s = (r, s')" and "P s"
    and "\<And>s r s'. P s \<Longrightarrow> fn s = (r, s') \<Longrightarrow> P s'" and "\<And>d s b s'. P s \<Longrightarrow> l d s = (b, s') \<Longrightarrow> P s'"
  shows "P s'"
  using assms(1,2)
proof (induction ds arbitrary: s)
  case Nil
  then show ?case
    using assms(3) by (auto split: prod.splits sum.splits)
next
  case (Cons d ds)
  obtain q s1 where f: "fn s = (q, s1)" by (cases "fn s")
  then have P1: "P s1" using assms(3) Cons.prems(2) by blast
  obtain b s2 where sl: "l d s1 = (b, s2)" by (cases "l d s1")
  then have P2: "P s2" using assms(4) P1 by blast
  show ?case
    using Cons.prems(1) Cons.IH [OF _ P2] P1 P2 f sl
    by (cases q; cases b) (auto split: if_splits)
qed

text \<open>A success of the loop is a success of the call in some state reached by it.\<close>

lemma attempts_ok:
  assumes "attempts c l fn ds s = (Inr a, s')" and "P s"
    and "\<And>s r s'. P s \<Longrightarrow> fn s = (r, s') \<Longrightarrow> P s'" and "\<And>d s b s'. P s \<Longrightarrow> l d s = (b, s') \<Longrightarrow> P s'"
  shows "\<exists>t. P t \<and> fn t = (Inr a, s')"
  using assms(1,2)
proof (induction ds arbitrary: s)
  case Nil
  then show ?case by (auto split: prod.splits sum.splits)
next
  case (Cons d ds)
  obtain q s1 where f: "fn s = (q, s1)" by (cases "fn s")
  then have P1: "P s1" using assms(3) Cons.prems(2) by blast
  obtain b s2 where sl: "l d s1 = (b, s2)" by (cases "l d s1")
  then have P2: "P s2" using assms(4) P1 by blast
  show ?case
    using Cons.prems Cons.IH [OF _ P2] f sl
    by (cases q; cases b) (auto split: if_splits)
qed

lemma retryWithBackoff_inv:
  assumes "retryWithBackoff c l m fn s = (r, s')" and "P s"
    and "\<And>s r s'. P s \<Longrightarrow> fn s = (r, s') \<Longrightarrow> P s'" and "\<And>d s b s'. P s \<Longrightarrow> l d s = (b, s') \<Longrightarrow> P s'"
  shows "P s'"
  using assms unfolding retryWithBackoff_def retryLoop_attempts by (rule attempts_inv)

lemma retryWithBackoff_ok:
  assumes "retryWithBackoff c l m fn s = (Inr a, s')" and "P s"
    and "\<And>s r s'. P s \<Longrightarrow> fn s = (r, s') \<Longrightarrow> P s'" and "\<And>d s b s'. P s \<Longrightarrow> l d s = (b, s') \<Longrightarrow> P s'"
  shows "\<exists>t. P t \<and> fn t = (Inr a, s')"
  using assms unfolding retryWithBackoff_def retryLoop_attempts by (rule attempts_ok)

lemma retryWithBackoff_first: "fn s = (Inr a, s') \<Longrightarrow> retryWithBackoff c l m fn s = (Inr a, s')"
  by (simp add: retryWithBackoff_def retryLoop.simps)

text \<open>
  The state before attempt number \<open>i\<close> (from 0) when all earlier attempts failed and no wait was
  interrupted.
\<close>

fun before :: "(int \<Rightarrow> 's \<Rightarrow> bool \<times> 's) \<Rightarrow> ('s \<Rightarrow> 'a res \<times> 's) \<Rightarrow> int list \<Rightarrow> nat \<Rightarrow> 's \<Rightarrow> 's" where
  "before sleep fn ds 0 s = s"
| "before sleep fn [] (Suc i) s = s"
| "before sleep fn (d # ds) (Suc i) s = before sleep fn ds i (snd (sleep d (snd (fn s))))"

lemma attempts_at:
  assumes "i \<le> length ds"
    and "\<And>j. j < i \<Longrightarrow> \<exists>e. fst (fn (before l fn ds j s)) = Inl e"
    and "\<And>s. \<not> c s" and "\<And>d s. \<not> fst (l d s)"
  shows "attempts c l fn ds s = attempts c l fn (drop i ds) (before l fn ds i s)"
  using assms(1,2)
proof (induction i arbitrary: ds s)
  case (Suc i)
  then obtain d ds' where ds: "ds = d # ds'" by (cases ds) auto
  obtain e where e: "fst (fn s) = Inl e" using Suc.prems(2) [of 0] ds by auto
  have "attempts c l fn ds s = attempts c l fn ds' (snd (l d (snd (fn s))))"
    using e assms(3) assms(4) [of d "snd (fn s)"] unfolding ds
    by (cases "fn s"; cases "l d (snd (fn s))") (auto split: bool.splits)
  also have "\<dots> = attempts c l fn (drop i ds') (before l fn ds' i (snd (l d (snd (fn s)))))"
  proof (rule Suc.IH)
    show "i \<le> length ds'" using Suc.prems(1) ds by simp
    show "\<exists>e. fst (fn (before l fn ds' j (snd (l d (snd (fn s)))))) = Inl e" if "j < i" for j
      using Suc.prems(2) [of "Suc j"] that ds by simp
  qed
  finally show ?case by (simp add: ds)
qed simp

text \<open>The waits of the program's S3 calls.\<close>

abbreviation s3Waits :: "int list" where
  "s3Waits \<equiv> map (\<lambda>ms. ms * Millisecond) [50, 100, 200, 400, 800, 1000, 1000]"

text \<open>
  C20: a retried S3 call is attempted at most eight times. When no wait is interrupted: if the
  first \<open>i\<close> attempts fail and attempt number \<open>i\<close> (from 0, \<open>i \<le> 7\<close>) succeeds, the loop returns that
  success in the state it left; if the first eight attempts all fail, the loop returns the eighth
  error, wrapped, in the state after the eighth attempt, having waited 3.55 seconds in all.
\<close>

theorem retry_at_most_eight_attempts:
  assumes "\<And>s. \<not> ctxErr s" and "\<And>d s. \<not> fst (sleep d s)"
  shows "(\<forall>i\<le>7. \<forall>a s'. (\<forall>j<i. \<exists>e. fst (fn (before sleep fn s3Waits j s)) = Inl e) \<longrightarrow>
            fn (before sleep fn s3Waits i s) = (Inr a, s') \<longrightarrow>
            retryWithBackoff ctxErr sleep s3RetryMaxWait fn s = (Inr a, s')) \<and>
    (\<forall>e s'. (\<forall>j<7. \<exists>e. fst (fn (before sleep fn s3Waits j s)) = Inl e) \<longrightarrow>
            fn (before sleep fn s3Waits 7 s) = (Inl e, s') \<longrightarrow>
            retryWithBackoff ctxErr sleep s3RetryMaxWait fn s = (Inl (Wrap ''retries exhausted'' e), s')) \<and>
    sum_list s3Waits = 3550 * Millisecond"
proof (intro conjI allI impI)
  fix i a s'
  assume i: "i \<le> (7::nat)" and f: "\<forall>j<i. \<exists>e. fst (fn (before sleep fn s3Waits j s)) = Inl e"
    and ok: "fn (before sleep fn s3Waits i s) = (Inr a, s')"
  have "attempts ctxErr sleep fn s3Waits s = attempts ctxErr sleep fn (drop i s3Waits) (before sleep fn s3Waits i s)"
    by (rule attempts_at) (use i f assms in auto)
  also have "\<dots> = (Inr a, s')" using ok by (cases "drop i s3Waits") simp_all
  finally show "retryWithBackoff ctxErr sleep s3RetryMaxWait fn s = (Inr a, s')"
    by (simp only: retryWithBackoff_s3)
next
  fix e s'
  assume f: "\<forall>j<7. \<exists>e. fst (fn (before sleep fn s3Waits j s)) = Inl e"
    and bad: "fn (before sleep fn s3Waits 7 s) = (Inl e, s')"
  have "attempts ctxErr sleep fn s3Waits s = attempts ctxErr sleep fn (drop 7 s3Waits) (before sleep fn s3Waits 7 s)"
    by (rule attempts_at) (use f assms in auto)
  also have "\<dots> = (Inl (Wrap ''retries exhausted'' e), s')" using bad by simp
  finally show "retryWithBackoff ctxErr sleep s3RetryMaxWait fn s = (Inl (Wrap ''retries exhausted'' e), s')"
    by (simp only: retryWithBackoff_s3)
next
  show "sum_list s3Waits = 3550 * Millisecond" by (simp add: Millisecond_def)
qed

text \<open>A call that counts its attempts and succeeds at the third.\<close>

definition thirdTime :: "nat \<Rightarrow> nat res \<times> nat" where
  "thirdTime n = (if n < 2 then Inl IOErr else Inr n, Suc n)"

theorem retry_at_most_eight_attempts_witness:
  "retryWithBackoff (\<lambda>_. False) (\<lambda>_ n. (False, n)) s3RetryMaxWait thirdTime 0 = (Inr 2, 3)"
proof -
  let ?sl = "\<lambda>(_::int) (n::nat). (False, n)"
  have "\<forall>j<2. \<exists>e. fst (thirdTime (before ?sl thirdTime s3Waits j 0)) = Inl e"
    by (simp add: thirdTime_def numeral_2_eq_2 less_Suc_eq)
  moreover have "thirdTime (before ?sl thirdTime s3Waits 2 0) = (Inr 2, 3)"
    by (simp add: thirdTime_def numeral_2_eq_2)
  ultimately show ?thesis
    using conjunct1 [OF retry_at_most_eight_attempts [of "\<lambda>_. False" ?sl thirdTime 0], rule_format, of 2]
    by simp
qed

end
