(* ===== verification/Etcd.thy ===== *)
theory Etcd
  imports GoLib
begin

text \<open>
  The key-value store the checkers share, by its documented interface: keys with a value and the
  lease they are attached to (\<open>0\<close> for none), leases that are granted, revoked and expire, and atomic
  transactions. Revoking a lease, or its expiry, deletes the keys attached to it; a put that names a
  lease which is not alive fails, and with it the whole transaction. The lemmas are the lookup laws
  and the well-formedness that every operation keeps.
\<close>

type_synonym etcdKVs = "(string \<times> string \<times> int) list"

record etcd =
  pairs :: etcdKVs
  leases :: "int list"
  nextLease :: int

datatype etcdOp = OpPut string string int | OpDelete string

datatype etcdCmp = CmpAbsent string | CmpValue string string

definition etcdGet :: "string \<Rightarrow> etcd \<Rightarrow> string option" where
  "etcdGet k s = map_option fst (map_of (pairs s) k)"

definition holdsCmp :: "etcd \<Rightarrow> etcdCmp \<Rightarrow> bool" where
  "holdsCmp s c = (case c of
     CmpAbsent k \<Rightarrow> map_of (pairs s) k = None
   | CmpValue k v \<Rightarrow> etcdGet k s = Some v)"

definition opOK :: "etcd \<Rightarrow> etcdOp \<Rightarrow> bool" where
  "opOK s op = (case op of OpPut k v l \<Rightarrow> l = 0 \<or> l \<in> set (leases s) | OpDelete k \<Rightarrow> True)"

definition runOp :: "etcdOp \<Rightarrow> etcd \<Rightarrow> etcd" where
  "runOp op s = (case op of
     OpPut k v l \<Rightarrow> s\<lparr>pairs := AList.update k (v, l) (pairs s)\<rparr>
   | OpDelete k \<Rightarrow> s\<lparr>pairs := AList.delete k (pairs s)\<rparr>)"

text \<open>
  The key an operation touches and what it leaves there. A transaction may not put a key twice, nor put
  and delete it.
\<close>

definition opKey :: "etcdOp \<Rightarrow> string" where
  "opKey op = (case op of OpPut k v l \<Rightarrow> k | OpDelete k \<Rightarrow> k)"

definition opVal :: "etcdOp \<Rightarrow> (string \<times> int) option" where
  "opVal op = (case op of OpPut k v l \<Rightarrow> Some (v, l) | OpDelete k \<Rightarrow> None)"

definition isPut :: "etcdOp \<Rightarrow> bool" where
  "isPut op = (case op of OpPut k v l \<Rightarrow> True | OpDelete k \<Rightarrow> False)"

definition noConflict :: "etcdOp list \<Rightarrow> bool" where
  "noConflict ops = (distinct (map opKey (filter isPut ops)) \<and>
     opKey ` set (filter isPut ops) \<inter> opKey ` set (filter (\<lambda>x. \<not> isPut x) ops) = {})"

text \<open>A transaction runs all operations or, when they conflict or one names a dead lease, none.\<close>

definition runOps :: "etcdOp list \<Rightarrow> etcd \<Rightarrow> etcd option" where
  "runOps ops s = (if noConflict ops \<and> list_all (opOK s) ops then Some (fold runOp ops s) else None)"

definition grantLease :: "etcd \<Rightarrow> int \<times> etcd" where
  "grantLease s = (nextLease s, s\<lparr>leases := nextLease s # leases s, nextLease := nextLease s + 1\<rparr>)"

text \<open>Revocation by the client or expiry at the server.\<close>

definition dropLease :: "int \<Rightarrow> etcd \<Rightarrow> etcd" where
  "dropLease l s = (if l \<in> set (leases s)
     then s\<lparr>leases := filter (\<lambda>x. x \<noteq> l) (leases s), pairs := filter (\<lambda>(k, v, l'). l' \<noteq> l) (pairs s)\<rparr>
     else s)"

section \<open>Well-formedness\<close>

text \<open>Keys are unique, attached leases are alive, and fresh leases differ from all earlier ones.\<close>

definition etcd_wf :: "etcd \<Rightarrow> bool" where
  "etcd_wf s = (distinct (map fst (pairs s)) \<and> 0 < nextLease s \<and>
     (\<forall>k v l. map_of (pairs s) k = Some (v, l) \<longrightarrow> l = 0 \<or> l \<in> set (leases s)) \<and>
     (\<forall>l \<in> set (leases s). 0 < l \<and> l < nextLease s))"

lemma map_of_filter_distinct:
  "distinct (map fst xs) \<Longrightarrow> map_of (filter P xs) k =
    (case map_of xs k of None \<Rightarrow> None | Some v \<Rightarrow> if P (k, v) then Some v else None)"
proof (induction xs)
  case (Cons x xs)
  have "map_of xs (fst x) = None" using Cons.prems by (simp add: map_of_eq_None_iff)
  with Cons show ?case by (cases x) (auto split: option.splits)
qed simp

lemma runOp_lookup:
  "map_of (pairs (runOp op s)) k = (case op of
     OpPut k' v l \<Rightarrow> if k = k' then Some (v, l) else map_of (pairs s) k
   | OpDelete k' \<Rightarrow> if k = k' then None else map_of (pairs s) k)"
  by (auto simp: runOp_def update_conv' delete_conv' split: etcdOp.splits)

lemma runOp_leases [simp]: "leases (runOp op s) = leases s" "nextLease (runOp op s) = nextLease s"
  by (simp_all add: runOp_def split: etcdOp.splits)

lemma opOK_runOp [simp]: "opOK (runOp op s) = opOK s"
  by (rule ext) (simp add: opOK_def split: etcdOp.splits)

lemma etcd_wf_runOp: "etcd_wf s \<Longrightarrow> opOK s op \<Longrightarrow> etcd_wf (runOp op s)"
  by (auto simp: etcd_wf_def runOp_lookup opOK_def split: etcdOp.splits if_splits)
    (auto simp: runOp_def distinct_update distinct_delete)

lemma fold_runOp_leases [simp]:
  "leases (fold runOp ops s) = leases s" "nextLease (fold runOp ops s) = nextLease s"
  by (induction ops arbitrary: s) auto

lemma etcd_wf_runOps: "etcd_wf s \<Longrightarrow> runOps ops s = Some s' \<Longrightarrow> etcd_wf s'"
proof -
  have "etcd_wf s \<Longrightarrow> list_all (opOK s) ops \<Longrightarrow> etcd_wf (fold runOp ops s)"
    by (induction ops arbitrary: s) (simp_all add: etcd_wf_runOp)
  then show "etcd_wf s \<Longrightarrow> runOps ops s = Some s' \<Longrightarrow> etcd_wf s'"
    by (auto simp: runOps_def split: if_splits)
qed

lemma runOp_at: "map_of (pairs (runOp op s)) k = (if k = opKey op then opVal op else map_of (pairs s) k)"
  by (simp add: runOp_lookup opKey_def opVal_def split: etcdOp.splits)

lemma fold_runOp_untouched:
  "k \<notin> opKey ` set ops \<Longrightarrow> map_of (pairs (fold runOp ops s)) k = map_of (pairs s) k"
  by (induction ops arbitrary: s) (auto simp: runOp_at)

lemma noConflict_puts: "noConflict [OpPut a x l, OpPut b y m] \<longleftrightarrow> a \<noteq> b"
  by (simp add: noConflict_def isPut_def opKey_def)

lemma noConflict_same:
  assumes "noConflict (ops @ [x])" and "op \<in> set ops" and "opKey op = opKey x"
  shows "opVal op = opVal x"
proof (cases "isPut op")
  case True
  then have "isPut x \<Longrightarrow> False" using assms by (auto simp: noConflict_def image_iff)
  moreover have "\<not> isPut x \<Longrightarrow> False" using assms True by (auto simp: noConflict_def image_iff)
  ultimately show ?thesis by blast
next
  case False
  then have "\<not> isPut x" using assms by (auto simp: noConflict_def image_iff)
  with False show ?thesis by (simp add: isPut_def opVal_def split: etcdOp.splits)
qed

lemma fold_runOp_at:
  "noConflict ops \<Longrightarrow> op \<in> set ops \<Longrightarrow> map_of (pairs (fold runOp ops s)) (opKey op) = opVal op"
proof (induction ops rule: rev_induct)
  case (snoc x ops)
  have "noConflict ops" using snoc.prems(1) by (auto simp: noConflict_def split: if_splits)
  then show ?case using snoc noConflict_same [OF snoc.prems(1)] by (auto simp: runOp_at)
qed simp

lemma dropLease_lookup:
  assumes "etcd_wf s" and "l \<noteq> 0"
  shows "map_of (pairs (dropLease l s)) k =
    (case map_of (pairs s) k of None \<Rightarrow> None | Some (v, l') \<Rightarrow> if l' = l then None else Some (v, l'))"
proof (cases "l \<in> set (leases s)")
  case True
  have "distinct (map fst (pairs s))" using assms(1) by (simp add: etcd_wf_def)
  from map_of_filter_distinct [OF this, of "\<lambda>(k, v, l'). l' \<noteq> l" k] show ?thesis
    using True by (auto simp: dropLease_def split: option.splits)
next
  case False
  then show ?thesis
    using assms by (auto simp: dropLease_def etcd_wf_def split: option.splits) blast
qed

lemma etcd_wf_dropLease: "etcd_wf s \<Longrightarrow> l \<noteq> 0 \<Longrightarrow> etcd_wf (dropLease l s)"
proof -
  assume wf: "etcd_wf s" and l: "l \<noteq> 0"
  have "distinct (map fst (pairs (dropLease l s)))"
    using wf by (auto simp: etcd_wf_def dropLease_def distinct_map_filter)
  moreover have "leases (dropLease l s) = filter (\<lambda>x. x \<noteq> l) (leases s)" "nextLease (dropLease l s) = nextLease s"
    by (auto simp: dropLease_def filter_id_conv intro: sym)
  ultimately show ?thesis
    using wf by (auto simp: etcd_wf_def dropLease_lookup [OF wf l] split: option.splits if_splits)
qed

lemma etcd_wf_grantLease: "etcd_wf s \<Longrightarrow> grantLease s = (l, s') \<Longrightarrow> etcd_wf s' \<and> 0 < l \<and> l \<notin> set (leases s)"
  by (auto simp: etcd_wf_def grantLease_def) force+

end
