(* ===== verification/Nodes.thy ===== *)
theory Nodes
  imports ForkState Etcd
begin

text \<open>
  Package \<^verbatim>\<open>nodes\<close>: the registry of replicas. \<^verbatim>\<open>node.go\<close> asks one replica for its height over JSON-RPC and
  classifies it; \<^verbatim>\<open>map.go\<close> keeps the map of replicas, filled from etcd and followed by a watch with
  reconnection. The HTTP exchange and the answers of etcd are parameters. The lemmas show which
  state and which change a check reports, that the JSON of a node is read back, and that the map
  follows the registry in etcd through lost connections and failed reloads.
\<close>

section \<open>Nodes\<close>

datatype ChangeType = NoChange | UpdateNode | DelNode

record Node =
  StateType :: u64
  Address :: string
  Port :: int
  NodeType :: u64
  Lease :: int

definition Equal :: "Node \<Rightarrow> Node option \<Rightarrow> bool" where
  "Equal node other = (case other of
     None \<Rightarrow> False
   | Some o' \<Rightarrow> StateType node = StateType o' \<and> Address node = Address o' \<and> Port node = Port o' \<and>
       NodeType node = NodeType o')"

record NodeWithHeight =
  nNode :: Node
  LatestBlockNumber :: u64
  nChangeType :: ChangeType

record JsonRpcReq =
  reqID :: int
  reqJsonRpc :: string
  Method :: string
  Params :: "json list"

record ErrorRsp =
  Code :: int
  Message :: string

record JsonRpcRsp =
  rspID :: int
  rspJsonRpc :: string
  rspResult :: "json option"
  rspError :: "ErrorRsp option"

section \<open>Reading numbers with base prefixes\<close>

text \<open>
  \<^verbatim>\<open>strconv.ParseInt(s, 0, 64)\<close>: an optional sign; base 2, 8, 16 after \<^verbatim>\<open>0b\<close>, \<^verbatim>\<open>0o\<close>, \<^verbatim>\<open>0x\<close>, base 8 after any
  other leading \<^verbatim>\<open>0\<close>, else base 10; single underscores between digits; the value must fit 64 bits.
\<close>

definition low_char :: "char \<Rightarrow> char" where
  "low_char c = ascii_lower c"

definition digit_val :: "char \<Rightarrow> nat option" where
  "digit_val c = (let n = (of_char c :: nat); m = (of_char (low_char c) :: nat) in
     if 48 \<le> n \<and> n \<le> 57 then Some (n - 48)
     else if 97 \<le> m \<and> m \<le> 122 then Some (m - 87)
     else None)"

definition base_prefix :: "string \<Rightarrow> nat \<times> string" where
  "base_prefix s = (case s of
     z # s1 \<Rightarrow>
       if z = CHR ''0'' then
         (case s1 of
            b # d # r \<Rightarrow>
              if low_char b = CHR ''b'' then (2, d # r)
              else if low_char b = CHR ''o'' then (8, d # r)
              else if low_char b = CHR ''x'' then (16, d # r)
              else (8, s1)
          | _ \<Rightarrow> (8, s1))
       else (10, s)
   | [] \<Rightarrow> (10, s))"

text \<open>The digits, skipping underscores; \<open>None\<close> at a character that is no digit of the base.\<close>

fun digits_base :: "nat \<Rightarrow> string \<Rightarrow> nat \<Rightarrow> nat option" where
  "digits_base b [] acc = Some acc"
| "digits_base b (c # cs) acc =
     (if c = CHR ''_'' then digits_base b cs acc
      else (case digit_val c of
              None \<Rightarrow> None
            | Some d \<Rightarrow> if d < b then digits_base b cs (acc * b + d) else None))"

text \<open>\<^verbatim>\<open>underscoreOK\<close>: \<open>saw\<close> is the class of the last character (\<^verbatim>\<open>^\<close>, \<^verbatim>\<open>0\<close>, \<^verbatim>\<open>_\<close> or \<^verbatim>\<open>!\<close>).\<close>

fun underscores :: "bool \<Rightarrow> char \<Rightarrow> string \<Rightarrow> bool" where
  "underscores hx saw [] = (saw \<noteq> CHR ''_'')"
| "underscores hx saw (c # cs) =
     (if is_digit c \<or> (hx \<and> (case digit_val c of None \<Rightarrow> False | Some d \<Rightarrow> 10 \<le> d \<and> d \<le> 15)) then underscores hx CHR ''0'' cs
      else if c = CHR ''_'' then (if saw \<noteq> CHR ''0'' then False else underscores hx CHR ''_'' cs)
      else if saw = CHR ''_'' then False
      else underscores hx CHR ''!'' cs)"

definition underscoreOK :: "string \<Rightarrow> bool" where
  "underscoreOK s = (case s of
     z # b # r \<Rightarrow>
       if z = CHR ''0'' \<and> low_char b \<in> {CHR ''b'', CHR ''o'', CHR ''x''}
       then underscores (low_char b = CHR ''x'') CHR ''0'' r
       else underscores False CHR ''^'' s
   | _ \<Rightarrow> underscores False CHR ''^'' s)"

definition ParseUint0 :: "string \<Rightarrow> nat option" where
  "ParseUint0 s =
     (if s = [] then None
      else (case base_prefix s of (b, r) \<Rightarrow>
        (case digits_base b r 0 of
           None \<Rightarrow> None
         | Some n \<Rightarrow> if CHR ''_'' \<in> set s \<and> \<not> underscoreOK s then None else Some n)))"

definition ParseInt0 :: "string \<Rightarrow> int option" where
  "ParseInt0 s = (case s of
     [] \<Rightarrow> None
   | c # r \<Rightarrow>
       (let neg = (c = CHR ''-''); u = (if c = CHR ''-'' \<or> c = CHR ''+'' then r else s) in
        case ParseUint0 u of
          None \<Rightarrow> None
        | Some n \<Rightarrow>
            if \<not> neg \<and> n \<ge> 2 ^ 63 then None
            else if neg \<and> n > 2 ^ 63 then None
            else Some (if neg then - int n else int n)))"

section \<open>Asking a replica for its height\<close>

definition errorRsp_field :: "string \<times> json \<Rightarrow> ErrorRsp \<Rightarrow> ErrorRsp res" where
  "errorRsp_field m r = (case m of (k, v) \<Rightarrow>
     if EqualFold k ''code''
     then (case dec_int v (Code r) of Inl e \<Rightarrow> Inl e | Inr i \<Rightarrow> Inr (r\<lparr>Code := i\<rparr>))
     else if EqualFold k ''message''
     then (case dec_string v (Message r) of Inl e \<Rightarrow> Inl e | Inr s \<Rightarrow> Inr (r\<lparr>Message := s\<rparr>))
     else Inr r)"

definition dec_errorRsp :: "json \<Rightarrow> ErrorRsp option \<Rightarrow> ErrorRsp option res" where
  "dec_errorRsp j old = (case j of
     JNull \<Rightarrow> Inr None
   | JObj ms \<Rightarrow>
       (case fold_res errorRsp_field ms (case old of None \<Rightarrow> \<lparr> Code = 0, Message = [] \<rparr> | Some r \<Rightarrow> r) of
          Inl e \<Rightarrow> Inl e | Inr r \<Rightarrow> Inr (Some r))
   | _ \<Rightarrow> Inl jsonErr)"

definition rsp_field :: "string \<times> json \<Rightarrow> JsonRpcRsp \<Rightarrow> JsonRpcRsp res" where
  "rsp_field m r = (case m of (k, v) \<Rightarrow>
     if EqualFold k ''id''
     then (case dec_int v (rspID r) of Inl e \<Rightarrow> Inl e | Inr i \<Rightarrow> Inr (r\<lparr>rspID := i\<rparr>))
     else if EqualFold k ''jsonrpc''
     then (case dec_string v (rspJsonRpc r) of Inl e \<Rightarrow> Inl e | Inr s \<Rightarrow> Inr (r\<lparr>rspJsonRpc := s\<rparr>))
     else if EqualFold k ''result''
     then Inr (r\<lparr>rspResult := (if v = JNull then None else Some v)\<rparr>)
     else if EqualFold k ''error''
     then (case dec_errorRsp v (rspError r) of Inl e \<Rightarrow> Inl e | Inr x \<Rightarrow> Inr (r\<lparr>rspError := x\<rparr>))
     else Inr r)"

text \<open>\<^verbatim>\<open>json.NewDecoder(body).Decode\<close>: the first JSON value of the body; what follows it is not read.\<close>

definition decodeRsp :: "string \<Rightarrow> JsonRpcRsp res" where
  "decodeRsp body = (let zero = \<lparr> rspID = 0, rspJsonRpc = [], rspResult = None, rspError = None \<rparr> in
     case pv (Suc (length body)) body of
       None \<Rightarrow> Inl jsonErr
     | Some (JNull, _) \<Rightarrow> Inr zero
     | Some (JObj ms, _) \<Rightarrow> fold_res rsp_field ms zero
     | _ \<Rightarrow> Inl jsonErr)"

definition reqBody :: string where
  "reqBody = json_print (JObj [(''id'', JNum ''1''), (''jsonrpc'', JStr ''2.0''),
     (''method'', JStr ''eth_blockNumber''), (''params'', JArr [])])"

definition nodeURL :: "Node \<Rightarrow> string" where
  "nodeURL node = (let url = Address node @ '':'' @ fmt_d (Port node) in
     if has_prefix url ''http://'' then url else ''http://'' @ url)"

text \<open>An HTTP POST: URL, body and timeout to the body of the answer, or the error of the client.\<close>

type_synonym http = "string \<Rightarrow> string \<Rightarrow> int \<Rightarrow> string res"

definition EthBlockNumber :: "http \<Rightarrow> Node \<Rightarrow> int \<Rightarrow> u64 res" where
  "EthBlockNumber post node timeout =
     (case post (nodeURL node) reqBody timeout of
        Inl e \<Rightarrow> Inl e
      | Inr body \<Rightarrow>
          (case decodeRsp body of
             Inl e \<Rightarrow> Inl e
           | Inr rsp \<Rightarrow>
               (case rspResult rsp of
                  Some (JStr s) \<Rightarrow>
                    (case ParseInt0 s of
                       None \<Rightarrow> Inl (Msg ''eth_blockNumber returns invalid block number'')
                     | Some i \<Rightarrow> Inr (word_of_int i))
                | _ \<Rightarrow> Inl (Msg ''eth_blockNumber returns invalid block number''))))"

definition checkedState :: "u64 \<Rightarrow> u64 res \<Rightarrow> u64" where
  "checkedState kafkaLatest h = (case h of Inl _ \<Rightarrow> 3 | Inr n \<Rightarrow> if n \<ge> kafkaLatest then 1 else 2)"

definition Check :: "http \<Rightarrow> Node \<Rightarrow> u64 \<Rightarrow> int \<Rightarrow> NodeWithHeight" where
  "Check post node kafkaLatest timeout =
     (let h = EthBlockNumber post node timeout; st = checkedState kafkaLatest h in
      \<lparr> nNode = node\<lparr>StateType := st\<rparr>,
        LatestBlockNumber = (case h of Inl _ \<Rightarrow> 0 | Inr n \<Rightarrow> n),
        nChangeType =
          (if StateType node \<noteq> st
           then (if st = 3 \<and> Lease node = 0 then DelNode else UpdateNode)
           else NoChange) \<rparr>)"

section \<open>JSON of a node\<close>

definition node_json :: "Node \<Rightarrow> json" where
  "node_json n = JObj [(''stateType'', u64_json (StateType n)), (''address'', JStr (Address n)),
     (''port'', JNum (fmt_d (Port n))), (''nodeType'', u64_json (NodeType n))]"

definition marshalNode :: "Node \<Rightarrow> string" where
  "marshalNode n = json_print (node_json n)"

definition node_field :: "string \<times> json \<Rightarrow> Node \<Rightarrow> Node res" where
  "node_field m n = (case m of (k, v) \<Rightarrow>
     if EqualFold k ''stateType''
     then (case dec_u64 v (StateType n) of Inl e \<Rightarrow> Inl e | Inr w \<Rightarrow> Inr (n\<lparr>StateType := w\<rparr>))
     else if EqualFold k ''address''
     then (case dec_string v (Address n) of Inl e \<Rightarrow> Inl e | Inr s \<Rightarrow> Inr (n\<lparr>Address := s\<rparr>))
     else if EqualFold k ''port''
     then (case dec_int v (Port n) of Inl e \<Rightarrow> Inl e | Inr i \<Rightarrow> Inr (n\<lparr>Port := i\<rparr>))
     else if EqualFold k ''nodeType''
     then (case dec_u64 v (NodeType n) of Inl e \<Rightarrow> Inl e | Inr w \<Rightarrow> Inr (n\<lparr>NodeType := w\<rparr>))
     else Inr n)"

definition zeroNode :: Node where
  "zeroNode = \<lparr> StateType = 0, Address = [], Port = 0, NodeType = 0, Lease = 0 \<rparr>"

definition unmarshalNode :: "string \<Rightarrow> Node res" where
  "unmarshalNode s = (case json_parse s of
     Some (JObj ms) \<Rightarrow> fold_res node_field ms zeroNode
   | Some JNull \<Rightarrow> Inr zeroNode
   | _ \<Rightarrow> Inl jsonErr)"

section \<open>The map of nodes\<close>

text \<open>
  \<^verbatim>\<open>RWMap\<close>: the Go map as an association list, and what the watch needs; \<open>watchCtx\<close> tells whether the
  watch context, once there is one, is cancelled.
\<close>

record RWMap =
  nodeMap :: "(string \<times> Node) list"
  mChainID :: int
  mVersion :: string
  watchCtx :: "bool option"

definition NewRWMap :: RWMap where
  "NewRWMap = \<lparr> nodeMap = [], mChainID = 0, mVersion = [], watchCtx = None \<rparr>"

definition getNodesPrefix :: "RWMap \<Rightarrow> string" where
  "getNodesPrefix m =
     (if mVersion m \<noteq> [] then fmt_d (mChainID m) @ ''/'' @ mVersion m @ ''/nodes/''
      else fmt_d (mChainID m) @ ''/nodes/'')"

definition GetByIP :: "string \<Rightarrow> RWMap \<Rightarrow> Node" where
  "GetByIP ip m = (case map_of (nodeMap m) ip of None \<Rightarrow> zeroNode | Some n \<Rightarrow> n)"

definition SetByIP :: "string \<Rightarrow> Node \<Rightarrow> RWMap \<Rightarrow> RWMap" where
  "SetByIP ip node m = (case map_of (nodeMap m) ip of
     Some old \<Rightarrow> if Equal old (Some node) then m else m\<lparr>nodeMap := AList.update ip node (nodeMap m)\<rparr>
   | None \<Rightarrow> m\<lparr>nodeMap := AList.update ip node (nodeMap m)\<rparr>)"

definition DeleteByIP :: "string \<Rightarrow> RWMap \<Rightarrow> RWMap" where
  "DeleteByIP ip m = m\<lparr>nodeMap := AList.delete ip (nodeMap m)\<rparr>"

definition Clear :: "RWMap \<Rightarrow> RWMap" where
  "Clear m = m\<lparr>nodeMap := []\<rparr>"

definition GetAll :: "RWMap \<Rightarrow> Node list" where
  "GetAll m = map snd (nodeMap m)"

text \<open>The checks run concurrently and are independent; their results come in any order.\<close>

definition CheckAll :: "http \<Rightarrow> u64 \<Rightarrow> int \<Rightarrow> RWMap \<Rightarrow> NodeWithHeight list" where
  "CheckAll post kafkaLatest timeout m = map (\<lambda>n. Check post n kafkaLatest timeout) (GetAll m)"

subsection \<open>Loading from etcd\<close>

record KeyValue =
  kvKey :: string
  kvValue :: string
  kvLease :: int
  kvModRevision :: int

definition loadKv :: "string \<Rightarrow> KeyValue \<Rightarrow> RWMap \<Rightarrow> RWMap" where
  "loadKv prefix pair m =
     (if kvValue pair = [] then m
      else (case unmarshalNode (kvValue pair) of
              Inl _ \<Rightarrow> m
            | Inr node \<Rightarrow> SetByIP (TrimPrefix (kvKey pair) prefix) (node\<lparr>Lease := kvLease pair\<rparr>) m))"

text \<open>The argument \<open>resp\<close> is the answer to the range request: the pairs under the prefix and the revision.\<close>

definition reloadFromEtcd :: "(KeyValue list \<times> int) res \<Rightarrow> RWMap \<Rightarrow> int res \<times> RWMap" where
  "reloadFromEtcd resp m = (let prefix = getNodesPrefix m in
     case resp of
       Inl e \<Rightarrow> (Inl (Wrap ''failed to get data from etcd'' e), m)
     | Inr (kvs, revision) \<Rightarrow> (Inr revision, fold (loadKv prefix) kvs (Clear m)))"

definition InitFromEtcd :: "int \<Rightarrow> string \<Rightarrow> (KeyValue list \<times> int) res \<Rightarrow> RWMap \<Rightarrow> int res \<times> RWMap" where
  "InitFromEtcd chainID version resp m =
     (case reloadFromEtcd resp (m\<lparr>mChainID := chainID, mVersion := version, watchCtx := Some False\<rparr>) of
        (Inl e, m') \<Rightarrow> (Inl (Wrap ''failed to load initial data from etcd'' e), m')
      | (Inr r, m') \<Rightarrow> (Inr r, m'))"

definition StopWatch :: "RWMap \<Rightarrow> RWMap" where
  "StopWatch m = m\<lparr>watchCtx := map_option (\<lambda>_. True) (watchCtx m)\<rparr>"

subsection \<open>Watching etcd\<close>

datatype EventType = EventTypePut | EventTypeDelete

record Event =
  evType :: EventType
  evKv :: KeyValue

record WatchResponse =
  wErr :: "err option"
  wRevision :: int
  wEvents :: "Event list"

definition handleEvent :: "string \<Rightarrow> Event \<Rightarrow> RWMap \<Rightarrow> RWMap" where
  "handleEvent prefix ev m = (case evType ev of
     EventTypePut \<Rightarrow> loadKv prefix (evKv ev) m
   | EventTypeDelete \<Rightarrow> DeleteByIP (TrimPrefix (kvKey (evKv ev)) prefix) m)"

fun handleEvents :: "string \<Rightarrow> Event list \<Rightarrow> int \<Rightarrow> RWMap \<Rightarrow> int \<times> RWMap" where
  "handleEvents prefix [] lastRev m = (lastRev, m)"
| "handleEvents prefix (ev # evs) lastRev m =
     handleEvents prefix evs (if kvModRevision (evKv ev) > lastRev then kvModRevision (evKv ev) else lastRev)
       (handleEvent prefix ev m)"

text \<open>The responses are those the channel delivers before it closes.\<close>

fun watchLoop :: "string \<Rightarrow> WatchResponse list \<Rightarrow> int \<Rightarrow> RWMap \<Rightarrow> (int \<times> err option) \<times> RWMap" where
  "watchLoop prefix [] lastRev m = ((lastRev, Some (Msg ''watch channel closed'')), m)"
| "watchLoop prefix (r # rs) lastRev m =
     (case wErr r of
        Some e \<Rightarrow> ((lastRev, Some (Wrap ''watch response error'' e)), m)
      | None \<Rightarrow>
          (case handleEvents prefix (wEvents r) (if wRevision r > lastRev then wRevision r else lastRev) m of
             (lastRev', m') \<Rightarrow> watchLoop prefix rs lastRev' m'))"

definition processWatchEvents :: "WatchResponse list \<Rightarrow> string \<Rightarrow> RWMap \<Rightarrow> (int \<times> err option) \<times> RWMap" where
  "processWatchEvents rch prefix m = watchLoop prefix rch 0 m"

text \<open>
  What the environment does in one iteration of the watch loop: whether the context is done at the
  top, the responses of the watch, whether the context is done when it ended, the answer to the reload.
\<close>

record watchRound =
  wrDone :: bool
  wrResponses :: "WatchResponse list"
  wrStopped :: bool
  wrReload :: "(KeyValue list \<times> int) res"

text \<open>The loop on a finite sequence of iterations; the flag tells whether it returned.\<close>

fun watchEtcd :: "int \<Rightarrow> watchRound list \<Rightarrow> RWMap \<Rightarrow> (bool \<times> int) \<times> RWMap" where
  "watchEtcd revision [] m = ((False, revision), m)"
| "watchEtcd revision (r # rs) m =
     (if wrDone r then ((True, revision), m)
      else (case processWatchEvents (wrResponses r) (getNodesPrefix m) m of
        ((newRevision, err), m1) \<Rightarrow>
          (case err of
             Some _ \<Rightarrow>
               if wrStopped r then ((True, revision), m1)
               else (case reloadFromEtcd (wrReload r) m1 of
                       (Inl _, m2) \<Rightarrow> watchEtcd revision rs m2
                     | (Inr revision', m2) \<Rightarrow> watchEtcd revision' rs m2)
           | None \<Rightarrow> watchEtcd (if newRevision > revision then newRevision else revision) rs m1)))"

section \<open>What a check reports\<close>

lemma Check_sel [simp]:
  "StateType (nNode (Check post n k t)) = checkedState k (EthBlockNumber post n t)"
  "Lease (nNode (Check post n k t)) = Lease n" "Address (nNode (Check post n k t)) = Address n"
  "Port (nNode (Check post n k t)) = Port n" "NodeType (nNode (Check post n k t)) = NodeType n"
  by (simp_all add: Check_def Let_def)

lemma Check_ready:
  "StateType (nNode (Check post n k t)) = 1 \<longleftrightarrow>
    (\<exists>h. EthBlockNumber post n t = Inr h \<and> k \<le> h \<and> LatestBlockNumber (Check post n k t) = h)"
  by (auto simp: checkedState_def Check_def Let_def split: sum.splits)

lemma Check_DelNode:
  "nChangeType (Check post n k t) = DelNode \<longleftrightarrow>
    (\<exists>e. EthBlockNumber post n t = Inl e) \<and> Lease n = 0 \<and> StateType n \<noteq> 3"
  by (auto simp: checkedState_def Check_def Let_def split: sum.splits)

lemma Check_NoChange:
  "nChangeType (Check post n k t) = NoChange \<longleftrightarrow> nNode (Check post n k t) = n"
  by (cases n) (auto simp: checkedState_def Check_def Let_def split: sum.splits)

section \<open>JSON round trip\<close>

lemma node_names:
  "map ascii_lower ''stateType'' = ''statetype''" "map ascii_lower ''address'' = ''address''"
  "map ascii_lower ''port'' = ''port''" "map ascii_lower ''nodeType'' = ''nodetype''"
  by code_simp+

lemma u64_json_dec [simp]: "dec_u64 (u64_json w) old = Inr w"
  by (simp add: dec_u64_def u64_json_def)

lemma int_json_dec: "- (2 ^ 63) \<le> i \<Longrightarrow> i < 2 ^ 63 \<Longrightarrow> dec_int (JNum (fmt_d i)) old = Inr i"
  by (simp add: dec_int_def parse_int64_fmt)

lemma dec_string_JStr [simp]: "dec_string (JStr s) old = Inr s"
  by (simp add: dec_string_def)

lemma node_json_ok: "ascii (Address n) \<Longrightarrow> json_ok (node_json n)"
  by (simp add: node_json_def u64_json_def ascii_def)

lemma unmarshal_marshal_node:
  assumes "ascii (Address n)" and "- (2 ^ 63) \<le> Port n" "Port n < 2 ^ 63"
  shows "unmarshalNode (marshalNode n) = Inr (n\<lparr>Lease := 0\<rparr>)"
proof -
  have "json_parse (marshalNode n) = Some (node_json n)"
    unfolding marshalNode_def by (rule json_parse_print [OF node_json_ok [OF assms(1)]])
  then show ?thesis
    using assms(2,3)
    by (simp add: unmarshalNode_def node_json_def node_field_def EqualFold_def node_names
        int_json_dec zeroNode_def)
qed

section \<open>Following the registry\<close>

text \<open>
  The registry in etcd as a map from keys to value and lease, the effect of an event on it, and the
  node a stored pair stands for.
\<close>

definition applyEvent :: "Event \<Rightarrow> etcdKVs \<Rightarrow> etcdKVs" where
  "applyEvent ev reg = (case evType ev of
     EventTypePut \<Rightarrow> AList.update (kvKey (evKv ev)) (kvValue (evKv ev), kvLease (evKv ev)) reg
   | EventTypeDelete \<Rightarrow> AList.delete (kvKey (evKv ev)) reg)"

definition nodeOf :: "string \<times> int \<Rightarrow> Node option" where
  "nodeOf v = (if fst v = [] then None
     else (case unmarshalNode (fst v) of Inl _ \<Rightarrow> None | Inr n \<Rightarrow> Some (n\<lparr>Lease := snd v\<rparr>)))"

definition registered :: "string \<Rightarrow> etcdKVs \<Rightarrow> string \<Rightarrow> Node option" where
  "registered prefix reg ip = Option.bind (map_of reg (prefix @ ip)) nodeOf"

definition sameNode :: "Node option \<Rightarrow> Node option \<Rightarrow> bool" where
  "sameNode a b = rel_option (\<lambda>x y. Equal x (Some y)) a b"

text \<open>The map agrees with the registry on the addresses in \<open>K\<close>, leases apart.\<close>

definition agrees :: "string set \<Rightarrow> string \<Rightarrow> RWMap \<Rightarrow> etcdKVs \<Rightarrow> bool" where
  "agrees K prefix m reg = (\<forall>ip \<in> K. sameNode (map_of (nodeMap m) ip) (registered prefix reg ip))"

text \<open>An event under the prefix whose put value is a node.\<close>

definition goodEvent :: "string \<Rightarrow> Event \<Rightarrow> bool" where
  "goodEvent prefix ev = (has_prefix (kvKey (evKv ev)) prefix \<and>
     (evType ev = EventTypePut \<longrightarrow> nodeOf (kvValue (evKv ev), kvLease (evKv ev)) \<noteq> None))"

definition eventIP :: "string \<Rightarrow> Event \<Rightarrow> string" where
  "eventIP prefix ev = TrimPrefix (kvKey (evKv ev)) prefix"

lemma Equal_refl [simp]: "Equal n (Some n)"
  by (simp add: Equal_def)

lemma sameNode_refl [simp]: "sameNode a a"
  by (cases a) (simp_all add: sameNode_def)

lemma SetByIP_lookup:
  "map_of (nodeMap (SetByIP ip n m)) ip' =
     (if ip' = ip then Some (case map_of (nodeMap m) ip of
          Some old \<Rightarrow> if Equal old (Some n) then old else n | None \<Rightarrow> n)
      else map_of (nodeMap m) ip')"
  by (auto simp: SetByIP_def update_conv' split: option.splits)

lemma SetByIP_same: "sameNode (map_of (nodeMap (SetByIP ip n m)) ip) (Some n)"
  by (auto simp: SetByIP_lookup sameNode_def split: option.splits)

lemma DeleteByIP_lookup:
  "map_of (nodeMap (DeleteByIP ip m)) ip' = (if ip' = ip then None else map_of (nodeMap m) ip')"
  by (simp add: DeleteByIP_def delete_conv')

lemma prefix_key: "has_prefix k p \<Longrightarrow> k = p @ TrimPrefix k p"
  by (auto simp: TrimPrefix_def has_prefix_append)

lemma TrimPrefix_append [simp]: "TrimPrefix (p @ r) p = r"
  by (simp add: TrimPrefix_def has_prefix_append)

lemma loadKv_nodeOf:
  "loadKv p pair m = (case nodeOf (kvValue pair, kvLease pair) of
     None \<Rightarrow> m | Some n \<Rightarrow> SetByIP (TrimPrefix (kvKey pair) p) n m)"
  by (simp add: loadKv_def nodeOf_def split: sum.splits)

lemma handleEvent_agrees:
  assumes "agrees K p m reg" and "goodEvent p ev"
  shows "agrees (insert (eventIP p ev) K) p (handleEvent p ev m) (applyEvent ev reg)"
proof -
  let ?k = "kvKey (evKv ev)"
  have k: "?k = p @ eventIP p ev"
    using assms(2) prefix_key unfolding goodEvent_def eventIP_def by blast
  show ?thesis
  proof (cases "evType ev")
    case EventTypePut
    then obtain n where n: "nodeOf (kvValue (evKv ev), kvLease (evKv ev)) = Some n"
      using assms(2) by (auto simp: goodEvent_def)
    with EventTypePut assms(1) show ?thesis
      using SetByIP_same [of "eventIP p ev" n m]
      by (auto simp: agrees_def handleEvent_def loadKv_nodeOf applyEvent_def registered_def k
          update_conv' SetByIP_lookup [where ip' = "_"] simp flip: eventIP_def)
  next
    case EventTypeDelete
    with assms(1) show ?thesis
      by (auto simp: agrees_def handleEvent_def applyEvent_def registered_def k
          delete_conv' DeleteByIP_lookup simp flip: eventIP_def)
  qed
qed

lemma handleEvent_untouched:
  "agrees K p m reg \<Longrightarrow> eventIP p ev \<notin> K \<Longrightarrow> agrees K p (handleEvent p ev m) reg"
  by (auto simp: agrees_def handleEvent_def loadKv_nodeOf SetByIP_lookup DeleteByIP_lookup eventIP_def
      split: EventType.splits option.splits)

lemma getNodesPrefix_nodeMap [simp]: "getNodesPrefix (m\<lparr>nodeMap := x\<rparr>) = getNodesPrefix m"
  by (simp add: getNodesPrefix_def)

lemma SetByIP_prefix [simp]: "getNodesPrefix (SetByIP ip n m) = getNodesPrefix m"
  by (simp add: SetByIP_def split: option.splits)

lemma handleEvent_prefix [simp]: "getNodesPrefix (handleEvent p ev m) = getNodesPrefix m"
  by (simp add: handleEvent_def loadKv_nodeOf DeleteByIP_def split: EventType.splits option.splits)

text \<open>The events a sequence of responses delivers before the first error.\<close>

fun seenEvents :: "WatchResponse list \<Rightarrow> Event list" where
  "seenEvents [] = []"
| "seenEvents (r # rs) = (if wErr r \<noteq> None then [] else wEvents r @ seenEvents rs)"

lemma handleEvents_fold: "snd (handleEvents p evs l m) = fold (handleEvent p) evs m"
  by (induction evs arbitrary: l m) auto

lemma watchLoop_fold: "snd (watchLoop p rs l m) = fold (handleEvent p) (seenEvents rs) m"
proof (induction rs arbitrary: l m)
  case (Cons r rs)
  then show ?case
    using handleEvents_fold [of p "wEvents r"]
    by (auto split: option.splits prod.splits) (metis snd_conv)+
qed simp

lemma watchLoop_err: "snd (fst (watchLoop p rs l m)) \<noteq> None"
  by (induction rs arbitrary: l m) (auto split: option.splits prod.splits)

lemma fold_handle_prefix [simp]: "getNodesPrefix (fold (handleEvent p) evs m) = getNodesPrefix m"
  by (induction evs arbitrary: m) auto

lemma fold_handle_agrees:
  assumes "agrees K p m reg" and "\<forall>ev \<in> set evs. goodEvent p ev"
  shows "agrees (K \<union> eventIP p ` set evs) p (fold (handleEvent p) evs m) (fold applyEvent evs reg)"
  using assms
proof (induction evs arbitrary: K m reg)
  case (Cons ev evs)
  then have "agrees (insert (eventIP p ev) K) p (handleEvent p ev m) (applyEvent ev reg)"
    by (intro handleEvent_agrees) auto
  from Cons.IH [OF this] Cons.prems show ?case by simp
qed simp

lemma fold_handle_untouched:
  "agrees K p m reg \<Longrightarrow> eventIP p ` set evs \<inter> K = {} \<Longrightarrow> agrees K p (fold (handleEvent p) evs m) reg"
  by (induction evs arbitrary: m) (auto intro: handleEvent_untouched)

lemma processWatchEvents_cases:
  obtains l e where
    "processWatchEvents rch p m = ((l, Some e), fold (handleEvent p) (seenEvents rch) m)"
  using watchLoop_err [of p rch 0 m] watchLoop_fold [of p rch 0 m]
  by (metis processWatchEvents_def option.exhaust prod.collapse)

subsection \<open>Loading\<close>

definition regOf :: "KeyValue list \<Rightarrow> etcdKVs" where
  "regOf kvs = map (\<lambda>pair. (kvKey pair, kvValue pair, kvLease pair)) kvs"

lemma regOf_dom: "map_of (regOf kvs) k = None \<longleftrightarrow> k \<notin> kvKey ` set kvs"
  by (induction kvs) (auto simp: regOf_def)

lemma fold_load:
  assumes "distinct (map kvKey kvs)" and "\<forall>pair \<in> set kvs. has_prefix (kvKey pair) p"
    and "\<forall>pair \<in> set kvs. map_of (nodeMap m) (TrimPrefix (kvKey pair) p) = None"
  shows "map_of (nodeMap (fold (loadKv p) kvs m)) ip =
    (if p @ ip \<in> kvKey ` set kvs then registered p (regOf kvs) ip else map_of (nodeMap m) ip)"
  using assms
proof (induction kvs arbitrary: m)
  case (Cons pair kvs)
  let ?ip = "TrimPrefix (kvKey pair) p"
  have k: "kvKey pair = p @ ?ip" using Cons.prems(2) prefix_key by simp
  have apart: "TrimPrefix (kvKey q) p \<noteq> ?ip" if "q \<in> set kvs" for q
  proof
    assume "TrimPrefix (kvKey q) p = ?ip"
    moreover have "kvKey q = p @ TrimPrefix (kvKey q) p" using that Cons.prems(2) prefix_key by simp
    ultimately have "kvKey pair = kvKey q" using k by simp
    then have "kvKey pair \<in> kvKey ` set kvs" using that by (rule image_eqI)
    then show False using Cons.prems(1) by simp
  qed
  have new: "map_of (nodeMap (loadKv p pair m)) ip' =
      (if ip' = ?ip then nodeOf (kvValue pair, kvLease pair) else map_of (nodeMap m) ip')" for ip'
    using Cons.prems(3) by (auto simp: loadKv_nodeOf SetByIP_lookup split: option.splits)
  have "map_of (nodeMap (fold (loadKv p) kvs (loadKv p pair m))) ip =
    (if p @ ip \<in> kvKey ` set kvs then registered p (regOf kvs) ip
     else map_of (nodeMap (loadKv p pair m)) ip)"
    using Cons.prems apart by (intro Cons.IH) (auto simp: new)
  moreover have "p @ ip = kvKey pair \<longleftrightarrow> ip = ?ip" using k by (metis same_append_eq)
  moreover have "p @ ?ip \<notin> kvKey ` set kvs" using Cons.prems(1) k by auto
  ultimately show ?case
    by (auto simp: new registered_def regOf_def)
qed simp

lemma reload_exact:
  assumes "distinct (map kvKey kvs)" and "\<forall>pair \<in> set kvs. has_prefix (kvKey pair) (getNodesPrefix m)"
  shows "fst (reloadFromEtcd (Inr (kvs, rv)) m) = Inr rv"
    and "map_of (nodeMap (snd (reloadFromEtcd (Inr (kvs, rv)) m))) ip =
      registered (getNodesPrefix m) (regOf kvs) ip"
proof -
  have "map_of (nodeMap (fold (loadKv (getNodesPrefix m)) kvs (Clear m))) ip =
      (if getNodesPrefix m @ ip \<in> kvKey ` set kvs then registered (getNodesPrefix m) (regOf kvs) ip else None)"
    using fold_load [OF assms, of "Clear m"] by (simp add: Clear_def)
  then show "map_of (nodeMap (snd (reloadFromEtcd (Inr (kvs, rv)) m))) ip =
      registered (getNodesPrefix m) (regOf kvs) ip"
    using regOf_dom [of kvs "getNodesPrefix m @ ip"]
    by (auto simp: reloadFromEtcd_def registered_def Let_def)
qed (simp add: reloadFromEtcd_def Let_def)

lemma loadKv_prefix [simp]: "getNodesPrefix (loadKv p pair m) = getNodesPrefix m"
  by (simp add: loadKv_nodeOf split: option.splits)

lemma fold_load_prefix [simp]: "getNodesPrefix (fold (loadKv p) kvs m) = getNodesPrefix m"
  by (induction kvs arbitrary: m) auto

lemma reload_prefix [simp]: "getNodesPrefix (snd (reloadFromEtcd r m)) = getNodesPrefix m"
  by (auto simp: reloadFromEtcd_def Let_def Clear_def split: sum.splits)

subsection \<open>Rounds with lost connections\<close>

definition brokenRound :: "Event list \<Rightarrow> watchRound \<Rightarrow> bool" where
  "brokenRound es r = (\<not> wrDone r \<and> \<not> wrStopped r \<and> isl (wrReload r) \<and>
     set (seenEvents (wrResponses r)) \<subseteq> set es)"

lemma broken_rounds:
  assumes "\<forall>r \<in> set rs. brokenRound es r" and "agrees K (getNodesPrefix m) m reg"
    and "eventIP (getNodesPrefix m) ` set es \<inter> K = {}"
  obtains m' where "\<And>rs'. watchEtcd rv (rs @ rs') m = watchEtcd rv rs' m'"
    and "agrees K (getNodesPrefix m) m' reg" and "getNodesPrefix m' = getNodesPrefix m"
  using assms
proof (induction rs arbitrary: m thesis)
  case (Cons r rs)
  let ?m1 = "fold (handleEvent (getNodesPrefix m)) (seenEvents (wrResponses r)) m"
  obtain l e where p: "processWatchEvents (wrResponses r) (getNodesPrefix m) m = ((l, Some e), ?m1)"
    by (rule processWatchEvents_cases)
  have sub: "set (seenEvents (wrResponses r)) \<subseteq> set es" and r: "\<not> wrDone r" "\<not> wrStopped r"
    and f: "isl (wrReload r)"
    using Cons.prems(2) by (simp_all add: brokenRound_def)
  have one: "watchEtcd rv ((r # rs) @ rs') m = watchEtcd rv (rs @ rs') ?m1" for rs'
    using f by (cases "wrReload r") (auto simp: r p reloadFromEtcd_def Let_def)
  have "agrees K (getNodesPrefix ?m1) ?m1 reg"
    using Cons.prems(3,4) sub by (auto intro!: fold_handle_untouched)
  moreover have "\<forall>r \<in> set rs. brokenRound es r" "eventIP (getNodesPrefix ?m1) ` set es \<inter> K = {}"
    using Cons.prems(2,4) by auto
  ultimately obtain m' where "\<And>rs'. watchEtcd rv (rs @ rs') ?m1 = watchEtcd rv rs' m'"
    "agrees K (getNodesPrefix ?m1) m' reg" "getNodesPrefix m' = getNodesPrefix ?m1"
    using Cons.IH [of ?m1] by blast
  then show ?case using Cons.prems(1) [of m'] one by simp
qed auto

text \<open>
  C25: The map of nodes follows the registry in etcd. Start from a load of the registry at a revision;
  then let the watch run through any number of rounds that each deliver some of the later events before
  the connection breaks and the reload fails as well. Once a round has delivered all events since
  the loaded revision, in order, the map holds exactly the nodes registered in etcd after those events,
  leases apart, and the watch still resumes at the loaded revision. (The put events carry readable
  nodes: an unreadable one is skipped and leaves the previous node in place.)
\<close>

theorem watch_follows_registry:
  assumes "distinct (map kvKey kvs)"
    and "\<forall>pair \<in> set kvs. has_prefix (kvKey pair) (getNodesPrefix m)"
    and "reloadFromEtcd (Inr (kvs, revision)) m = (Inr rv, m0)"
    and "\<forall>ev \<in> set es. goodEvent (getNodesPrefix m) ev"
    and "\<forall>r \<in> set rs. brokenRound es r"
    and "brokenRound es r" and "seenEvents (wrResponses r) = es"
    and "watchEtcd rv (rs @ [r]) m0 = (z, m')"
  shows "z = (False, revision) \<and>
    (\<forall>ip. sameNode (map_of (nodeMap m') ip)
      (registered (getNodesPrefix m) (fold applyEvent es (regOf kvs)) ip))"
proof -
  let ?p = "getNodesPrefix m"
  have l: "rv = revision" "getNodesPrefix m0 = ?p" "map_of (nodeMap m0) ip = registered ?p (regOf kvs) ip" for ip
    using reload_exact [OF assms(1,2), of revision] reload_prefix [of "Inr (kvs, revision)" m] assms(3) by auto
  let ?K = "- eventIP ?p ` set es"
  have "agrees ?K (getNodesPrefix m0) m0 (regOf kvs)" by (simp add: agrees_def l)
  moreover have "eventIP (getNodesPrefix m0) ` set es \<inter> ?K = {}" by (simp add: l)
  ultimately obtain m1 where m1: "\<And>rs'. watchEtcd rv (rs @ rs') m0 = watchEtcd rv rs' m1"
    "agrees ?K ?p m1 (regOf kvs)" "getNodesPrefix m1 = ?p"
    unfolding l(2) [symmetric] by (rule broken_rounds [OF assms(5)]) blast
  let ?m2 = "fold (handleEvent ?p) es m1"
  obtain lr e where "processWatchEvents (wrResponses r) ?p m1 = ((lr, Some e), ?m2)"
    by (rule processWatchEvents_cases [of "wrResponses r" ?p m1]) (simp add: assms(7))
  moreover obtain x where "wrReload r = Inl x" using assms(6) by (auto simp: brokenRound_def isl_def)
  ultimately have "watchEtcd rv [r] m1 = ((False, rv), ?m2)"
    using assms(6) by (simp add: brokenRound_def m1(3) reloadFromEtcd_def Let_def)
  then have f: "z = (False, rv)" "m' = ?m2" using assms(8) m1(1) by auto
  have "agrees (?K \<union> eventIP ?p ` set es) ?p ?m2 (fold applyEvent es (regOf kvs))"
    by (rule fold_handle_agrees [OF m1(2) assms(4)])
  then have "agrees UNIV ?p ?m2 (fold applyEvent es (regOf kvs))" by simp
  then show ?thesis by (simp add: f l(1) agrees_def)
qed

text \<open>An example registry: two replicas, the first re-registers with a new port, the second leaves.\<close>

definition exNode :: "int \<Rightarrow> Node" where
  "exNode port = \<lparr> StateType = 1, Address = ''10.0.0.1'', Port = port, NodeType = 1, Lease = 7 \<rparr>"

definition exPair :: "string \<Rightarrow> int \<Rightarrow> KeyValue" where
  "exPair ip port = \<lparr> kvKey = ''56/v1/nodes/'' @ ip, kvValue = marshalNode (exNode port), kvLease = 7,
     kvModRevision = 3 \<rparr>"

definition exMap :: RWMap where
  "exMap = \<lparr> nodeMap = [], mChainID = 56, mVersion = ''v1'', watchCtx = None \<rparr>"

lemma exMap_prefix [simp]: "getNodesPrefix exMap = ''56/v1/nodes/''"
  by code_simp

lemma nodeOf_marshal:
  assumes "ascii (Address n)" and "- (2 ^ 63) \<le> Port n" "Port n < 2 ^ 63"
  shows "nodeOf (marshalNode n, l) = Some (n\<lparr>Lease := l\<rparr>)"
  using unmarshal_marshal_node [OF assms] by (simp add: nodeOf_def marshalNode_def node_json_def)

lemma exPair_node: "port \<in> {1..65535} \<Longrightarrow> nodeOf (marshalNode (exNode port), 7) = Some (exNode port)"
proof -
  assume "port \<in> {1..65535}"
  moreover have "ascii ''10.0.0.1''" by code_simp
  ultimately show ?thesis using nodeOf_marshal [of "exNode port" 7] by (simp add: exNode_def)
qed

theorem watch_follows_registry_witness:
  "\<exists>m' :: RWMap. sameNode (map_of (nodeMap m') ''a'') (Some (exNode 9)) \<and> map_of (nodeMap m') ''b'' = None"
proof -
  let ?es = "[\<lparr> evType = EventTypePut, evKv = exPair ''a'' 9 \<rparr>, \<lparr> evType = EventTypeDelete, evKv = exPair ''b'' 5 \<rparr>]"
  let ?kvs = "[exPair ''a'' 8, exPair ''b'' 5]"
  let ?r = "\<lambda>es. \<lparr> wrDone = False, wrResponses = [\<lparr> wErr = None, wRevision = 5, wEvents = es \<rparr>],
     wrStopped = False, wrReload = Inl IOErr \<rparr>"
  obtain rv m0 where l: "reloadFromEtcd (Inr (?kvs, 4)) exMap = (Inr rv, m0)"
    using reload_exact(1) [of ?kvs exMap 4] by (cases "reloadFromEtcd (Inr (?kvs, 4)) exMap") (auto simp: exPair_def)
  obtain z m' where w: "watchEtcd rv ([?r [hd ?es]] @ [?r ?es]) m0 = (z, m')" by fastforce
  have n: "nodeOf (marshalNode (exNode 9), 7) = Some (exNode 9)" by (rule exPair_node) simp
  have *: "sameNode (map_of (nodeMap m') ip) (registered ''56/v1/nodes/'' (fold applyEvent ?es (regOf ?kvs)) ip)" for ip
    using watch_follows_registry [OF _ _ l _ _ _ _ w, of ?es]
    by (simp add: exPair_def goodEvent_def brokenRound_def n)
  have "sameNode (map_of (nodeMap m') ''a'') (Some (exNode 9))"
    using * [of "''a''"] by (simp add: exPair_def applyEvent_def regOf_def registered_def n)
  moreover have "map_of (nodeMap m') ''b'' = None"
    using * [of "''b''"] by (simp add: exPair_def applyEvent_def regOf_def registered_def sameNode_def)
  ultimately show ?thesis by blast
qed

text \<open>
  A node the checker writes to etcd is read back by every checker that loads or watches the
  registry: in the map it has the state, address, port and type that were written and the lease of
  the pair, unless an equal node is already there.
\<close>

theorem written_node_is_read_back:
  assumes "ascii (Address n)" and "- (2 ^ 63) \<le> Port n" "Port n < 2 ^ 63"
    and "kvValue pair = marshalNode n" and "kvKey pair = getNodesPrefix m @ ip"
    and "map_of (nodeMap m) ip = None \<or> \<not> Equal (GetByIP ip m) (Some n)"
  shows "GetByIP ip (loadKv (getNodesPrefix m) pair m) = n\<lparr>Lease := kvLease pair\<rparr>"
proof -
  have "Equal x (Some (n\<lparr>Lease := l\<rparr>)) = Equal x (Some n)" for x l by (simp add: Equal_def)
  then show ?thesis
    using nodeOf_marshal [OF assms(1-3), of "kvLease pair"] assms(4-6)
    by (auto simp: loadKv_nodeOf GetByIP_def SetByIP_lookup split: option.splits)
qed

theorem written_node_is_read_back_witness:
  "GetByIP ''a'' (loadKv ''56/v1/nodes/'' (exPair ''a'' 8) exMap) = exNode 8"
proof -
  have "ascii ''10.0.0.1''" by code_simp
  then show ?thesis
    using written_node_is_read_back [of "exNode 8" "exPair ''a'' 8" exMap "''a''"]
    by (simp add: exNode_def exPair_def exMap_def [THEN arg_cong, of nodeMap])
qed

text \<open>
  Changing only the lease of a registered node has no effect: the map keeps the old lease until
  another field changes or the node is deleted, so later writes attach the key to a lease that may
  have expired.
\<close>

theorem lease_change_is_ignored:
  assumes "map_of (nodeMap m) ip = Some old" and "Equal old (Some node)"
  shows "SetByIP ip node m = m \<and> Lease (GetByIP ip (SetByIP ip node m)) = Lease old"
  using assms by (simp add: SetByIP_def GetByIP_def)

theorem lease_change_is_ignored_witness:
  "Lease (GetByIP ''a'' (SetByIP ''a'' (exNode 8\<lparr>Lease := 99\<rparr>) (exMap\<lparr>nodeMap := [(''a'', exNode 8)]\<rparr>))) = 7"
proof -
  have e: "Equal (exNode 8) (Some (exNode 8\<lparr>Lease := 99\<rparr>))" by (simp add: exNode_def Equal_def)
  have l: "map_of (nodeMap (exMap\<lparr>nodeMap := [(''a'', exNode 8)]\<rparr>)) ''a'' = Some (exNode 8)" by simp
  have "Lease (GetByIP ''a'' (SetByIP ''a'' (exNode 8\<lparr>Lease := 99\<rparr>) (exMap\<lparr>nodeMap := [(''a'', exNode 8)]\<rparr>))) = Lease (exNode 8)"
    by (rule conjunct2 [OF lease_change_is_ignored [OF l e]])
  then show ?thesis by (simp add: exNode_def)
qed

section \<open>Heights\<close>

text \<open>The hexadecimal text of a height, without leading zeros, as Ethereum nodes send it.\<close>

fun hexNat :: "nat \<Rightarrow> string" where
  "hexNat n = (if n < 16 then [hex_digit n] else hexNat (n div 16) @ [hex_digit (n mod 16)])"

declare hexNat.simps [simp del]

lemma digit_val_hex: "d < 16 \<Longrightarrow> digit_val (hex_digit d) = Some d \<and> hex_digit d \<noteq> CHR ''_''"
proof -
  assume d: "d < 16"
  have c: "(of_char (hex_digit d) :: nat) = (if d < 10 then 48 + d else 87 + d)"
    using d by (simp add: hex_digit_def)
  then have "(of_char (hex_digit d) :: nat) \<noteq> of_char CHR ''_''" using d by simp
  then have "hex_digit d \<noteq> CHR ''_''" by metis
  moreover have "low_char (hex_digit d) = hex_digit d"
    using d by (simp add: low_char_def ascii_lower_def c Let_def)
  ultimately show ?thesis using d by (simp add: digit_val_def c Let_def)
qed

lemma digits_base_append:
  "digits_base b (xs @ ys) acc =
     (case digits_base b xs acc of None \<Rightarrow> None | Some a \<Rightarrow> digits_base b ys a)"
  by (induction xs arbitrary: acc) (auto split: option.splits)

lemma digits_hexNat: "digits_base 16 (hexNat n) 0 = Some n \<and> CHR ''_'' \<notin> set (hexNat n) \<and> hexNat n \<noteq> []"
proof (induction n rule: hexNat.induct)
  case (1 n)
  have m: "digit_val (hex_digit (n mod 16)) = Some (n mod 16)" "hex_digit (n mod 16) \<noteq> CHR ''_''"
    using digit_val_hex [of "n mod 16"] by simp_all
  show ?case
  proof (cases "n < 16")
    case True
    then show ?thesis using m by (subst (1 2 3) hexNat.simps) simp
  next
    case False
    then show ?thesis using m 1 by (subst (1 2 3) hexNat.simps) (simp add: digits_base_append)
  qed
qed

lemma low_x: "low_char CHR ''x'' = CHR ''x''" "low_char CHR ''b'' = CHR ''b''" "low_char CHR ''o'' = CHR ''o''"
  by code_simp+

lemma ParseInt0_hex: "n < 2 ^ 63 \<Longrightarrow> ParseInt0 (''0x'' @ hexNat n) = Some (int n)"
proof -
  assume n: "n < 2 ^ 63"
  obtain c cs where h: "hexNat n = c # cs" using digits_hexNat [of n] by (cases "hexNat n") auto
  have "base_prefix (''0x'' @ hexNat n) = (16, hexNat n)"
    by (simp add: base_prefix_def h low_x)
  then have "ParseUint0 (''0x'' @ hexNat n) = Some n"
    using digits_hexNat [of n] by (simp add: ParseUint0_def)
  then show ?thesis using n by (simp add: ParseInt0_def)
qed

definition answer :: "string \<Rightarrow> json" where
  "answer s = JObj [(''jsonrpc'', JStr ''2.0''), (''id'', JNum (fmt_d 1)), (''result'', JStr s)]"

lemma rsp_names:
  "map ascii_lower ''id'' = ''id''" "map ascii_lower ''jsonrpc'' = ''jsonrpc''"
  "map ascii_lower ''result'' = ''result''" "map ascii_lower ''error'' = ''error''"
  by code_simp+

lemma decodeRsp_answer:
  assumes "ascii s" and "num_stop rest"
  shows "\<exists>rsp. decodeRsp (json_print (answer s) @ rest) = Inr rsp \<and> rspResult rsp = Some (JStr s)"
proof -
  let ?b = "json_print (answer s) @ rest"
  have "ascii ''jsonrpc''" "ascii ''id''" "ascii ''result''" "ascii ''2.0''" by code_simp+
  then have "json_ok (answer s)" using assms(1) by (simp add: answer_def)
  then have "pv (Suc (length ?b)) ?b = Some (answer s, rest)"
    using assms(2) by (intro pv_print) simp_all
  moreover have "dec_int (JNum (fmt_d 1)) 0 = Inr 1" by (rule int_json_dec) simp_all
  ultimately show ?thesis
    by (simp add: decodeRsp_def Let_def answer_def rsp_field_def EqualFold_def rsp_names)
qed

lemma EthBlockNumber_answer:
  assumes "post (nodeURL n) reqBody t = Inr (json_print (answer s) @ rest)" and "ascii s" "num_stop rest"
  shows "EthBlockNumber post n t = (case ParseInt0 s of
     None \<Rightarrow> Inl (Msg ''eth_blockNumber returns invalid block number'') | Some i \<Rightarrow> Inr (word_of_int i))"
proof -
  obtain rsp where "decodeRsp (json_print (answer s) @ rest) = Inr rsp" "rspResult rsp = Some (JStr s)"
    using decodeRsp_answer [OF assms(2,3)] by blast
  then show ?thesis by (simp add: EthBlockNumber_def assms(1))
qed

lemma ascii_hexNat: "ascii (''0x'' @ hexNat n)"
proof -
  have d: "(of_char (hex_digit d) :: nat) < 128" if "d < 16" for d
    using that by (auto simp: hex_digit_def)
  have "list_all (\<lambda>c. (of_char c :: nat) < 128) (hexNat n)"
  proof (induction n rule: hexNat.induct)
    case (1 n)
    then show ?case using d [of n] d [of "n mod 16"] by (subst hexNat.simps) auto
  qed
  then show ?thesis by (simp add: ascii_def)
qed

text \<open>
  C26: A replica that answers the request with the hexadecimal text of its height, whatever follows the
  answer in the body, is recorded with that height; it is ready exactly when it has reached the
  requested height, otherwise late, and its entry changes exactly when its state does.
\<close>

theorem replica_height_is_classified:
  assumes "post (nodeURL n) reqBody t = Inr (json_print (answer (''0x'' @ hexNat (unat h))) @ rest)"
    and "unat (h :: u64) < 2 ^ 63" and "num_stop rest"
  shows "LatestBlockNumber (Check post n k t) = h \<and>
    StateType (nNode (Check post n k t)) = (if k \<le> h then 1 else 2) \<and>
    nChangeType (Check post n k t) = (if StateType n = (if k \<le> h then 1 else 2) then NoChange else UpdateNode)"
proof -
  have "EthBlockNumber post n t = Inr h"
    using EthBlockNumber_answer [of post n t, OF assms(1) _ assms(3)] ParseInt0_hex [OF assms(2)]
      ascii_hexNat [of "unat h"]
    by simp
  then show ?thesis
    by (auto simp: Check_def checkedState_def Let_def)
qed

theorem replica_height_is_classified_witness:
  "StateType (nNode (Check (\<lambda>u b t. Inr (json_print (answer (''0x'' @ hexNat (unat (16 :: u64)))))) (exNode 8) 17 100)) = 2"
proof -
  have "\<not> (17 :: u64) \<le> 16" by simp
  with replica_height_is_classified [of
      "\<lambda>u b t. Inr (json_print (answer (''0x'' @ hexNat (unat (16 :: u64)))))" "exNode 8" 100 16 "[]" 17]
  show ?thesis by simp
qed

text \<open>
  A replica that answers with a negative number, \<^verbatim>\<open>-1\<close> or \<^verbatim>\<open>-0x1\<close>, is ready at every height: the
  number is read as signed and converted to unsigned, which wraps around to the largest height.
\<close>

theorem negative_height_is_always_ready:
  assumes "post (nodeURL n) reqBody t = Inr (json_print (answer ''-1''))"
  shows "StateType (nNode (Check post n k t)) = 1 \<and> LatestBlockNumber (Check post n k t) = MaxUint64"
proof -
  have a: "ascii ''-1''" and "digit_val CHR ''1'' = Some 1" by code_simp+
  then have "ParseInt0 ''-1'' = Some (- 1)" by (simp add: ParseInt0_def ParseUint0_def base_prefix_def)
  then have "EthBlockNumber post n t = Inr MaxUint64"
    using EthBlockNumber_answer [of post n t "''-1''" "[]"] assms a by (simp add: MaxUint64_def)
  then show ?thesis by (auto simp: Check_def checkedState_def Let_def)
qed

theorem negative_height_is_always_ready_witness:
  "StateType (nNode (Check (\<lambda>u b t. Inr (json_print (answer ''-1''))) (exNode 8) 1000 100)) = 1"
  using negative_height_is_always_ready [of "\<lambda>u b t. Inr (json_print (answer ''-1''))" "exNode 8" 100 1000] by simp

end
