(* ===== verification/World.thy ===== *)
theory World
  imports GoLib Notices Retry Nodes
begin

text \<open>
  The services outside the process: the S3 bucket, the clock, the shutdown signal, Kafka topics and
  etcd. They are third-party code and are modelled by their interface only. Every external call
  happens at a tick; an arbitrary schedule decides at each tick whether a call is acknowledged,
  fails, or takes effect but is reported as failed, and which objects other processes uploaded in
  the meantime. Codecs and the paging of listings are parameters, the record \<open>svc\<close>, with the laws the
  program relies on in the locale \<open>services\<close>, interpreted on a concrete service.
\<close>

section \<open>State of the outside world\<close>

datatype fate = Ack | Fail | LostAck

text \<open>
  The first partition of a Kafka topic: the offset of the first retained message and the messages,
  each with its key and its notice, or \<open>None\<close> for a value that cannot be decoded.
\<close>

record topicLog =
  firstOffset :: int
  entries :: "(string \<times> OuterBlockChangeNotification option) list"

text \<open>
  \<open>otherTopics\<close> and \<open>otherEtcd\<close> are what brokers and other processes do to topics and to etcd before the
  call at a tick; \<open>rpc\<close> is how replicas answer at a tick, and \<open>registry\<close> the content of
  \<^verbatim>\<open>nodes.NodeMap\<close>, which the watch of \<^verbatim>\<open>nodes/map.go\<close> updates concurrently.
\<close>

record world =
  tick :: nat
  clock :: "nat \<Rightarrow> int"
  quit :: "nat \<Rightarrow> bool"
  fate :: "nat \<Rightarrow> fate"
  uploads :: "nat \<Rightarrow> (string \<times> bytes) list"
  objects :: "(string \<times> bytes) list"
  pageFuel :: nat
  topics :: "string \<Rightarrow> topicLog"
  otherTopics :: "nat \<Rightarrow> (string \<Rightarrow> topicLog) \<Rightarrow> (string \<Rightarrow> topicLog)"
  etcd :: etcd
  otherEtcd :: "nat \<Rightarrow> etcd \<Rightarrow> etcd"
  rpc :: "nat \<Rightarrow> http"
  registry :: "nat \<Rightarrow> RWMap"

text \<open>A context is the value of \<^verbatim>\<open>ctx.Err()\<close> at each tick.\<close>

type_synonym ctx = "nat \<Rightarrow> err option"

definition Background :: ctx where
  "Background = (\<lambda>_. None)"

text \<open>\<^verbatim>\<open>context.WithTimeout\<close>, created at the current tick.\<close>

definition WithTimeout :: "int \<Rightarrow> world \<Rightarrow> ctx \<Rightarrow> ctx" where
  "WithTimeout d w ctx = (\<lambda>t. case ctx t of Some e \<Rightarrow> Some e
     | None \<Rightarrow> if clock w t - clock w (tick w) \<ge> d then Some DeadlineExceeded else None)"

definition ctx_Err :: "ctx \<Rightarrow> world \<Rightarrow> err option" where
  "ctx_Err ctx w = ctx (tick w)"

definition now :: "world \<Rightarrow> int" where
  "now w = clock w (tick w)"

definition advance :: "world \<Rightarrow> world" where
  "advance w = w\<lparr>tick := Suc (tick w)\<rparr>"

text \<open>What other processes uploaded before this call.\<close>

definition arrive :: "world \<Rightarrow> world" where
  "arrive w = w\<lparr>objects := fold (\<lambda>(k, v). AList.update k v) (uploads w (tick w)) (objects w)\<rparr>"

text \<open>
  A wait in a \<^verbatim>\<open>select\<close> with \<^verbatim>\<open>quit\<close> and \<^verbatim>\<open>ctx.Done()\<close>: it ends at the next tick, by the timer unless
  one of the two has fired by then.
\<close>

definition sleepCtx :: "ctx \<Rightarrow> int \<Rightarrow> world \<Rightarrow> bool \<times> world" where
  "sleepCtx ctx d w = (let w' = advance w in (quit w' (tick w') \<or> ctx_Err ctx w' \<noteq> None, w'))"

section \<open>S3\<close>

record ListPage =
  Contents :: "string option list"
  IsTruncated :: "bool option"
  NextContinuationToken :: "string option"

text \<open>
  \<^verbatim>\<open>util.EncodeToJsonGzip\<close> and \<^verbatim>\<open>util.DecodeFromGzipJson\<close> on validations, the latter also on block files
  (the result is the pair of \<^verbatim>\<open>Block.Height\<close>, \<^verbatim>\<open>Block.ParentID\<close> and \<^verbatim>\<open>Block.Timestamp\<close>), and the pages of
  \<^verbatim>\<open>ListObjectsV2\<close> for a prefix and a continuation token; and the text of a \<^verbatim>\<open>hexutil.Big\<close>.
\<close>

record svc =
  encValidation :: "BlockValidation \<Rightarrow> bytes res"
  decValidation :: "bytes \<Rightarrow> BlockValidation res"
  decBlockFile :: "bytes \<Rightarrow> (int \<times> string \<times> int) res"
  listPage :: "string list \<Rightarrow> string \<Rightarrow> string option \<Rightarrow> ListPage"
  hexBig :: "int \<Rightarrow> string"

definition apiErr :: "ctx \<Rightarrow> world \<Rightarrow> err option" where
  "apiErr ctx w = (case ctx_Err ctx w of Some e \<Rightarrow> Some e
     | None \<Rightarrow> if fate w (tick w) = Ack then None else Some IOErr)"

definition GetObject :: "ctx \<Rightarrow> string \<Rightarrow> world \<Rightarrow> bytes res \<times> world" where
  "GetObject ctx key w0 = (let w = arrive w0 in
     ((case apiErr ctx w of
         Some e \<Rightarrow> Inl e
       | None \<Rightarrow> (case map_of (objects w) key of None \<Rightarrow> Inl (Msg ''NoSuchKey'') | Some b \<Rightarrow> Inr b)),
      advance w))"

definition PutObject :: "ctx \<Rightarrow> string \<Rightarrow> bytes \<Rightarrow> world \<Rightarrow> unit res \<times> world" where
  "PutObject ctx key body w0 = (let w = arrive w0 in
     case apiErr ctx w of
       Some e \<Rightarrow> (Inl e, advance (if fate w (tick w) = LostAck
                                  then w\<lparr>objects := AList.update key body (objects w)\<rparr> else w))
     | None \<Rightarrow> (Inr (), advance (w\<lparr>objects := AList.update key body (objects w)\<rparr>)))"

definition ListObjectsV2 :: "svc \<Rightarrow> ctx \<Rightarrow> string \<Rightarrow> string option \<Rightarrow> world \<Rightarrow> ListPage res \<times> world" where
  "ListObjectsV2 v ctx prefix token w0 = (let w = arrive w0 in
     ((case apiErr ctx w of
         Some e \<Rightarrow> Inl e
       | None \<Rightarrow> Inr (listPage v (map fst (objects w)) prefix token)),
      advance w))"

section \<open>Etcd\<close>

text \<open>
  A transaction at the current tick, after what other clients did. A call that fails may still have
  taken effect.
\<close>

definition etcdSettle :: "world \<Rightarrow> world" where
  "etcdSettle w = w\<lparr>etcd := otherEtcd w (tick w) (etcd w)\<rparr>"

definition etcdTxn :: "ctx \<Rightarrow> etcdCmp list \<Rightarrow> etcdOp list \<Rightarrow> world \<Rightarrow> bool res \<times> world" where
  "etcdTxn ctx cmps ops w0 = (let w = etcdSettle w0; ok = list_all (holdsCmp (etcd w)) cmps in
     case (if ok then runOps ops (etcd w) else Some (etcd w)) of
       None \<Rightarrow> (Inl (Msg ''etcdserver: requested lease not found''), advance w)
     | Some s' \<Rightarrow>
         (case apiErr ctx w of
            Some e \<Rightarrow> (Inl e, advance (if fate w (tick w) = LostAck then w\<lparr>etcd := s'\<rparr> else w))
          | None \<Rightarrow> (Inr ok, advance (w\<lparr>etcd := s'\<rparr>))))"

definition etcdRead :: "ctx \<Rightarrow> string \<Rightarrow> world \<Rightarrow> string option res \<times> world" where
  "etcdRead ctx k w0 = (let w = etcdSettle w0 in
     ((case apiErr ctx w of Some e \<Rightarrow> Inl e | None \<Rightarrow> Inr (etcdGet k (etcd w))), advance w))"

section \<open>Kafka topics\<close>

definition topicSettle :: "world \<Rightarrow> world" where
  "topicSettle w = w\<lparr>topics := otherTopics w (tick w) (topics w)\<rparr>"

definition emptyTopic :: topicLog where
  "emptyTopic = \<lparr> firstOffset = 0, entries = [] \<rparr>"

definition lastOffset :: "topicLog \<Rightarrow> int" where
  "lastOffset l = firstOffset l + int (length (entries l))"

definition appendTopic :: "string \<Rightarrow> OuterBlockChangeNotification \<Rightarrow> world \<Rightarrow> world" where
  "appendTopic t b w = w\<lparr>topics := (topics w)(t := (topics w t)\<lparr>entries := entries (topics w t) @ [(''NewBlock'', Some b)]\<rparr>)\<rparr>"

text \<open>\<^verbatim>\<open>util.WriteOuterBlockNotice\<close>: one message with the key \<^verbatim>\<open>NewBlock\<close>.\<close>

definition writeOuter :: "string \<Rightarrow> OuterBlockChangeNotification \<Rightarrow> world \<Rightarrow> unit res \<times> world" where
  "writeOuter t b w0 = (let w = topicSettle w0 in
     case fate w (tick w) of
       Ack \<Rightarrow> (Inr (), advance (appendTopic t b w))
     | LostAck \<Rightarrow> (Inl IOErr, advance (appendTopic t b w))
     | Fail \<Rightarrow> (Inl IOErr, advance w))"

section \<open>What the program relies on\<close>

text \<open>
  \<open>rest ks p t\<close> are the keys a listing of the bucket keys \<open>ks\<close> still has to return after token \<open>t\<close>: at
  the start all keys with the prefix; a truncated page returns some of them and its token stands for
  the others; the last page returns what is left.
\<close>

locale services =
  fixes v :: svc and rest :: "string list \<Rightarrow> string \<Rightarrow> string option \<Rightarrow> string list"
  assumes validation_roundtrip: "encValidation v x = Inr b \<Longrightarrow> decValidation v b = Inr x"
    and list_start: "rest ks p None = filter (\<lambda>k. has_prefix k p) ks"
    and list_keys: "None \<notin> set (Contents (listPage v ks p t))"
    and list_more: "IsTruncated (listPage v ks p t) = Some True \<Longrightarrow>
        \<exists>t'. NextContinuationToken (listPage v ks p t) = Some t' \<and>
             rest ks p t = List.map_filter id (Contents (listPage v ks p t)) @ rest ks p (Some t') \<and>
             Contents (listPage v ks p t) \<noteq> []"
    and list_last: "IsTruncated (listPage v ks p t) \<noteq> Some True \<Longrightarrow>
        rest ks p t = List.map_filter id (Contents (listPage v ks p t))"

subsection \<open>A concrete service\<close>

text \<open>
  A validation is written as a flag byte, the decimal hash, a separator and the remaining fields;
  listings come in pages of a thousand keys, and the token is the number of keys already returned.
\<close>

definition plainEnc :: "BlockValidation \<Rightarrow> bytes res" where
  "plainEnc b = Inr ((if bvIsFork b then 1 else 0) #
     str_bytes (fmt_d (bvValidationHash b) @ ''/'' @ bvRest b))"

definition parse_d :: "string \<Rightarrow> int" where
  "parse_d s = (case s of
     [] \<Rightarrow> 0
   | c # r \<Rightarrow> if c = CHR ''-'' then - int (undecimal r) else int (undecimal s))"

definition plainDec :: "bytes \<Rightarrow> BlockValidation res" where
  "plainDec bs = (case bs of
     [] \<Rightarrow> Inl IOErr
   | f # r \<Rightarrow> (let s = bytes_str r in
       Inr \<lparr> bvValidationHash = parse_d (takeWhile (\<lambda>c. c \<noteq> CHR ''/'') s), bvIsFork = (f = 1),
             bvRest = drop 1 (dropWhile (\<lambda>c. c \<noteq> CHR ''/'') s) \<rparr>))"

definition pageSize :: nat where
  "pageSize = 1000"

definition tokenPos :: "string option \<Rightarrow> nat" where
  "tokenPos t = (case t of None \<Rightarrow> 0 | Some s \<Rightarrow> undecimal s)"

definition plainRest :: "string list \<Rightarrow> string \<Rightarrow> string option \<Rightarrow> string list" where
  "plainRest ks p t = drop (tokenPos t) (filter (\<lambda>k. has_prefix k p) ks)"

definition plainPage :: "string list \<Rightarrow> string \<Rightarrow> string option \<Rightarrow> ListPage" where
  "plainPage ks p t = (let r = plainRest ks p t; more = (length r > pageSize) in
     \<lparr> Contents = map Some (take pageSize r), IsTruncated = Some more,
       NextContinuationToken = (if more then Some (decimal (tokenPos t + pageSize)) else None) \<rparr>)"

definition plainBlockFile :: "bytes \<Rightarrow> (int \<times> string \<times> int) res" where
  "plainBlockFile bs = (case split_slash (bytes_str bs) of
     [h, p, t] \<Rightarrow> Inr (parse_d h, p, parse_d t) | _ \<Rightarrow> Inl IOErr)"

definition plainSvc :: svc where
  "plainSvc = \<lparr> encValidation = plainEnc, decValidation = plainDec, decBlockFile = plainBlockFile,
     listPage = plainPage, hexBig = (\<lambda>i. (if i < 0 then ''-0x'' else ''0x'') @ hexNat (nat \<bar>i\<bar>)) \<rparr>"

lemma parse_d_fmt_d [simp]: "parse_d (fmt_d i) = i"
proof (cases "decimal (nat \<bar>i\<bar>)")
  case (Cons c r)
  then have "c \<noteq> CHR ''-''" by (metis decimal_no_minus list.set_intros(1))
  then show ?thesis
    using undecimal_decimal [of "nat \<bar>i\<bar>"] Cons
    by (auto simp: parse_d_def fmt_d_def split: list.splits)
qed simp

lemma take_drop_sep:
  assumes "c \<notin> set a"
  shows "takeWhile (\<lambda>x. x \<noteq> c) (a @ c # b) = a" and "dropWhile (\<lambda>x. x \<noteq> c) (a @ c # b) = c # b"
  using assms by (induction a) auto

lemma map_filter_Some [simp]: "List.map_filter id (map Some xs) = xs"
  by (induction xs) (simp_all add: List.map_filter_def)

interpretation plain: services plainSvc plainRest
proof
  show "encValidation plainSvc x = Inr b \<Longrightarrow> decValidation plainSvc b = Inr x" for x b
    using take_drop_sep [of "CHR ''/''" "fmt_d (bvValidationHash x)" "bvRest x"]
    by (auto simp: plainSvc_def plainEnc_def plainDec_def Let_def)
  show "plainRest ks p None = filter (\<lambda>k. has_prefix k p) ks" for ks p
    by (simp add: plainRest_def tokenPos_def)
  show "None \<notin> set (Contents (listPage plainSvc ks p t))" for ks p t
    by (auto simp: plainSvc_def plainPage_def Let_def)
  show "\<exists>t'. NextContinuationToken (listPage plainSvc ks p t) = Some t' \<and>
             plainRest ks p t = List.map_filter id (Contents (listPage plainSvc ks p t)) @ plainRest ks p (Some t') \<and>
             Contents (listPage plainSvc ks p t) \<noteq> []"
    if "IsTruncated (listPage plainSvc ks p t) = Some True" for ks p t
  proof -
    have len: "length (plainRest ks p t) > pageSize"
      using that by (simp add: plainSvc_def plainPage_def Let_def)
    have "plainRest ks p t = take pageSize (plainRest ks p t) @ plainRest ks p (Some (decimal (tokenPos t + pageSize)))"
      by (simp add: plainRest_def tokenPos_def flip: drop_drop) (metis add.commute append_take_drop_id drop_drop)
    moreover have "take pageSize (plainRest ks p t) \<noteq> []" using len by (auto simp: pageSize_def)
    ultimately show ?thesis using len by (simp add: plainSvc_def plainPage_def Let_def)
  qed
  show "plainRest ks p t = List.map_filter id (Contents (listPage plainSvc ks p t))"
    if "IsTruncated (listPage plainSvc ks p t) \<noteq> Some True" for ks p t
    using that by (simp add: plainSvc_def plainPage_def Let_def)
qed

section \<open>Ticks change nothing else\<close>

lemma objects_advance [simp]: "objects (advance w) = objects w"
  by (simp add: advance_def)

lemma sleepCtx_objects: "sleepCtx ctx d w = (b, w') \<Longrightarrow> objects w' = objects w"
  by (auto simp: sleepCtx_def Let_def)

text \<open>Nobody else uploads.\<close>

definition no_uploads :: "world \<Rightarrow> bool" where
  "no_uploads w = (\<forall>t. uploads w t = [])"

definition fate_ok :: "world \<Rightarrow> bool" where
  "fate_ok w = (\<forall>t. fate w t = Ack)"

lemma arrive_quiet [simp]: "no_uploads w \<Longrightarrow> arrive w = w"
  by (simp add: arrive_def no_uploads_def)

lemma no_uploads_cong [simp]:
  "no_uploads (advance w) = no_uploads w" "no_uploads (w\<lparr>objects := ob\<rparr>) = no_uploads w"
  "no_uploads (arrive w) = no_uploads w"
  by (simp_all add: no_uploads_def advance_def arrive_def)

end
