(* ===== verification/S3Forks.thy ===== *)
theory S3Forks
  imports Config Extern World
begin

text \<open>
  The validation objects in S3 and their fork flags, \<^verbatim>\<open>check/check.go\<close> 443-774: keys and their
  parsing, retried reads and writes, paged listing, marking dropped blocks, the read-only plan of
  flag rewrites at one height and its execution. The lemmas show that a plan never marks the
  canonical block as a fork and never a sibling as canonical, that it is exact for what the bucket
  holds, and that planning and applying converges.
\<close>

section \<open>Keys\<close>

definition blockValidationPrefix :: "Config \<Rightarrow> u64 \<Rightarrow> string" where
  "blockValidationPrefix c blockNumber =
     (if IsVersionMode c
      then fmt_d (ChainID c) @ ''/'' @ Version c @ ''/'' @ fmt_u64 blockNumber @ ''/''
      else fmt_d (ChainID c) @ ''/'' @ fmt_u64 blockNumber @ ''/'')"

definition blockValidationKey :: "ext \<Rightarrow> Config \<Rightarrow> BlockContext \<Rightarrow> string" where
  "blockValidationKey x c b =
     (if IsVersionMode c
      then fmt_d (ChainID c) @ ''/'' @ Version c @ ''/'' @ fmt_u64 (BlockNumber b) @ ''/'' @ hashString x (Hash b)
      else fmt_d (ChainID c) @ ''/'' @ fmt_u64 (BlockNumber b) @ ''/'' @ hashString x (Hash b))"

definition blockValidationHashFromKey :: "Config \<Rightarrow> string \<Rightarrow> string option" where
  "blockValidationHashFromKey c key = (let keyParts = split_slash key in
     if IsVersionMode c
     then (if length keyParts \<noteq> 4 then None else Some (keyParts ! 3))
     else (if length keyParts \<noteq> 3 then None else Some (keyParts ! 2)))"

section \<open>Retried reads and writes\<close>

definition getRawValidationByKeyCtx :: "svc \<Rightarrow> ctx \<Rightarrow> string \<Rightarrow> world \<Rightarrow> BlockValidation res \<times> world" where
  "getRawValidationByKeyCtx v ctx key w =
     (case GetObject ctx key w of
        (Inl e, w') \<Rightarrow> (Inl e, w')
      | (Inr body, w') \<Rightarrow> (decValidation v body, w'))"

abbreviation retryS3 :: "ctx \<Rightarrow> (world \<Rightarrow> 'a res \<times> world) \<Rightarrow> world \<Rightarrow> 'a res \<times> world" where
  "retryS3 ctx fn \<equiv> retryWithBackoff (\<lambda>w. ctx_Err ctx w \<noteq> None) (sleepCtx ctx) s3RetryMaxWait fn"

definition getRawValidationByKeyWithReTryCtx ::
  "svc \<Rightarrow> ctx \<Rightarrow> string \<Rightarrow> world \<Rightarrow> BlockValidation res \<times> world" where
  "getRawValidationByKeyWithReTryCtx v ctx key w = retryS3 ctx (getRawValidationByKeyCtx v ctx key) w"

definition rewriteValidationAtKeyCtx ::
  "svc \<Rightarrow> ctx \<Rightarrow> string \<Rightarrow> BlockValidation \<Rightarrow> world \<Rightarrow> unit res \<times> world" where
  "rewriteValidationAtKeyCtx v ctx key validation w =
     (case encValidation v validation of
        Inl e \<Rightarrow> (Inl e, w)
      | Inr data \<Rightarrow> PutObject ctx key data w)"

definition rewriteValidationAtKeyWithRetry ::
  "svc \<Rightarrow> string \<Rightarrow> BlockValidation \<Rightarrow> world \<Rightarrow> unit res \<times> world" where
  "rewriteValidationAtKeyWithRetry v key validation w =
     retryS3 Background (rewriteValidationAtKeyCtx v Background key validation) w"

definition rewriteBlockWithRetry ::
  "ext \<Rightarrow> svc \<Rightarrow> Config \<Rightarrow> BlockContext \<Rightarrow> BlockValidation \<Rightarrow> world \<Rightarrow> unit res \<times> world" where
  "rewriteBlockWithRetry x v c b validation w =
     rewriteValidationAtKeyWithRetry v (blockValidationKey x c b) validation w"

section \<open>Listing a height\<close>

text \<open>
  The loop over pages; the first argument bounds the number of pages. The result of running out of
  it is the error \<open>Msg ''pages''\<close>, which no theorem about a successful listing admits.
\<close>

definition listObjectsRetry :: "svc \<Rightarrow> ctx \<Rightarrow> string \<Rightarrow> string option \<Rightarrow> world \<Rightarrow> ListPage res \<times> world" where
  "listObjectsRetry v ctx prefix token w = retryS3 ctx (ListObjectsV2 v ctx prefix token) w"

primrec listPages ::
  "nat \<Rightarrow> svc \<Rightarrow> ctx \<Rightarrow> string \<Rightarrow> string list \<Rightarrow> string option \<Rightarrow> world \<Rightarrow> string list res \<times> world" where
  "listPages 0 v ctx prefix keys token w = (Inl (Msg ''pages''), w)"
| "listPages (Suc n) v ctx prefix keys token w =
     (case listObjectsRetry v ctx prefix token w of
        (Inl e, w') \<Rightarrow> (Inl e, w')
      | (Inr resp, w') \<Rightarrow>
          (let keys' = keys @ List.map_filter id (Contents resp) in
           if IsTruncated resp = None \<or> IsTruncated resp = Some False then (Inr keys', w')
           else (case NextContinuationToken resp of
                   None \<Rightarrow> (Inl (Msg ''truncated without continuation token''), w')
                 | Some t \<Rightarrow> listPages n v ctx prefix keys' (Some t) w')))"

definition listBlockValidationKeysCtx ::
  "svc \<Rightarrow> Config \<Rightarrow> ctx \<Rightarrow> u64 \<Rightarrow> world \<Rightarrow> string list res \<times> world" where
  "listBlockValidationKeysCtx v c ctx blockNumber w =
     listPages (pageFuel w) v ctx (blockValidationPrefix c blockNumber) [] None w"

section \<open>Dropped blocks\<close>

text \<open>Failures are only counted; the second component is the number of blocks left unmarked.\<close>

primrec rewriteDropBlocks ::
  "ext \<Rightarrow> svc \<Rightarrow> Config \<Rightarrow> BlockContext list \<Rightarrow> world \<Rightarrow> nat \<times> world" where
  "rewriteDropBlocks x v c [] w = (0, w)"
| "rewriteDropBlocks x v c (block # blocks) w =
     (case getRawValidationByKeyWithReTryCtx v Background (blockValidationKey x c block) w of
        (Inl e, w1) \<Rightarrow> (case rewriteDropBlocks x v c blocks w1 of (n, w') \<Rightarrow> (Suc n, w'))
      | (Inr bv, w1) \<Rightarrow>
          if bvIsFork bv then rewriteDropBlocks x v c blocks w1
          else (case rewriteBlockWithRetry x v c block (bv\<lparr>bvIsFork := True\<rparr>) w1 of
                  (Inl e, w2) \<Rightarrow> (case rewriteDropBlocks x v c blocks w2 of (n, w') \<Rightarrow> (Suc n, w'))
                | (Inr _, w2) \<Rightarrow> rewriteDropBlocks x v c blocks w2))"

section \<open>Planning the rewrites of one height\<close>

text \<open>
  The prefetched data of a new block. A nil key slice is the empty list: \<^verbatim>\<open>listBlockValidationKeysCtx\<close>
  returns nil exactly when it found nothing.
\<close>

record blockPrefetch =
  pfValidation :: "BlockValidation option"
  pfValidationErr :: "err option"
  pfKeys :: "string list"
  pfKeysErr :: "err option"

record forkRewrite =
  rwKey :: string
  rwHash :: string
  rwValidation :: BlockValidation

definition hasCanonical :: "Config \<Rightarrow> string \<Rightarrow> string list \<Rightarrow> bool" where
  "hasCanonical c canonicalHash keys =
     list_ex (\<lambda>key. case blockValidationHashFromKey c key of
        None \<Rightarrow> False | Some h \<Rightarrow> EqualFold h canonicalHash) keys"

text \<open>The validation of a listed key: the canonical one may come with the hint, others are read.\<close>

definition fetchValidation ::
  "svc \<Rightarrow> ctx \<Rightarrow> BlockValidation option \<Rightarrow> bool \<Rightarrow> string \<Rightarrow> world \<Rightarrow> BlockValidation res \<times> world" where
  "fetchValidation v ctx cv isCanonical key w =
     (case (if isCanonical then cv else None) of
        Some validation \<Rightarrow> (Inr validation, w)
      | None \<Rightarrow> getRawValidationByKeyWithReTryCtx v ctx key w)"

text \<open>The loop over the keys; it returns whether the canonical key was seen, and the plan.\<close>

primrec planKeys ::
  "svc \<Rightarrow> Config \<Rightarrow> ctx \<Rightarrow> string \<Rightarrow> BlockValidation option \<Rightarrow> string list \<Rightarrow> bool \<Rightarrow> forkRewrite list \<Rightarrow>
   world \<Rightarrow> (bool \<times> forkRewrite list) res \<times> world" where
  "planKeys v c ctx canonicalHash cv [] found plan w = (Inr (found, plan), w)"
| "planKeys v c ctx canonicalHash cv (key # keys) found plan w =
     (case blockValidationHashFromKey c key of
        None \<Rightarrow> planKeys v c ctx canonicalHash cv keys found plan w
      | Some existing \<Rightarrow>
          (let isCanonical = EqualFold existing canonicalHash in
           case fetchValidation v ctx cv isCanonical key w of
             (Inl e, w') \<Rightarrow> (Inl (Wrap ''get block validation error'' e), w')
           | (Inr validation, w') \<Rightarrow>
               planKeys v c ctx canonicalHash cv keys (found \<or> isCanonical)
                 (if bvIsFork validation = (\<not> isCanonical) then plan
                  else plan @ [\<lparr> rwKey = key, rwHash = existing,
                                 rwValidation = validation\<lparr>bvIsFork := \<not> isCanonical\<rparr> \<rparr>]) w'))"

definition hintKeys :: "blockPrefetch option \<Rightarrow> string list" where
  "hintKeys hint = (case hint of None \<Rightarrow> [] | Some p \<Rightarrow> if pfKeysErr p = None then pfKeys p else [])"

definition hintValidation :: "blockPrefetch option \<Rightarrow> BlockValidation option" where
  "hintValidation hint = (case hint of None \<Rightarrow> None
     | Some p \<Rightarrow> if pfKeysErr p = None \<and> pfValidationErr p = None then pfValidation p else None)"

text \<open>The keys the plan is made from: the hinted ones, or a fresh listing.\<close>

definition planListing ::
  "svc \<Rightarrow> Config \<Rightarrow> ctx \<Rightarrow> u64 \<Rightarrow> string \<Rightarrow> string list \<Rightarrow> world \<Rightarrow> string list res \<times> world" where
  "planListing v c ctx blockNumber canonicalHash hinted w =
     (if hinted = [] then listBlockValidationKeysCtx v c ctx blockNumber w
      else if hasCanonical c canonicalHash hinted then (Inr hinted, w)
      else listBlockValidationKeysCtx v c ctx blockNumber w)"

definition planForkRewritesCtx ::
  "ext \<Rightarrow> svc \<Rightarrow> Config \<Rightarrow> ctx \<Rightarrow> BlockContext \<Rightarrow> blockPrefetch option \<Rightarrow> world \<Rightarrow> forkRewrite list res \<times> world" where
  "planForkRewritesCtx x v c ctx block hint w =
     (let canonicalHash = hashString x (Hash block) in
      case planListing v c ctx (BlockNumber block) canonicalHash (hintKeys hint) w of
        (Inl e, w1) \<Rightarrow> (Inl e, w1)
      | (Inr keys, w1) \<Rightarrow>
          (case planKeys v c ctx canonicalHash (hintValidation hint) keys False [] w1 of
             (Inl e, w2) \<Rightarrow> (Inl e, w2)
           | (Inr (found, plan), w2) \<Rightarrow>
               if \<not> found then (Inl (Msg ''canonical block not found in S3''), w2) else (Inr plan, w2)))"

primrec applyForkRewrites :: "svc \<Rightarrow> forkRewrite list \<Rightarrow> world \<Rightarrow> unit res \<times> world" where
  "applyForkRewrites v [] w = (Inr (), w)"
| "applyForkRewrites v (rw # plan) w =
     (case rewriteValidationAtKeyWithRetry v (rwKey rw) (rwValidation rw) w of
        (Inl e, w') \<Rightarrow> (Inl (Wrap ''rewrite block'' e), w')
      | (Inr _, w') \<Rightarrow> applyForkRewrites v plan w')"

definition rewriteForkBlocksAtHeight ::
  "ext \<Rightarrow> svc \<Rightarrow> Config \<Rightarrow> BlockContext \<Rightarrow> blockPrefetch option \<Rightarrow> world \<Rightarrow> bool res \<times> world" where
  "rewriteForkBlocksAtHeight x v c block hint w =
     (case planForkRewritesCtx x v c Background block hint w of
        (Inl e, w1) \<Rightarrow> (Inl e, w1)
      | (Inr plan, w1) \<Rightarrow>
          if plan = [] then (Inr True, w1)
          else (case applyForkRewrites v plan w1 of
                  (Inl e, w2) \<Rightarrow> (Inl e, w2)
                | (Inr _, w2) \<Rightarrow> (Inr False, w2)))"

text \<open>The attempts at one height; the argument counts the attempts left (\<^verbatim>\<open>attempt == 2\<close> is the last).\<close>

primrec rewriteAttempts ::
  "nat \<Rightarrow> ext \<Rightarrow> svc \<Rightarrow> Config \<Rightarrow> BlockContext \<Rightarrow> blockPrefetch option \<Rightarrow> world \<Rightarrow> unit res \<times> world" where
  "rewriteAttempts 0 x v c block hint w = (Inr (), w)"
| "rewriteAttempts (Suc n) x v c block hint w =
     (case rewriteForkBlocksAtHeight x v c block hint w of
        (Inl e, w1) \<Rightarrow> (Inl e, w1)
      | (Inr True, w1) \<Rightarrow> (Inr (), w1)
      | (Inr False, w1) \<Rightarrow>
          if n = 0 then (Inl (Msg ''rewrite fork blocks did not converge''), w1)
          else rewriteAttempts n x v c block None (advance w1))"

primrec rewriteForkBlocksAtSameHeight ::
  "ext \<Rightarrow> svc \<Rightarrow> Config \<Rightarrow> BlockContext list \<Rightarrow> blockPrefetch list \<Rightarrow> world \<Rightarrow> unit res \<times> world" where
  "rewriteForkBlocksAtSameHeight x v c [] prefetched w = (Inr (), w)"
| "rewriteForkBlocksAtSameHeight x v c (block # blocks) prefetched w =
     (case rewriteAttempts 3 x v c block (case prefetched of [] \<Rightarrow> None | p # _ \<Rightarrow> Some p) w of
        (Inl e, w') \<Rightarrow> (Inl e, w')
      | (Inr _, w') \<Rightarrow> rewriteForkBlocksAtSameHeight x v c blocks (drop 1 prefetched) w')"

section \<open>A bucket nobody else writes\<close>

definition quiet :: "(string \<times> bytes) list \<Rightarrow> world \<Rightarrow> bool" where
  "quiet ob w = (no_uploads w \<and> objects w = ob)"

lemma quiet_advance [simp]: "quiet ob (advance w) = quiet ob w"
  by (simp add: quiet_def)

lemma quiet_sleep: "quiet ob w \<Longrightarrow> sleepCtx ctx d w = (b, w') \<Longrightarrow> quiet ob w'"
  by (auto simp: sleepCtx_def Let_def)

lemma quiet_GetObject: "quiet ob w \<Longrightarrow> GetObject ctx key w = (r, w') \<Longrightarrow> quiet ob w'"
  by (auto simp: GetObject_def Let_def quiet_def)

lemma quiet_List: "quiet ob w \<Longrightarrow> ListObjectsV2 v ctx p t w = (r, w') \<Longrightarrow> quiet ob w'"
  by (auto simp: ListObjectsV2_def Let_def quiet_def)

lemma quiet_getRaw: "quiet ob w \<Longrightarrow> getRawValidationByKeyCtx v ctx key w = (r, w') \<Longrightarrow> quiet ob w'"
  by (auto simp: getRawValidationByKeyCtx_def split: prod.splits sum.splits dest: quiet_GetObject)

text \<open>The decoded object under a key.\<close>

definition stored_validation :: "svc \<Rightarrow> (string \<times> bytes) list \<Rightarrow> string \<Rightarrow> BlockValidation option" where
  "stored_validation v ob key = (case map_of ob key of
     None \<Rightarrow> None | Some b \<Rightarrow> (case decValidation v b of Inl _ \<Rightarrow> None | Inr bv \<Rightarrow> Some bv))"

lemma getRaw_stored:
  "quiet ob w \<Longrightarrow> getRawValidationByKeyCtx v ctx key w = (Inr bv, w') \<Longrightarrow> stored_validation v ob key = Some bv"
  by (auto simp: getRawValidationByKeyCtx_def GetObject_def Let_def quiet_def stored_validation_def
      split: prod.splits sum.splits option.splits)

lemma getRetry_quiet:
  assumes "quiet ob w" and "getRawValidationByKeyWithReTryCtx v ctx key w = (r, w')"
  shows "quiet ob w'" and "r = Inr bv \<Longrightarrow> stored_validation v ob key = Some bv"
proof -
  show "quiet ob w'"
    using assms(2) [unfolded getRawValidationByKeyWithReTryCtx_def] assms(1)
    by (rule retryWithBackoff_inv) (fact quiet_getRaw quiet_sleep)+
  show "stored_validation v ob key = Some bv" if "r = Inr bv"
  proof -
    have "\<exists>t. quiet ob t \<and> getRawValidationByKeyCtx v ctx key t = (Inr bv, w')"
      using assms(2) [unfolded getRawValidationByKeyWithReTryCtx_def that] assms(1)
      by (rule retryWithBackoff_ok) (fact quiet_getRaw quiet_sleep)+
    then show ?thesis using getRaw_stored by blast
  qed
qed

section \<open>Listing is complete\<close>

context services
begin

lemma listObjects_quiet:
  assumes "quiet ob w" and "listObjectsRetry v ctx prefix token w = (q, w1)"
  shows "quiet ob w1" and "q = Inr resp \<Longrightarrow> resp = listPage v (map fst ob) prefix token"
proof -
  show "quiet ob w1"
    using assms(2) [unfolded listObjectsRetry_def] assms(1)
    by (rule retryWithBackoff_inv) (fact quiet_List quiet_sleep)+
  show "resp = listPage v (map fst ob) prefix token" if "q = Inr resp"
  proof -
    have "\<exists>t. quiet ob t \<and> ListObjectsV2 v ctx prefix token t = (Inr resp, w1)"
      using assms(2) [unfolded listObjectsRetry_def that] assms(1)
      by (rule retryWithBackoff_ok) (fact quiet_List quiet_sleep)+
    then show ?thesis
      by (auto simp: ListObjectsV2_def Let_def quiet_def split: option.splits)
  qed
qed

lemma listPages_quiet:
  assumes "quiet ob w" and "listPages n v ctx prefix keys token w = (r, w')"
  shows "quiet ob w' \<and> (\<forall>ks. r = Inr ks \<longrightarrow> ks = keys @ rest (map fst ob) prefix token)"
  using assms
proof (induction n arbitrary: keys token w)
  case (Suc n)
  obtain q w1 where q: "listObjectsRetry v ctx prefix token w = (q, w1)"
    by (cases "listObjectsRetry v ctx prefix token w")
  note L = listObjects_quiet [OF Suc.prems(1) q]
  show ?case
  proof (cases q)
    case (Inl e)
    then show ?thesis using Suc.prems(2) q L(1) by auto
  next
    case (Inr resp)
    note pg = L(2) [OF Inr]
    show ?thesis
    proof (cases "IsTruncated resp = Some True")
      case True
      then obtain t where t: "NextContinuationToken resp = Some t"
        "rest (map fst ob) prefix token = List.map_filter id (Contents resp) @ rest (map fst ob) prefix (Some t)"
        using list_more [of "map fst ob" prefix token] pg by auto
      have "listPages n v ctx prefix (keys @ List.map_filter id (Contents resp)) (Some t) w1 = (r, w')"
        using Suc.prems(2) q Inr True t by (simp add: Let_def)
      from Suc.IH [OF L(1) this] show ?thesis using t(2) by simp
    next
      case False
      then have "rest (map fst ob) prefix token = List.map_filter id (Contents resp)"
        using list_last [of "map fst ob" prefix token] pg by simp
      moreover have "IsTruncated resp = None \<or> IsTruncated resp = Some False"
        using False by (cases "IsTruncated resp") auto
      ultimately show ?thesis using Suc.prems(2) q Inr L(1) by (auto simp: Let_def)
    qed
  qed
qed auto

lemma listKeys_quiet:
  assumes "quiet ob w" and "listBlockValidationKeysCtx v c ctx n w = (r, w')"
  shows "quiet ob w'"
    and "r = Inr ks \<Longrightarrow> ks = filter (\<lambda>k. has_prefix k (blockValidationPrefix c n)) (map fst ob)"
  using listPages_quiet [OF assms(1) assms(2) [unfolded listBlockValidationKeysCtx_def]]
  by (auto simp: list_start)

end

section \<open>What a plan contains\<close>

text \<open>The rewrite wanted for a key, when the bucket holds \<open>ob\<close> and \<open>ch\<close> is the canonical hash.\<close>

definition wanted :: "svc \<Rightarrow> Config \<Rightarrow> string \<Rightarrow> (string \<times> bytes) list \<Rightarrow> string \<Rightarrow> forkRewrite option" where
  "wanted v c ch ob key = (case blockValidationHashFromKey c key of
     None \<Rightarrow> None
   | Some h \<Rightarrow> (case stored_validation v ob key of
       None \<Rightarrow> None
     | Some bv \<Rightarrow> if bvIsFork bv = (\<not> EqualFold h ch) then None
         else Some \<lparr> rwKey = key, rwHash = h, rwValidation = bv\<lparr>bvIsFork := \<not> EqualFold h ch\<rparr> \<rparr>))"

text \<open>Flags in every plan are right for the key they are for, whatever happens outside.\<close>

definition plan_flags_ok :: "Config \<Rightarrow> string \<Rightarrow> forkRewrite list \<Rightarrow> bool" where
  "plan_flags_ok c ch plan = (\<forall>rw \<in> set plan. blockValidationHashFromKey c (rwKey rw) = Some (rwHash rw) \<and>
     bvIsFork (rwValidation rw) = (\<not> EqualFold (rwHash rw) ch))"

lemma planKeys_flags:
  assumes "planKeys v c ctx ch cv keys found plan w = (Inr (found', plan'), w')" and "plan_flags_ok c ch plan"
  shows "plan_flags_ok c ch plan'"
  using assms
proof (induction keys arbitrary: found plan w)
  case (Cons key keys)
  show ?case
  proof (cases "blockValidationHashFromKey c key")
    case None
    with Cons show ?thesis by simp
  next
    case (Some h)
    with Cons.prems(1) obtain bv w1 where bv: "fetchValidation v ctx cv (EqualFold h ch) key w = (Inr bv, w1)"
      by (auto simp: Let_def split: prod.splits sum.splits)
    let ?p = "if bvIsFork bv = (\<not> EqualFold h ch) then plan
       else plan @ [\<lparr> rwKey = key, rwHash = h, rwValidation = bv\<lparr>bvIsFork := \<not> EqualFold h ch\<rparr> \<rparr>]"
    have "planKeys v c ctx ch cv keys (found \<or> EqualFold h ch) ?p w1 = (Inr (found', plan'), w')"
      using Cons.prems(1) Some bv by (simp add: Let_def)
    moreover have "plan_flags_ok c ch ?p" using Cons.prems(2) Some by (auto simp: plan_flags_ok_def)
    ultimately show ?thesis by (rule Cons.IH)
  qed
qed simp

lemma plan_flags:
  assumes "planForkRewritesCtx x v c ctx block hint w = (Inr plan, w')"
  shows "plan_flags_ok c (hashString x (Hash block)) plan"
proof -
  obtain keys w1 found where "planKeys v c ctx (hashString x (Hash block)) (hintValidation hint) keys False [] w1 =
      (Inr (found, plan), w')"
    using assms by (auto simp: planForkRewritesCtx_def Let_def split: prod.splits sum.splits if_splits)
  then show ?thesis by (rule planKeys_flags) (simp add: plan_flags_ok_def)
qed

section \<open>Plans are exact\<close>

text \<open>A hinted canonical validation must be the stored one.\<close>

definition hint_current ::
  "svc \<Rightarrow> Config \<Rightarrow> string \<Rightarrow> (string \<times> bytes) list \<Rightarrow> BlockValidation option \<Rightarrow> bool" where
  "hint_current v c ch ob cv = (cv = None \<or> (\<forall>key \<in> set (map fst ob). \<forall>h.
     blockValidationHashFromKey c key = Some h \<and> EqualFold h ch \<longrightarrow> stored_validation v ob key = cv))"

lemma fetchValidation_quiet:
  assumes "quiet ob w" and "fetchValidation v ctx cv b key w = (r, w')"
    and "b \<and> cv \<noteq> None \<longrightarrow> stored_validation v ob key = cv"
  shows "quiet ob w'" and "r = Inr bv \<Longrightarrow> stored_validation v ob key = Some bv"
  using assms getRetry_quiet [OF assms(1)]
  by (auto simp: fetchValidation_def split: if_splits option.splits)

lemma planKeys_exact:
  assumes "quiet ob w" and "planKeys v c ctx ch cv keys found plan w = (r, w')"
    and "set keys \<subseteq> set (map fst ob)" and "hint_current v c ch ob cv"
  shows "quiet ob w' \<and> (\<forall>found' plan'. r = Inr (found', plan') \<longrightarrow>
     plan' = plan @ List.map_filter (wanted v c ch ob) keys \<and> found' = (found \<or> hasCanonical c ch keys) \<and>
     (\<forall>key \<in> set keys. blockValidationHashFromKey c key \<noteq> None \<longrightarrow> stored_validation v ob key \<noteq> None))"
  using assms(1-3)
proof (induction keys arbitrary: found plan w)
  case Nil
  then show ?case by (auto simp: hasCanonical_def List.map_filter_def)
next
  case (Cons key keys)
  show ?case
  proof (cases "blockValidationHashFromKey c key")
    case None
    then have "planKeys v c ctx ch cv keys found plan w = (r, w')" using Cons.prems(2) by simp
    from Cons.IH [OF Cons.prems(1) this] Cons.prems(3) None show ?thesis
      by (auto simp: hasCanonical_def wanted_def)
  next
    case (Some h)
    obtain q w1 where q: "fetchValidation v ctx cv (EqualFold h ch) key w = (q, w1)"
      by (cases "fetchValidation v ctx cv (EqualFold h ch) key w")
    have hc: "EqualFold h ch \<and> cv \<noteq> None \<longrightarrow> stored_validation v ob key = cv"
      using assms(4) Some Cons.prems(3) by (auto simp: hint_current_def)
    note F = fetchValidation_quiet [OF Cons.prems(1) q hc]
    show ?thesis
    proof (cases q)
      case (Inl e)
      then show ?thesis using Cons.prems(2) Some q F(1) by (auto simp: Let_def)
    next
      case (Inr bv)
      let ?p = "if bvIsFork bv = (\<not> EqualFold h ch) then plan
         else plan @ [\<lparr> rwKey = key, rwHash = h, rwValidation = bv\<lparr>bvIsFork := \<not> EqualFold h ch\<rparr> \<rparr>]"
      have pk: "planKeys v c ctx ch cv keys (found \<or> EqualFold h ch) ?p w1 = (r, w')"
        using Cons.prems(2) Some q Inr by (simp add: Let_def)
      have sub: "set keys \<subseteq> set (map fst ob)" using Cons.prems(3) by simp
      have w:  "?p @ List.map_filter (wanted v c ch ob) keys = plan @ List.map_filter (wanted v c ch ob) (key # keys)"
        using F(2) [OF Inr] Some by (simp add: wanted_def List.map_filter_def)
      show ?thesis
        using Cons.IH [OF F(1) pk sub, unfolded w] F(2) [OF Inr] Some by (simp add: hasCanonical_def disj_assoc)
    qed
  qed
qed

text \<open>The keys of the bucket at one height, and when their flags agree with the canonical hash.\<close>

definition height_keys :: "Config \<Rightarrow> u64 \<Rightarrow> (string \<times> bytes) list \<Rightarrow> string list" where
  "height_keys c n ob = filter (\<lambda>k. has_prefix k (blockValidationPrefix c n)) (map fst ob)"

definition flags_agree :: "svc \<Rightarrow> Config \<Rightarrow> string \<Rightarrow> string list \<Rightarrow> (string \<times> bytes) list \<Rightarrow> bool" where
  "flags_agree v c ch keys ob = (\<forall>key \<in> set keys. \<forall>h. blockValidationHashFromKey c key = Some h \<longrightarrow>
     (\<exists>bv. stored_validation v ob key = Some bv \<and> bvIsFork bv = (\<not> EqualFold h ch)))"

lemma wanted_None_agree:
  assumes "List.map_filter (wanted v c ch ob) keys = []"
    and "\<And>key. key \<in> set keys \<Longrightarrow> blockValidationHashFromKey c key \<noteq> None \<Longrightarrow> stored_validation v ob key \<noteq> None"
  shows "flags_agree v c ch keys ob"
  unfolding flags_agree_def
proof (intro ballI allI impI)
  fix key h assume k: "key \<in> set keys" "blockValidationHashFromKey c key = Some h"
  then obtain bv where bv: "stored_validation v ob key = Some bv" using assms(2) by fastforce
  have "wanted v c ch ob key = None"
    using assms(1) k(1) by (auto simp: List.map_filter_def filter_empty_conv)
  with k(2) bv show "\<exists>bv. stored_validation v ob key = Some bv \<and> bvIsFork bv = (\<not> EqualFold h ch)"
    by (auto simp: wanted_def split: if_splits)
qed

context services
begin

lemma planListing_quiet:
  assumes "quiet ob w" and "planListing v c ctx n ch [] w = (r, w')"
  shows "quiet ob w'" and "r = Inr ks \<Longrightarrow> ks = height_keys c n ob"
  using listKeys_quiet [OF assms(1)] assms(2) by (auto simp: planListing_def height_keys_def)

lemma plan_exact:
  assumes "quiet ob w" and "planForkRewritesCtx x v c ctx block hint w = (Inr plan, w')"
    and "hintKeys hint = []" and "hint_current v c (hashString x (Hash block)) ob (hintValidation hint)"
  shows "quiet ob w'"
    and "plan = List.map_filter (wanted v c (hashString x (Hash block)) ob) (height_keys c (BlockNumber block) ob)"
    and "hasCanonical c (hashString x (Hash block)) (height_keys c (BlockNumber block) ob)"
    and "key \<in> set (height_keys c (BlockNumber block) ob) \<Longrightarrow> blockValidationHashFromKey c key \<noteq> None \<Longrightarrow>
      stored_validation v ob key \<noteq> None"
proof -
  let ?ch = "hashString x (Hash block)"
  obtain keys w1 where l: "planListing v c ctx (BlockNumber block) ?ch [] w = (Inr keys, w1)"
    and p: "planKeys v c ctx ?ch (hintValidation hint) keys False [] w1 = (Inr (True, plan), w')"
    using assms(2,3) by (auto simp: planForkRewritesCtx_def Let_def split: prod.splits sum.splits if_splits)
  note L = planListing_quiet [OF assms(1) l]
  have ks: "keys = height_keys c (BlockNumber block) ob" using L(2) by simp
  have sub: "set keys \<subseteq> set (map fst ob)" by (auto simp: ks height_keys_def)
  note Q = planKeys_exact [OF L(1) p sub assms(4)]
  note E = Q [THEN conjunct2, rule_format, OF refl]
  show "quiet ob w'" using Q by blast
  show "plan = List.map_filter (wanted v c ?ch ob) (height_keys c (BlockNumber block) ob)"
    using E by (simp add: ks)
  show "hasCanonical c ?ch (height_keys c (BlockNumber block) ob)" using E by (simp add: ks)
  show "stored_validation v ob key \<noteq> None"
    if "key \<in> set (height_keys c (BlockNumber block) ob)" "blockValidationHashFromKey c key \<noteq> None"
    using E that by (simp add: ks)
qed

end

section \<open>Applying a plan\<close>

lemma update_twice [simp]: "AList.update k d (AList.update k d ob) = AList.update k d ob"
  by (induction ob) auto

text \<open>During the attempts to write \<open>d\<close> under \<open>key\<close> the bucket is as before or already has it.\<close>

definition putting :: "string \<Rightarrow> bytes \<Rightarrow> (string \<times> bytes) list \<Rightarrow> world \<Rightarrow> bool" where
  "putting key d ob w = (no_uploads w \<and> (objects w = ob \<or> objects w = AList.update key d ob))"

lemma putting_Put:
  assumes "putting key d ob w" and "PutObject ctx key d w = (r, w')"
  shows "putting key d ob w'" and "r = Inr u \<Longrightarrow> quiet (AList.update key d ob) w'"
  using assms by (auto simp: PutObject_def putting_def quiet_def Let_def split: option.splits if_splits)

lemma rewriteKey_quiet:
  assumes "quiet ob w" and "rewriteValidationAtKeyWithRetry v key bv w = (Inr (), w')"
  obtains d where "encValidation v bv = Inr d" and "quiet (AList.update key d ob) w'"
proof (cases "encValidation v bv")
  case (Inl e)
  have "\<exists>t. quiet ob t \<and> rewriteValidationAtKeyCtx v Background key bv t = (Inr (), w')"
    using assms(2) [unfolded rewriteValidationAtKeyWithRetry_def] assms(1)
    by (rule retryWithBackoff_ok) (simp_all add: rewriteValidationAtKeyCtx_def Inl quiet_sleep)
  then show ?thesis by (simp add: rewriteValidationAtKeyCtx_def Inl)
next
  case (Inr d)
  have "putting key d ob w" using assms(1) by (simp add: putting_def quiet_def)
  with assms(2) [unfolded rewriteValidationAtKeyWithRetry_def]
  have "\<exists>t. putting key d ob t \<and> rewriteValidationAtKeyCtx v Background key bv t = (Inr (), w')"
    by (rule retryWithBackoff_ok)
      (auto simp: rewriteValidationAtKeyCtx_def Inr putting_Put(1),
       auto simp: sleepCtx_def Let_def putting_def)
  then have "quiet (AList.update key d ob) w'"
    by (auto simp: rewriteValidationAtKeyCtx_def Inr dest: putting_Put(2))
  with Inr that show ?thesis by blast
qed

definition plan_functional :: "forkRewrite list \<Rightarrow> bool" where
  "plan_functional plan = (\<forall>a \<in> set plan. \<forall>b \<in> set plan. rwKey a = rwKey b \<longrightarrow> a = b)"

lemma wanted_key: "wanted v c ch ob key = Some rw \<Longrightarrow> rwKey rw = key"
  by (auto simp: wanted_def split: option.splits if_splits)

lemma wanted_functional: "plan_functional (List.map_filter (wanted v c ch ob) keys)"
  by (auto simp: plan_functional_def List.map_filter_def) (metis option.inject wanted_key)

context services
begin

lemma apply_quiet:
  assumes "quiet ob w" and "applyForkRewrites v plan w = (Inr (), w')"
    and "rwKey ` set plan \<subseteq> set (map fst ob)" and "plan_functional plan"
  shows "\<exists>ob'. quiet ob' w' \<and> map fst ob' = map fst ob \<and>
    (\<forall>key. key \<notin> rwKey ` set plan \<longrightarrow> map_of ob' key = map_of ob key) \<and>
    (\<forall>rw \<in> set plan. stored_validation v ob' (rwKey rw) = Some (rwValidation rw))"
  using assms
proof (induction plan arbitrary: ob w)
  case Nil
  then show ?case by auto
next
  case (Cons rw plan)
  obtain w1 where w1: "rewriteValidationAtKeyWithRetry v (rwKey rw) (rwValidation rw) w = (Inr (), w1)"
    and ap: "applyForkRewrites v plan w1 = (Inr (), w')"
    using Cons.prems(2) by (auto split: prod.splits sum.splits)
  obtain d where d: "encValidation v (rwValidation rw) = Inr d"
    and q1: "quiet (AList.update (rwKey rw) d ob) w1"
    using rewriteKey_quiet [OF Cons.prems(1) w1] by blast
  let ?ob = "AList.update (rwKey rw) d ob"
  have k: "map fst ?ob = map fst ob"
    using Cons.prems(3) by (simp add: update_keys)
  have "rwKey ` set plan \<subseteq> set (map fst ?ob)" using Cons.prems(3) unfolding k by simp
  moreover have "plan_functional plan" using Cons.prems(4) by (auto simp: plan_functional_def)
  ultimately obtain ob' where ob': "quiet ob' w'" "map fst ob' = map fst ?ob"
    "\<And>key. key \<notin> rwKey ` set plan \<Longrightarrow> map_of ob' key = map_of ?ob key"
    "\<And>r. r \<in> set plan \<Longrightarrow> stored_validation v ob' (rwKey r) = Some (rwValidation r)"
    using Cons.IH [OF q1 ap] by blast
  have "stored_validation v ob' (rwKey rw) = Some (rwValidation rw)"
  proof (cases "rwKey rw \<in> rwKey ` set plan")
    case True
    then obtain r where "r \<in> set plan" "rwKey r = rwKey rw" by auto
    moreover from this have "r = rw" using Cons.prems(4) by (auto simp: plan_functional_def)
    ultimately show ?thesis using ob'(4) by blast
  next
    case False
    then show ?thesis
      using ob'(3) [OF False] validation_roundtrip [OF d] by (simp add: stored_validation_def update_conv)
  qed
  moreover have "map_of ob' key = map_of ob key" if "key \<notin> rwKey ` set (rw # plan)" for key
    using ob'(3) [of key] that by (simp add: update_conv)
  ultimately show ?case using ob' k by (intro exI [of _ ob']) auto
qed

lemma stored_cong: "map_of ob' key = map_of ob key \<Longrightarrow> stored_validation v ob' key = stored_validation v ob key"
  by (simp add: stored_validation_def)

text \<open>Applying the exact plan for a list of keys makes all their flags agree.\<close>

lemma apply_exact_agree:
  assumes ap: "\<And>key. key \<notin> rwKey ` set plan \<Longrightarrow> map_of ob' key = map_of ob key"
    "\<And>rw. rw \<in> set plan \<Longrightarrow> stored_validation v ob' (rwKey rw) = Some (rwValidation rw)"
    and plan: "plan = List.map_filter (wanted v c ch ob) keys"
    and dec: "\<And>key. key \<in> set keys \<Longrightarrow> blockValidationHashFromKey c key \<noteq> None \<Longrightarrow> stored_validation v ob key \<noteq> None"
  shows "flags_agree v c ch keys ob'"
  unfolding flags_agree_def
proof (intro ballI allI impI)
  fix key h assume k: "key \<in> set keys" "blockValidationHashFromKey c key = Some h"
  obtain bv where bv: "stored_validation v ob key = Some bv" using dec k by fastforce
  show "\<exists>bv. stored_validation v ob' key = Some bv \<and> bvIsFork bv = (\<not> EqualFold h ch)"
  proof (cases "wanted v c ch ob key")
    case None
    then have "bvIsFork bv = (\<not> EqualFold h ch)" using k bv by (auto simp: wanted_def split: if_splits)
    moreover have "key \<notin> rwKey ` set plan"
    proof
      assume "key \<in> rwKey ` set plan"
      then obtain k rw where "wanted v c ch ob k = Some rw" "rwKey rw = key"
        by (auto simp: plan List.map_filter_def)
      then show False using wanted_key [of v c ch ob k rw] None by simp
    qed
    ultimately show ?thesis using stored_cong [OF ap(1) [of key]] bv by simp
  next
    case (Some rw)
    then have "rw \<in> set plan" using k(1) by (force simp: plan List.map_filter_def)
    moreover have "rwKey rw = key" "bvIsFork (rwValidation rw) = (\<not> EqualFold h ch)"
      using Some k(2) by (auto simp: wanted_def split: option.splits if_splits)
    ultimately show ?thesis using ap(2) by auto
  qed
qed

lemma agree_no_plan: "flags_agree v c ch keys ob \<Longrightarrow> List.map_filter (wanted v c ch ob) keys = []"
  by (auto simp: flags_agree_def List.map_filter_def filter_empty_conv wanted_def split: option.splits)

end

section \<open>Properties\<close>

text \<open>
  What one round leaves behind when nobody else writes: every flag at the height agrees with the
  canonical hash, the canonical object exists, and no object of another key is touched.
\<close>

definition height_settled ::
  "svc \<Rightarrow> Config \<Rightarrow> string \<Rightarrow> u64 \<Rightarrow> (string \<times> bytes) list \<Rightarrow> (string \<times> bytes) list \<Rightarrow> bool" where
  "height_settled v c ch n ob ob' =
     (flags_agree v c ch (height_keys c n ob') ob' \<and> hasCanonical c ch (height_keys c n ob') \<and>
      map fst ob' = map fst ob \<and> (\<forall>key. key \<notin> set (height_keys c n ob) \<longrightarrow> map_of ob' key = map_of ob key))"

lemma height_keys_cong: "map fst ob' = map fst ob \<Longrightarrow> height_keys c n ob' = height_keys c n ob"
  by (simp add: height_keys_def)

context services
begin

lemma planned_settles:
  assumes "quiet ob w" and "planForkRewritesCtx x v c ctx block hint w = (Inr plan, w1)"
    and "applyForkRewrites v plan w1 = (Inr (), w')"
    and "hintKeys hint = []" and "hint_current v c (hashString x (Hash block)) ob (hintValidation hint)"
  shows "\<exists>ob'. quiet ob' w' \<and> height_settled v c (hashString x (Hash block)) (BlockNumber block) ob ob' \<and>
    (flags_agree v c (hashString x (Hash block)) (height_keys c (BlockNumber block) ob) ob \<longrightarrow> plan = [])"
proof -
  let ?ch = "hashString x (Hash block)" and ?n = "BlockNumber block"
  note E = plan_exact [OF assms(1,2,4,5)]
  have E4: "stored_validation v ob key \<noteq> None"
    if "key \<in> set (height_keys c ?n ob)" "blockValidationHashFromKey c key \<noteq> None" for key
    using that by (rule E(4))
  have keys: "rwKey ` set plan \<subseteq> set (height_keys c ?n ob)"
    unfolding E(2) by (auto simp: List.map_filter_def dest: wanted_key)
  then have "rwKey ` set plan \<subseteq> set (map fst ob)" by (auto simp: height_keys_def)
  moreover have "plan_functional plan" unfolding E(2) by (rule wanted_functional)
  ultimately obtain ob' where ob': "quiet ob' w'" "map fst ob' = map fst ob"
    "\<And>key. key \<notin> rwKey ` set plan \<Longrightarrow> map_of ob' key = map_of ob key"
    "\<And>rw. rw \<in> set plan \<Longrightarrow> stored_validation v ob' (rwKey rw) = Some (rwValidation rw)"
    using apply_quiet [OF E(1) assms(3)] by blast
  have "flags_agree v c ?ch (height_keys c ?n ob) ob'"
    using ob'(3,4) E(2) E4 by (rule apply_exact_agree)
  moreover have "flags_agree v c ?ch (height_keys c ?n ob) ob \<longrightarrow> plan = []"
    using E(2) agree_no_plan by auto
  moreover have "map_of ob' key = map_of ob key" if "key \<notin> set (height_keys c ?n ob)" for key
    using ob'(3) keys that by blast
  ultimately show ?thesis
    using ob'(1,2) E(3) height_keys_cong [OF ob'(2)] by (auto simp: height_settled_def)
qed

lemma atHeight_settles:
  assumes "quiet ob w" and "rewriteForkBlocksAtHeight x v c block hint w = (Inr done, w')"
    and "hintKeys hint = []" and "hint_current v c (hashString x (Hash block)) ob (hintValidation hint)"
  shows "\<exists>ob'. quiet ob' w' \<and> height_settled v c (hashString x (Hash block)) (BlockNumber block) ob ob' \<and>
    (flags_agree v c (hashString x (Hash block)) (height_keys c (BlockNumber block) ob) ob \<longrightarrow> done)"
proof -
  obtain plan w1 where p: "planForkRewritesCtx x v c Background block hint w = (Inr plan, w1)"
    using assms(2) by (auto simp: rewriteForkBlocksAtHeight_def split: prod.splits sum.splits)
  then have "applyForkRewrites v plan w1 = (Inr (), w')" "plan = [] \<longrightarrow> done"
    using assms(2) by (auto simp: rewriteForkBlocksAtHeight_def split: prod.splits sum.splits if_splits)
  then show ?thesis using planned_settles [OF assms(1) p _ assms(3,4)] by blast
qed

lemma settled_trans:
  assumes "height_settled v c ch n ob ob1" and "height_settled v c ch n ob1 ob2"
  shows "height_settled v c ch n ob ob2"
proof -
  have "map fst ob1 = map fst ob" using assms(1) by (simp add: height_settled_def)
  from height_keys_cong [OF this] assms show ?thesis by (simp add: height_settled_def)
qed

text \<open>
  The first round settles the height; the second, on a fresh listing, finds nothing to do. Any error
  is the error of one of these two rounds.
\<close>

lemma attempts_settle:
  assumes "quiet ob w" and "rewriteAttempts 3 x v c block hint w = (r, w')"
    and "hintKeys hint = []" and "hint_current v c (hashString x (Hash block)) ob (hintValidation hint)"
  shows "(\<exists>ob'. r = Inr () \<and> quiet ob' w' \<and> height_settled v c (hashString x (Hash block)) (BlockNumber block) ob ob') \<or>
    (\<exists>e hint' t. r = Inl e \<and> rewriteForkBlocksAtHeight x v c block hint' t = (Inl e, w'))"
proof -
  let ?ch = "hashString x (Hash block)" and ?n = "BlockNumber block"
  have three: "(3::nat) = Suc (Suc (Suc 0))" by simp
  obtain q w1 where q: "rewriteForkBlocksAtHeight x v c block hint w = (q, w1)"
    by (cases "rewriteForkBlocksAtHeight x v c block hint w")
  show ?thesis
  proof (cases q)
    case (Inl e)
    then show ?thesis using assms(2) q unfolding three by auto
  next
    case (Inr d)
    obtain ob1 where ob1: "quiet ob1 w1" "height_settled v c ?ch ?n ob ob1"
      using atHeight_settles [OF assms(1) q [unfolded Inr] assms(3,4)] by blast
    show ?thesis
    proof (cases d)
      case True
      then show ?thesis using assms(2) q Inr ob1 unfolding three by auto
    next
      case False
      obtain q2 w2 where q2: "rewriteForkBlocksAtHeight x v c block None (advance w1) = (q2, w2)"
        by (cases "rewriteForkBlocksAtHeight x v c block None (advance w1)")
      show ?thesis
      proof (cases q2)
        case (Inl e)
        then show ?thesis using assms(2) q Inr False q2 unfolding three by auto
      next
        case (Inr d2)
        have hints: "hintKeys None = []" "hint_current v c ?ch ob1 (hintValidation None)"
          by (simp_all add: hintKeys_def hintValidation_def hint_current_def)
        have qa: "quiet ob1 (advance w1)" using ob1(1) by simp
        obtain ob2 where ob2: "quiet ob2 w2" "height_settled v c ?ch ?n ob1 ob2" and "d2"
          using atHeight_settles [OF qa q2 [unfolded Inr] hints] ob1(2)
          by (auto simp: height_settled_def)
        then show ?thesis
          using assms(2) q \<open>q = Inr d\<close> False q2 Inr settled_trans [OF ob1(2) ob2(2)]
          unfolding three by auto
      qed
    qed
  qed
qed

end

section \<open>Progress when every call is acknowledged\<close>

definition calm :: "(string \<times> bytes) list \<Rightarrow> nat \<Rightarrow> world \<Rightarrow> bool" where
  "calm ob n w = (quiet ob w \<and> fate_ok w \<and> pageFuel w = n)"

lemma calm_advance [simp]: "calm ob n (advance w) = calm ob n w"
  by (simp add: calm_def fate_ok_def advance_def quiet_def no_uploads_def)

lemma calm_apiErr: "calm ob n w \<Longrightarrow> apiErr Background w = None"
  by (simp add: apiErr_def ctx_Err_def Background_def calm_def fate_ok_def)

lemma calm_get:
  assumes "calm ob n w" and "stored_validation v ob key = Some bv"
  shows "getRawValidationByKeyWithReTryCtx v Background key w = (Inr bv, advance w)"
  unfolding getRawValidationByKeyWithReTryCtx_def
proof (rule retryWithBackoff_first)
  have "arrive w = w" "objects w = ob" using assms(1) by (simp_all add: calm_def quiet_def)
  then show "getRawValidationByKeyCtx v Background key w = (Inr bv, advance w)"
    using assms(2) calm_apiErr [OF assms(1)]
    by (auto simp: getRawValidationByKeyCtx_def GetObject_def Let_def stored_validation_def
        split: option.splits sum.splits)
qed

lemma calm_put:
  assumes "calm ob n w" and "encValidation v bv = Inr d"
  shows "rewriteValidationAtKeyWithRetry v key bv w = (Inr (), advance (w\<lparr>objects := AList.update key d ob\<rparr>))"
    and "calm (AList.update key d ob) n (advance (w\<lparr>objects := AList.update key d ob\<rparr>))"
proof -
  have a: "arrive w = w" "objects w = ob" using assms(1) by (simp_all add: calm_def quiet_def)
  show "rewriteValidationAtKeyWithRetry v key bv w = (Inr (), advance (w\<lparr>objects := AList.update key d ob\<rparr>))"
    unfolding rewriteValidationAtKeyWithRetry_def
    by (rule retryWithBackoff_first)
      (use a assms(2) calm_apiErr [OF assms(1)] in \<open>simp add: rewriteValidationAtKeyCtx_def PutObject_def Let_def\<close>)
  show "calm (AList.update key d ob) n (advance (w\<lparr>objects := AList.update key d ob\<rparr>))"
    using assms(1) by (simp add: calm_def quiet_def no_uploads_def fate_ok_def advance_def)
qed

lemma calm_apply:
  assumes "calm ob n w" and "\<And>bv. \<exists>d. encValidation v bv = Inr d"
  shows "\<exists>ob' w'. applyForkRewrites v plan w = (Inr (), w') \<and> calm ob' n w'"
  using assms(1)
proof (induction plan arbitrary: ob w)
  case Nil
  then show ?case by auto
next
  case (Cons rw plan)
  obtain d where d: "encValidation v (rwValidation rw) = Inr d" using assms(2) by blast
  from Cons.IH [OF calm_put(2) [OF Cons.prems d, of "rwKey rw"]] calm_put(1) [OF Cons.prems d, of "rwKey rw"]
  show ?case by simp
qed

lemma calm_planKeys:
  assumes "calm ob n w" and "set keys \<subseteq> set (map fst ob)" and "hint_current v c ch ob cv"
    and "\<And>key. key \<in> set keys \<Longrightarrow> blockValidationHashFromKey c key \<noteq> None \<Longrightarrow> stored_validation v ob key \<noteq> None"
  shows "\<exists>r w'. planKeys v c Background ch cv keys found plan w = (Inr r, w') \<and> calm ob n w'"
  using assms(1,2,4)
proof (induction keys arbitrary: found plan w)
  case Nil
  then show ?case by simp
next
  case (Cons key keys)
  have IH: "\<exists>r w'. planKeys v c Background ch cv keys f p u = (Inr r, w') \<and> calm ob n w'"
    if "calm ob n u" for f p u
    using Cons.IH [OF that] Cons.prems(2,3) by simp
  show ?case
  proof (cases "blockValidationHashFromKey c key")
    case None
    then show ?thesis using IH [OF Cons.prems(1)] by simp
  next
    case (Some h)
    then obtain bv where bv: "stored_validation v ob key = Some bv" using Cons.prems(3) by fastforce
    have "\<exists>y u. fetchValidation v Background cv (EqualFold h ch) key w = (Inr y, u) \<and> calm ob n u"
      using calm_get [OF Cons.prems(1) bv] Cons.prems(1)
      by (auto simp: fetchValidation_def split: option.splits)
    then show ?thesis using IH Some by (auto simp: Let_def)
  qed
qed

context services
begin

lemma calm_listPages:
  assumes "calm ob n w" and "length (rest (map fst ob) prefix token) < k"
  shows "\<exists>ks w'. listPages k v Background prefix keys token w = (Inr ks, w') \<and> calm ob n w'"
  using assms
proof (induction k arbitrary: keys token w)
  case (Suc k)
  let ?pg = "listPage v (map fst ob) prefix token"
  have "arrive w = w" "objects w = ob" using Suc.prems(1) by (simp_all add: calm_def quiet_def)
  then have l: "listObjectsRetry v Background prefix token w = (Inr ?pg, advance w)"
    unfolding listObjectsRetry_def using calm_apiErr [OF Suc.prems(1)]
    by (intro retryWithBackoff_first) (simp add: ListObjectsV2_def Let_def)
  show ?case
  proof (cases "IsTruncated ?pg = Some True")
    case True
    then obtain t where t: "NextContinuationToken ?pg = Some t"
      "rest (map fst ob) prefix token = List.map_filter id (Contents ?pg) @ rest (map fst ob) prefix (Some t)"
      and "Contents ?pg \<noteq> []"
      using list_more by blast
    then have "List.map_filter id (Contents ?pg) \<noteq> []"
      using list_keys [of "map fst ob" prefix token]
      by (cases "Contents ?pg") (auto simp: List.map_filter_def)
    then have "length (rest (map fst ob) prefix (Some t)) < k" using t(2) Suc.prems(2)
      by (cases "List.map_filter id (Contents ?pg)") auto
    then show ?thesis
      using Suc.IH [of "advance w" "Some t"] Suc.prems(1) l True t(1) by (simp add: Let_def)
  next
    case False
    then have "IsTruncated ?pg = None \<or> IsTruncated ?pg = Some False" by (cases "IsTruncated ?pg") auto
    then show ?thesis using l Suc.prems(1) by (auto simp: Let_def)
  qed
qed simp

lemma calm_plan:
  assumes "calm ob n w" and "hintKeys hint = []"
    and "hint_current v c (hashString x (Hash block)) ob (hintValidation hint)"
    and "length (height_keys c (BlockNumber block) ob) < n"
    and "hasCanonical c (hashString x (Hash block)) (height_keys c (BlockNumber block) ob)"
    and "\<And>key. key \<in> set (height_keys c (BlockNumber block) ob) \<Longrightarrow>
       blockValidationHashFromKey c key \<noteq> None \<Longrightarrow> stored_validation v ob key \<noteq> None"
  shows "\<exists>plan w'. planForkRewritesCtx x v c Background block hint w = (Inr plan, w') \<and> calm ob n w'"
proof -
  let ?ch = "hashString x (Hash block)" and ?ks = "height_keys c (BlockNumber block) ob"
  have "length (rest (map fst ob) (blockValidationPrefix c (BlockNumber block)) None) < pageFuel w"
    using assms(1,4) by (simp add: list_start height_keys_def calm_def)
  from calm_listPages [OF assms(1) this, of "[]"] obtain ks w1 where
    l: "planListing v c Background (BlockNumber block) ?ch [] w = (Inr ks, w1)" and c1: "calm ob n w1"
    by (auto simp: planListing_def listBlockValidationKeysCtx_def)
  have q: "quiet ob w" "quiet ob w1" using assms(1) c1 by (simp_all add: calm_def)
  have ks: "ks = ?ks" using planListing_quiet(2) [OF q(1) l] by simp
  have sub: "set ?ks \<subseteq> set (map fst ob)" by (auto simp: height_keys_def)
  obtain found plan w2 where p: "planKeys v c Background ?ch (hintValidation hint) ?ks False [] w1 = (Inr (found, plan), w2)"
    and c2: "calm ob n w2"
    using calm_planKeys [OF c1 sub assms(3,6)] by (metis surj_pair)
  have found using planKeys_exact [OF q(2) p sub assms(3)] assms(5) by simp
  then show ?thesis using l p c2 assms(2) by (simp add: planForkRewritesCtx_def Let_def ks)
qed

text \<open>A round ends without an error, and after it the bucket is as \<open>atHeight_settles\<close> says.\<close>

lemma calm_round:
  assumes "calm ob n w" and "hintKeys hint = []"
    and "hint_current v c (hashString x (Hash block)) ob (hintValidation hint)"
    and "length (height_keys c (BlockNumber block) ob) < n"
    and "hasCanonical c (hashString x (Hash block)) (height_keys c (BlockNumber block) ob)"
    and "\<And>key. key \<in> set (height_keys c (BlockNumber block) ob) \<Longrightarrow>
       blockValidationHashFromKey c key \<noteq> None \<Longrightarrow> stored_validation v ob key \<noteq> None"
    and "\<And>bv. \<exists>d. encValidation v bv = Inr d"
  shows "\<exists>b ob' w'. rewriteForkBlocksAtHeight x v c block hint w = (Inr b, w') \<and> calm ob' n w' \<and>
    height_settled v c (hashString x (Hash block)) (BlockNumber block) ob ob'"
proof -
  obtain plan w1 where p: "planForkRewritesCtx x v c Background block hint w = (Inr plan, w1)" "calm ob n w1"
    using calm_plan [OF assms(1-6)] by blast
  obtain ob' w' where "applyForkRewrites v plan w1 = (Inr (), w')" "calm ob' n w'"
    using calm_apply [OF p(2) assms(7)] by blast
  then obtain b ob2 w2 where r: "rewriteForkBlocksAtHeight x v c block hint w = (Inr b, w2)" and c2: "calm ob2 n w2"
    using p by (cases "plan = []") (auto simp: rewriteForkBlocksAtHeight_def)
  have "quiet ob w" using assms(1) by (simp add: calm_def)
  from atHeight_settles [OF this r assms(2,3)] obtain ob3 where
    ob3: "quiet ob3 w2" "height_settled v c (hashString x (Hash block)) (BlockNumber block) ob ob3" by blast
  have "ob3 = ob2" using c2 ob3(1) by (simp add: calm_def quiet_def)
  then show ?thesis using r c2 ob3 by blast
qed

lemma calm_attempts:
  assumes "calm ob n w" and "hintKeys hint = []"
    and "hint_current v c (hashString x (Hash block)) ob (hintValidation hint)"
    and "length (height_keys c (BlockNumber block) ob) < n"
    and "hasCanonical c (hashString x (Hash block)) (height_keys c (BlockNumber block) ob)"
    and "\<And>key. key \<in> set (height_keys c (BlockNumber block) ob) \<Longrightarrow>
       blockValidationHashFromKey c key \<noteq> None \<Longrightarrow> stored_validation v ob key \<noteq> None"
    and "\<And>bv. \<exists>d. encValidation v bv = Inr d"
  shows "\<exists>w'. rewriteAttempts 3 x v c block hint w = (Inr (), w')"
proof -
  let ?ch = "hashString x (Hash block)" and ?n = "BlockNumber block"
  have three: "(3::nat) = Suc (Suc (Suc 0))" by simp
  obtain b ob1 w1 where r1: "rewriteForkBlocksAtHeight x v c block hint w = (Inr b, w1)"
    and c1: "calm ob1 n w1" and s1: "height_settled v c ?ch ?n ob ob1"
    using calm_round [OF assms] by blast
  have hk: "height_keys c ?n ob1 = height_keys c ?n ob"
    by (rule height_keys_cong) (use s1 in \<open>simp add: height_settled_def\<close>)
  have dec: "stored_validation v ob1 key \<noteq> None"
    if "key \<in> set (height_keys c ?n ob1)" "blockValidationHashFromKey c key \<noteq> None" for key
    using s1 that unfolding height_settled_def flags_agree_def by blast
  have hints: "hintKeys None = []" "hint_current v c ?ch ob1 (hintValidation None)"
    by (simp_all add: hintKeys_def hintValidation_def hint_current_def)
  have "calm ob1 n (advance w1)" using c1 by simp
  from calm_round [OF this hints] hk assms(4,5,7) dec obtain b2 ob2 w2 where
    r2: "rewriteForkBlocksAtHeight x v c block None (advance w1) = (Inr b2, w2)" by auto
  have "quiet ob1 (advance w1)" using c1 by (simp add: calm_def)
  from atHeight_settles [OF this r2 hints] s1 have b2 by (auto simp: height_settled_def)
  then show ?thesis using r1 r2 unfolding three by (cases b) auto
qed

end

section \<open>Keys and their parsing\<close>

lemma length_split_slash: "length (split_slash s) = Suc (length (filter (\<lambda>c. c = CHR ''/'') s))"
  by (induction s) (auto split: list.splits)

lemma key_has_prefix: "has_prefix (blockValidationKey x c b) (blockValidationPrefix c (BlockNumber b))"
  unfolding has_prefix_append by (simp add: blockValidationKey_def blockValidationPrefix_def)

context ext_codecs
begin

lemma hashFromKey_key:
  assumes "CHR ''/'' \<notin> set (Version c)"
  shows "blockValidationHashFromKey c (blockValidationKey x c b) = Some (hashString x (Hash b))"
  using assms hash_no_slash [of "Hash b"]
  by (simp add: blockValidationHashFromKey_def blockValidationKey_def Let_def split_slash_cons split_slash_plain)

end

text \<open>
  C19: the key of a validation object determines the block. For a version without a separator, the
  hash parsed back from the key of a block is the textual hash of that block, the key lies under the
  prefix listed for its height, and keys of different heights or hashes differ.
\<close>

theorem validation_key_roundtrip:
  assumes "ext_codecs x" and "CHR ''/'' \<notin> set (Version c)"
  shows "blockValidationHashFromKey c (blockValidationKey x c b) = Some (hashString x (Hash b)) \<and>
    has_prefix (blockValidationKey x c b) (blockValidationPrefix c (BlockNumber b)) \<and>
    (blockValidationKey x c a = blockValidationKey x c b \<longleftrightarrow> BlockNumber a = BlockNumber b \<and> Hash a = Hash b)"
proof (intro conjI)
  show "blockValidationHashFromKey c (blockValidationKey x c b) = Some (hashString x (Hash b))"
    using assms by (rule ext_codecs.hashFromKey_key)
  show "has_prefix (blockValidationKey x c b) (blockValidationPrefix c (BlockNumber b))"
    by (rule key_has_prefix)
  show "(blockValidationKey x c a = blockValidationKey x c b) = (BlockNumber a = BlockNumber b \<and> Hash a = Hash b)"
    using ext_codecs.hashString_inject [OF assms(1)]
    by (auto simp: blockValidationKey_def sep_inject)
qed

definition exCfg :: Config where
  "exCfg = defaultConfig\<lparr>ChainID := 56, Version := ''v1'', OuterVersionNewBlockTopic := ''outer-v1'',
     ForkScanLookback := -1\<rparr>"

definition blockAt :: "u64 \<Rightarrow> hash \<Rightarrow> BlockContext" where
  "blockAt n h = \<lparr> BlockNumber = n, Hash = h, ParentHash = 0, Timestamp = 0 \<rparr>"

theorem validation_key_roundtrip_witness:
  "blockValidationHashFromKey exCfg (blockValidationKey hexExt exCfg (blockAt 5 7)) = Some (hashString hexExt 7) \<and>
   blockValidationKey hexExt exCfg (blockAt 4 7) \<noteq> blockValidationKey hexExt exCfg (blockAt 5 7)"
proof -
  have "CHR ''/'' \<notin> set (Version exCfg)" by (simp add: exCfg_def)
  from validation_key_roundtrip [OF hexc.ext_codecs_axioms this, of "blockAt 5 7" "blockAt 4 7"]
  show ?thesis by (simp add: blockAt_def)
qed

text \<open>
  C16: no plan ever marks the canonical block as a fork or another block as canonical. Whatever other
  processes upload, whichever calls fail and whatever was prefetched: if a plan for the canonical
  \<open>block\<close> rewrites the object of some block \<open>b\<close>, the new flag is set exactly when \<open>b\<close> is not the canonical
  block, and planned keys are always parseable.
\<close>

theorem plan_never_flags_canonical:
  assumes "planForkRewritesCtx x v c ctx block hint w = (Inr plan, w')" and "rw \<in> set plan"
    and "ext_codecs x" and "CHR ''/'' \<notin> set (Version c)" and "rwKey rw = blockValidationKey x c b"
  shows "bvIsFork (rwValidation rw) \<longleftrightarrow> Hash b \<noteq> Hash block"
proof -
  have "blockValidationHashFromKey c (rwKey rw) = Some (rwHash rw)"
    and f: "bvIsFork (rwValidation rw) = (\<not> EqualFold (rwHash rw) (hashString x (Hash block)))"
    using plan_flags [OF assms(1)] assms(2) by (auto simp: plan_flags_ok_def)
  then have "rwHash rw = hashString x (Hash b)"
    using ext_codecs.hashFromKey_key [OF assms(3,4)] assms(5) by simp
  with f show ?thesis using ext_codecs.EqualFold_hashString [OF assms(3)] by simp
qed

text \<open>Two objects at height 5: the canonical one wrongly flagged, its sibling wrongly not flagged.\<close>

definition exVal :: "bool \<Rightarrow> BlockValidation" where
  "exVal f = \<lparr> bvValidationHash = 33, bvIsFork = f, bvRest = [] \<rparr>"

definition exKey :: "hash \<Rightarrow> string" where
  "exKey h = blockValidationKey hexExt exCfg (blockAt 5 h)"

definition exBytes :: "bool \<Rightarrow> bytes" where
  "exBytes f = (if f then 1 else 0) # str_bytes (fmt_d 33 @ ''/'')"

definition exBucket :: "(string \<times> bytes) list" where
  "exBucket = [(exKey 7, exBytes True), (exKey 8, exBytes False)]"

definition exWorld :: "(string \<times> bytes) list \<Rightarrow> world" where
  "exWorld ob = \<lparr> tick = 0, clock = (\<lambda>_. 0), quit = (\<lambda>_. False), fate = (\<lambda>_. Ack), uploads = (\<lambda>_. []),
     objects = ob, pageFuel = 3, topics = (\<lambda>_. emptyTopic), otherTopics = (\<lambda>_ t. t),
     etcd = \<lparr> pairs = [], leases = [], nextLease = 1 \<rparr>, otherEtcd = (\<lambda>_ s. s), rpc = (\<lambda>_ _ _ _. Inl IOErr),
     registry = (\<lambda>_. NewRWMap) \<rparr>"

lemma exVersion: "CHR ''/'' \<notin> set (Version exCfg)"
  by (simp add: exCfg_def)

lemma exKey_simps [simp]:
  "blockValidationHashFromKey exCfg (exKey h) = Some (hashString hexExt h)"
  "has_prefix (exKey h) (blockValidationPrefix exCfg 5)"
  "exKey a = exKey b \<longleftrightarrow> a = b"
  "EqualFold (hashString hexExt a) (hashString hexExt b) \<longleftrightarrow> a = b"
proof -
  show "blockValidationHashFromKey exCfg (exKey h) = Some (hashString hexExt h)"
    using hexc.hashFromKey_key [OF exVersion, of "blockAt 5 h"] by (simp add: exKey_def blockAt_def)
  show "has_prefix (exKey h) (blockValidationPrefix exCfg 5)"
    using key_has_prefix [of hexExt exCfg "blockAt 5 h"] by (simp add: exKey_def blockAt_def)
  show "exKey a = exKey b \<longleftrightarrow> a = b"
    by (simp add: exKey_def blockAt_def blockValidationKey_def hexc.hashString_inject)
qed (rule hexc.EqualFold_hashString)

lemma ex_bytes: "decValidation plainSvc (exBytes f) = Inr (exVal f)"
proof -
  have "encValidation plainSvc (exVal f) = Inr (exBytes f)"
    by (simp add: plainSvc_def plainEnc_def exVal_def exBytes_def)
  then show ?thesis by (rule plain.validation_roundtrip)
qed

lemma ex_height: "height_keys exCfg 5 exBucket = [exKey 7, exKey 8]"
  by (simp add: height_keys_def exBucket_def)

lemma ex_stored:
  "stored_validation plainSvc exBucket (exKey 7) = Some (exVal True)"
  "stored_validation plainSvc exBucket (exKey 8) = Some (exVal False)"
  by (simp_all add: stored_validation_def exBucket_def ex_bytes)

lemma ex_calm: "calm exBucket 3 (exWorld exBucket)"
  by (simp add: calm_def quiet_def no_uploads_def fate_ok_def exWorld_def)

lemma ex_plan_hyps:
  "hintKeys None = []" "hint_current plainSvc exCfg ch exBucket (hintValidation None)"
  "length (height_keys exCfg (BlockNumber (blockAt 5 7)) exBucket) < 3"
  "hasCanonical exCfg (hashString hexExt (Hash (blockAt 5 7))) (height_keys exCfg (BlockNumber (blockAt 5 7)) exBucket)"
  "key \<in> set (height_keys exCfg (BlockNumber (blockAt 5 7)) exBucket) \<Longrightarrow>
   blockValidationHashFromKey exCfg key \<noteq> None \<Longrightarrow> stored_validation plainSvc exBucket key \<noteq> None"
  by (auto simp: hintKeys_def hintValidation_def hint_current_def blockAt_def ex_height hasCanonical_def ex_stored)

lemma ex_plan:
  "\<exists>w'. planForkRewritesCtx hexExt plainSvc exCfg Background (blockAt 5 7) None (exWorld exBucket) =
     (Inr [\<lparr> rwKey = exKey 7, rwHash = hashString hexExt 7, rwValidation = exVal False \<rparr>,
           \<lparr> rwKey = exKey 8, rwHash = hashString hexExt 8, rwValidation = exVal True \<rparr>], w')"
proof -
  obtain plan w' where p: "planForkRewritesCtx hexExt plainSvc exCfg Background (blockAt 5 7) None (exWorld exBucket) = (Inr plan, w')"
    using plain.calm_plan [OF ex_calm ex_plan_hyps] by blast
  have "quiet exBucket (exWorld exBucket)" using ex_calm by (simp add: calm_def)
  from plain.plan_exact(2) [OF this p ex_plan_hyps(1,2)]
  have "plan = [\<lparr> rwKey = exKey 7, rwHash = hashString hexExt 7, rwValidation = exVal False \<rparr>,
           \<lparr> rwKey = exKey 8, rwHash = hashString hexExt 8, rwValidation = exVal True \<rparr>]"
    by (simp add: blockAt_def ex_height List.map_filter_def wanted_def ex_stored exVal_def)
  with p show ?thesis by blast
qed

theorem plan_never_flags_canonical_witness:
  "\<exists>plan w'. planForkRewritesCtx hexExt plainSvc exCfg Background (blockAt 5 7) None (exWorld exBucket) = (Inr plan, w') \<and>
     \<not> bvIsFork (rwValidation (plan ! 0)) \<and> bvIsFork (rwValidation (plan ! 1))"
proof -
  let ?plan = "[\<lparr> rwKey = exKey 7, rwHash = hashString hexExt 7, rwValidation = exVal False \<rparr>,
           \<lparr> rwKey = exKey 8, rwHash = hashString hexExt 8, rwValidation = exVal True \<rparr>]"
  obtain w' where p: "planForkRewritesCtx hexExt plainSvc exCfg Background (blockAt 5 7) None (exWorld exBucket) = (Inr ?plan, w')"
    using ex_plan by blast
  have k: "rwKey (?plan ! 0) = blockValidationKey hexExt exCfg (blockAt 5 7)"
    "rwKey (?plan ! 1) = blockValidationKey hexExt exCfg (blockAt 5 8)" by (simp_all add: exKey_def)
  have "\<not> bvIsFork (rwValidation (?plan ! 0))"
    using plan_never_flags_canonical [OF p _ hexc.ext_codecs_axioms exVersion k(1)] by (simp add: blockAt_def)
  moreover have "bvIsFork (rwValidation (?plan ! 1))"
    using plan_never_flags_canonical [OF p _ hexc.ext_codecs_axioms exVersion k(2)] by (simp add: blockAt_def)
  ultimately show ?thesis using p by blast
qed





text \<open>
  A version that contains a separator disables the flags of its chain. In version mode, with a
  version containing a slash, no key under the prefix of a height parses, so no plan made from a
  listing ever succeeds, whatever the bucket holds.
\<close>

theorem slash_version_never_plans:
  assumes "services v rest" and "IsVersionMode c" and "CHR ''/'' \<in> set (Version c)" and "no_uploads w"
    and "hintKeys hint = []" and "hintValidation hint = None"
  shows "planForkRewritesCtx x v c ctx block hint w \<noteq> (Inr plan, w')"
proof
  let ?ch = "hashString x (Hash block)" and ?ks = "height_keys c (BlockNumber block) (objects w)"
  assume p: "planForkRewritesCtx x v c ctx block hint w = (Inr plan, w')"
  have q: "quiet (objects w) w" using assms(4) by (simp add: quiet_def)
  have "hint_current v c ?ch (objects w) (hintValidation hint)" by (simp add: hint_current_def assms(6))
  from services.plan_exact(3) [OF assms(1) q p assms(5) this] obtain key h where
    k: "key \<in> set ?ks" and h: "blockValidationHashFromKey c key = Some h"
    by (auto simp: hasCanonical_def list_ex_iff split: option.splits)
  then obtain r where key: "key = blockValidationPrefix c (BlockNumber block) @ r"
    by (auto simp: height_keys_def has_prefix_append)
  have "length (filter (\<lambda>ch. ch = CHR ''/'') (Version c)) \<noteq> 0"
    using assms(3) by (auto simp: filter_empty_conv)
  then have "length (split_slash key) > 4"
    by (simp add: key blockValidationPrefix_def assms(2) length_split_slash)
  then show False using h assms(2) by (simp add: blockValidationHashFromKey_def Let_def)
qed

theorem slash_version_never_plans_witness:
  "planForkRewritesCtx hexExt plainSvc (exCfg\<lparr>Version := ''v/1''\<rparr>) Background (blockAt 5 7) None
     (exWorld exBucket) \<noteq> (Inr [], exWorld exBucket)"
  by (rule slash_version_never_plans [OF plain.services_axioms])
    (simp_all add: IsVersionMode_def exCfg_def exWorld_def no_uploads_def hintKeys_def hintValidation_def)

end
