(* ===== verification/ForkSchedule.thy ===== *)
theory ForkSchedule
  imports Prelude
begin

text \<open>
  The maturity schedule of the continuous scan, \<^verbatim>\<open>forkScanSchedule\<close> of \<^verbatim>\<open>check/fork_scan.go\<close>. Times are
  nanoseconds; the zero time is \<open>None\<close>. The lemma shows, for every sequence of observations and
  rewinds, what the mature height means: it was observed a full interval before a later observation,
  and nothing at or below it has been rewound since.
\<close>

record forkScanSchedule =
  schedGeneration :: u64
  observedAt :: "int option"
  observedHeight :: u64
  matureHeight :: u64
  mature :: bool

definition zeroSchedule :: "u64 \<Rightarrow> forkScanSchedule" where
  "zeroSchedule g = \<lparr> schedGeneration = g, observedAt = None, observedHeight = 0, matureHeight = 0, mature = False \<rparr>"

definition schedRewind :: "u64 \<Rightarrow> u64 \<Rightarrow> forkScanSchedule \<Rightarrow> forkScanSchedule" where
  "schedRewind height generation s =
     (if height = 0 then zeroSchedule generation
      else s\<lparr> schedGeneration := generation,
              observedHeight := min (observedHeight s) (height - 1),
              matureHeight := min (matureHeight s) (height - 1) \<rparr>)"

definition schedObserve :: "int \<Rightarrow> int \<Rightarrow> u64 \<Rightarrow> u64 \<Rightarrow> forkScanSchedule \<Rightarrow> forkScanSchedule" where
  "schedObserve now interval height generation s0 =
     (let s = (if schedGeneration s0 \<noteq> generation then zeroSchedule generation else s0) in
      case observedAt s of
        None \<Rightarrow> s\<lparr> observedAt := Some now, observedHeight := height \<rparr>
      | Some t \<Rightarrow>
          if now - t \<ge> interval
          then s\<lparr> matureHeight := observedHeight s, mature := True,
                  observedAt := Some now, observedHeight := height \<rparr>
          else s)"

section \<open>Histories\<close>

datatype sched_event = Observe int u64 u64 | Rewind u64 u64

fun sched_step :: "int \<Rightarrow> sched_event \<Rightarrow> forkScanSchedule \<Rightarrow> forkScanSchedule" where
  "sched_step interval (Observe now h g) s = schedObserve now interval h g s"
| "sched_step interval (Rewind h g) s = schedRewind h g s"

definition sched_run :: "int \<Rightarrow> sched_event list \<Rightarrow> forkScanSchedule" where
  "sched_run interval evs = fold (sched_step interval) evs (zeroSchedule 0)"

text \<open>An observation at time \<open>t\<close> reached height \<open>h\<close>, and no later rewind touched \<open>h\<close>.\<close>

definition observed_since :: "sched_event list \<Rightarrow> int \<Rightarrow> u64 \<Rightarrow> sched_event list \<Rightarrow> bool" where
  "observed_since evs t h post =
     (\<exists>pre H g. evs = pre @ Observe t H g # post \<and> h \<le> H \<and> (\<forall>k g'. Rewind k g' \<in> set post \<longrightarrow> h < k))"

lemma observed_since_obs: "observed_since evs t h post \<Longrightarrow> observed_since (evs @ [Observe u H g]) t h (post @ [Observe u H g])"
  by (auto simp: observed_since_def)

lemma observed_since_now: "h \<le> H \<Longrightarrow> observed_since (evs @ [Observe t H g]) t h []"
  by (auto simp: observed_since_def)

lemma observed_since_rewind:
  assumes "observed_since evs t h post" and "0 < k"
  shows "observed_since (evs @ [Rewind k g]) t (min h (k - 1)) (post @ [Rewind k g])"
proof -
  obtain pre H g' where "evs = pre @ Observe t H g' # post" "h \<le> H" "\<forall>k g'. Rewind k g' \<in> set post \<longrightarrow> h < k"
    using assms(1) by (auto simp: observed_since_def)
  moreover have "min h (k - 1) < k" using assms(2) by (simp add: min_less_iff_disj flip: u64_le_pred_iff)
  moreover have "min h (k - 1) \<le> h" by simp
  ultimately show ?thesis
    unfolding observed_since_def by (intro exI [of _ pre] exI [of _ H] exI [of _ g']) (auto simp: min.coboundedI1 min_less_iff_disj)
qed

definition sched_inv :: "int \<Rightarrow> sched_event list \<Rightarrow> forkScanSchedule \<Rightarrow> bool" where
  "sched_inv interval evs s =
     ((\<forall>t. observedAt s = Some t \<longrightarrow> (\<exists>post. observed_since evs t (observedHeight s) post)) \<and>
      (mature s \<longrightarrow> (\<exists>t post u H g. observed_since evs t (matureHeight s) post \<and>
          Observe u H g \<in> set post \<and> u - t \<ge> interval)))"

lemma sched_inv_rewind: "sched_inv i evs s \<Longrightarrow> sched_inv i (evs @ [Rewind k g]) (schedRewind k g s)"
proof (cases "k = 0")
  case True
  then show ?thesis by (simp add: sched_inv_def schedRewind_def zeroSchedule_def)
next
  case False
  then have k: "0 < k" by (simp add: word_gt_0)
  assume inv: "sched_inv i evs s"
  have 1: "\<exists>post. observed_since (evs @ [Rewind k g]) t (min (observedHeight s) (k - 1)) post"
    if "observedAt s = Some t" for t
    using inv that observed_since_rewind [OF _ k] unfolding sched_inv_def by blast
  have 2: "\<exists>t post u H g'. observed_since (evs @ [Rewind k g]) t (min (matureHeight s) (k - 1)) post \<and>
      Observe u H g' \<in> set post \<and> u - t \<ge> i" if m: "mature s"
  proof -
    obtain t post u H g' where a: "observed_since evs t (matureHeight s) post" "Observe u H g' \<in> set post" "u - t \<ge> i"
      using inv m by (auto simp: sched_inv_def)
    then have "Observe u H g' \<in> set (post @ [Rewind k g])" by simp
    then show ?thesis using observed_since_rewind [OF a(1) k, of g] a(3) by blast
  qed
  from False 1 2 show ?thesis by (simp add: sched_inv_def schedRewind_def)
qed

lemma sched_inv_observe: "sched_inv i evs s \<Longrightarrow> sched_inv i (evs @ [Observe n h g]) (schedObserve n i h g s)"
proof -
  assume inv0: "sched_inv i evs s"
  define s1 where "s1 = (if schedGeneration s \<noteq> g then zeroSchedule g else s)"
  have inv: "sched_inv i evs s1" using inv0 by (simp add: s1_def sched_inv_def zeroSchedule_def)
  have ob: "schedObserve n i h g s = (case observedAt s1 of
        None \<Rightarrow> s1\<lparr> observedAt := Some n, observedHeight := h \<rparr>
      | Some t \<Rightarrow> if n - t \<ge> i
          then s1\<lparr> matureHeight := observedHeight s1, mature := True, observedAt := Some n, observedHeight := h \<rparr>
          else s1)" unfolding schedObserve_def Let_def s1_def [symmetric] ..
  let ?e = "Observe n h g"
  have old: "\<exists>t post u H g'. observed_since (evs @ [?e]) t (matureHeight s1) post \<and>
      Observe u H g' \<in> set post \<and> u - t \<ge> i" if m: "mature s1"
  proof -
    obtain t post u H g' where a: "observed_since evs t (matureHeight s1) post" "Observe u H g' \<in> set post" "u - t \<ge> i"
      using inv m by (auto simp: sched_inv_def)
    then have "Observe u H g' \<in> set (post @ [?e])" by simp
    then show ?thesis using observed_since_obs [OF a(1)] a(3) by blast
  qed
  have fresh: "\<exists>post. observed_since (evs @ [?e]) n h post"
    using observed_since_now [of h h] by blast
  show ?thesis
  proof (cases "observedAt s1")
    case None
    then show ?thesis using old fresh by (simp add: ob sched_inv_def)
  next
    case (Some t)
    then obtain post where p: "observed_since evs t (observedHeight s1) post" using inv by (auto simp: sched_inv_def)
    note q = observed_since_obs [OF p, of n h g]
    have new: "\<exists>t post u H g'. observed_since (evs @ [?e]) t (observedHeight s1) post \<and>
      Observe u H g' \<in> set post \<and> u - t \<ge> i" if "n - t \<ge> i"
    proof -
      have "?e \<in> set (post @ [?e])" by simp
      then show ?thesis using q that by blast
    qed
    show ?thesis using Some old fresh new q by (auto simp: ob sched_inv_def)
  qed
qed

text \<open>
  C8: a mature height has waited a full interval. For every history of observations and rewinds that
  starts with an empty schedule: when the schedule is mature, some observation at time \<open>t\<close> had
  already seen a published head at or above the mature height, a later observation came at least one
  interval after it, and every rewind after the first of the two was above the mature height. So
  the worker never scans a height that has not been published, unchanged, for a whole interval.
\<close>

theorem mature_height_has_waited:
  assumes "mature (sched_run interval evs)"
  shows "\<exists>t pre H g post u H' g'. evs = pre @ Observe t H g # post \<and>
    matureHeight (sched_run interval evs) \<le> H \<and> Observe u H' g' \<in> set post \<and> u - t \<ge> interval \<and>
    (\<forall>k g''. Rewind k g'' \<in> set post \<longrightarrow> matureHeight (sched_run interval evs) < k)"
proof -
  have "sched_inv interval evs (sched_run interval evs)"
  proof (induction evs rule: rev_induct)
    case Nil
    then show ?case by (simp add: sched_run_def sched_inv_def zeroSchedule_def)
  next
    case (snoc e evs)
    then show ?case by (cases e) (simp_all add: sched_run_def sched_inv_rewind sched_inv_observe)
  qed
  with assms show ?thesis unfolding sched_inv_def observed_since_def by blast
qed

theorem mature_height_has_waited_witness:
  "\<exists>t pre H g post. [Observe 0 9 1, Rewind 6 2, Observe 60 8 2] = pre @ Observe t H g # post \<and>
     matureHeight (sched_run 60 [Observe 0 9 1, Rewind 6 2, Observe 60 8 2]) = 5 \<and> (5::u64) \<le> H"
proof -
  let ?evs = "[Observe 0 9 1, Rewind 6 2, Observe 60 8 2]"
  have m: "mature (sched_run 60 ?evs)" "matureHeight (sched_run 60 ?evs) = 5"
    by (simp_all add: sched_run_def schedObserve_def schedRewind_def zeroSchedule_def Let_def min_def)
  from mature_height_has_waited [OF m(1)] m(2) show ?thesis by metis
qed

end
