(* ===== verification/CheckerState.thy ===== *)
theory CheckerState
  imports Config ConsistencyDB ForkSchedule
begin

text \<open>
  The state of the checker, \<^verbatim>\<open>Checker\<close> of \<^verbatim>\<open>check/check.go\<close>, without its client handles: every field an
  operation of the program reads or writes, with the global \<^verbatim>\<open>db.DB\<close> as the field \<open>cdb\<close>. A
  \<^verbatim>\<open>*forkScanBatch\<close> is compared by identity in the source; \<open>bId\<close> is that identity, drawn from the
  counter \<open>batches\<close>.
\<close>

record outerNoticeKey =
  nkHash :: hash
  nkIsFork :: bool

record noticeID =
  nidTail :: hash
  nidNewCount :: nat
  nidDropCount :: nat

record EtcdLock =
  leaderKey :: string
  versionKey :: string
  lockVersion :: string
  lockTTL :: int
  lease :: int
  cancelled :: bool

record forkScanBatch =
  bId :: nat
  bStart :: u64
  bUpper :: u64
  bGeneration :: u64
  bRewind :: "u64 option"

record Checker =
  config :: Config
  latestOuter :: "OuterBlockChangeNotification option"
  etcdLock :: "EtcdLock option"
  latestWriteEtcd :: int
  latestMsgOffset :: int
  isOuterSingletonAlign :: bool
  cachedOuterSingle :: "OuterBlockChangeNotification option"
  ReplicaLatestBlockNumber :: u64
  lastWrittenBlockNumber :: u64
  currentNotice :: noticeID
  delivered :: "string \<Rightarrow> outerNoticeKey set"
  forkState :: "ForkScanState option"
  forkRecoveryAnchor :: "ForkScanAnchor option"
  forkRecoveryDrop :: bool
  forkAligned :: bool
  forkSchedule :: forkScanSchedule
  forkBatch :: "forkScanBatch option"
  batches :: nat
  cdb :: ConsistencyDB

text \<open>The store behind the checker.\<close>

abbreviation store :: "Checker \<Rightarrow> pebble" where
  "store c \<equiv> db (cdb c)"

definition setStore :: "pebble \<Rightarrow> Checker \<Rightarrow> Checker" where
  "setStore p c = c\<lparr>cdb := (cdb c)\<lparr>db := p\<rparr>\<rparr>"

lemma setStore_sel [simp]:
  "config (setStore p c) = config c" "latestOuter (setStore p c) = latestOuter c"
  "forkState (setStore p c) = forkState c" "forkRecoveryAnchor (setStore p c) = forkRecoveryAnchor c"
  "forkRecoveryDrop (setStore p c) = forkRecoveryDrop c" "forkAligned (setStore p c) = forkAligned c"
  "forkSchedule (setStore p c) = forkSchedule c" "forkBatch (setStore p c) = forkBatch c"
  "batches (setStore p c) = batches c" "store (setStore p c) = p"
  by (simp_all add: setStore_def)

section \<open>Recognising repeated notices\<close>

definition isDuplicateBlockNotification :: "BlockChangeNotification \<Rightarrow> Checker \<Rightarrow> bool" where
  "isDuplicateBlockNotification n c = (case latestOuter c of
     None \<Rightarrow> False
   | Some l \<Rightarrow> DropBlocks n = [] \<and> length (NewBlocks n) = 1 \<and> Hash (hd (NewBlocks n)) = outHash l)"

definition isAlreadyProcessed :: "BlockChangeNotification \<Rightarrow> Checker \<Rightarrow> bool" where
  "isAlreadyProcessed n c = (case latestOuter c of
     None \<Rightarrow> False
   | Some l \<Rightarrow> NewBlocks n \<noteq> [] \<and> Hash (last (NewBlocks n)) = outHash l)"

text \<open>\<^verbatim>\<open>processNotice\<close> has checked that \<^verbatim>\<open>NewBlocks\<close> is not empty.\<close>

definition msgCheck :: "BlockChangeNotification \<Rightarrow> Checker \<Rightarrow> bool" where
  "msgCheck n c = (case latestOuter c of
     None \<Rightarrow> True
   | Some l \<Rightarrow> if DropBlocks n \<noteq> [] then Hash (last (DropBlocks n)) = outHash l
               else ParentHash (hd (NewBlocks n)) = outHash l)"

text \<open>A checker in version mode with an empty store, for the examples.\<close>

definition exChecker :: Checker where
  "exChecker = \<lparr> config = defaultConfig\<lparr>ChainID := 56, Version := ''v1'', OuterVersionNewBlockTopic := ''t''\<rparr>,
     latestOuter = None, etcdLock = None, latestWriteEtcd = 0, latestMsgOffset = 0, isOuterSingletonAlign = False,
     cachedOuterSingle = None, ReplicaLatestBlockNumber = 0, lastWrittenBlockNumber = 0,
     currentNotice = \<lparr> nidTail = 0, nidNewCount = 0, nidDropCount = 0 \<rparr>, delivered = (\<lambda>_. {}),
     forkState = None, forkRecoveryAnchor = None, forkRecoveryDrop = False, forkAligned = False,
     forkSchedule = zeroSchedule 0, forkBatch = None, batches = 0,
     cdb = \<lparr> db = \<lparr> kv = (\<lambda>_. None), epoch = 0, readErr = (\<lambda>_ _. False), commitErr = (\<lambda>_. False) \<rparr>, latest = None \<rparr> \<rparr>"

end
