(* ===== verification/ForkScan.thy ===== *)
theory ForkScan
  imports CheckerState S3Forks
begin

text \<open>
  \<^verbatim>\<open>check/fork_scan.go\<close>: start-up, publication checkpoints and recovery of the scan cursor, the window
  scanner, and the execution of a scan plan. Operations that hold the processing lock are functions
  on the checker state. The scan itself runs without the lock: it sees the shared state through the
  function \<open>chk\<close>, the checker state at each tick of the outside world, and only its PUTs and their
  verification use the state at that tick.
\<close>

definition forkScanHeightTimeout :: int where
  "forkScanHeightTimeout = 5 * Second"

definition forkScanWriteTimeout :: int where
  "forkScanWriteTimeout = Second"

section \<open>The cursor in the checker\<close>

definition saveForkScan :: "ext \<Rightarrow> ForkScanState \<Rightarrow> Checker \<Rightarrow> unit res \<times> Checker" where
  "saveForkScan x s c =
     (case SaveForkScan x (store c) (ChainID (config c)) (Version (config c)) s of
        (Inl e, p) \<Rightarrow> (Inl e, setStore p c)
      | (Inr _, p) \<Rightarrow> (Inr (), (setStore p c)\<lparr>forkState := Some s\<rparr>))"

definition outerAnchor :: "OuterBlockChangeNotification \<Rightarrow> ForkScanAnchor" where
  "outerAnchor n = \<lparr> anchorHeight = outBlockNumber n, anchorHash = outHash n \<rparr>"

text \<open>The start-up anchor: a drop at the outer tail is remembered but is not an anchor.\<close>

definition recoverOuter :: "Checker \<Rightarrow> Checker res" where
  "recoverOuter c = (case latestOuter c of
     None \<Rightarrow> Inr c
   | Some n \<Rightarrow>
       if outChainID n \<noteq> ChainID (config c) then Inl (Msg ''fork scan: invalid startup outer anchor'')
       else if outIsFork n then Inr (c\<lparr>forkRecoveryDrop := True\<rparr>)
       else Inr (c\<lparr>forkRecoveryAnchor := Some (outerAnchor n)\<rparr>))"

definition alignRestored :: "ForkScanState \<Rightarrow> Checker \<Rightarrow> Checker res" where
  "alignRestored state c =
     (if Pending state = None \<and> forkRecoveryAnchor c = Some (Published state)
      then (case GetCanonicalHashByNum (store c) (anchorHeight (Published state)) of
              Inl e \<Rightarrow> Inl (Wrap ''validate restored fork scan anchor'' e)
            | Inr h \<Rightarrow> Inr (c\<lparr>forkAligned := (h = Some (anchorHash (Published state)))\<rparr>))
      else Inr c)"

definition loadForkScan :: "ext \<Rightarrow> Checker \<Rightarrow> Checker res" where
  "loadForkScan x c =
     (if \<not> ContinuousForkScan (config c) then Inr c
      else (case LoadForkScan x (store c) (ChainID (config c)) (Version (config c)) of
         Inl e \<Rightarrow> Inl (Wrap ''load continuous fork scan'' e)
       | Inr state \<Rightarrow>
           (case recoverOuter (c\<lparr> forkState := state, forkAligned := False, forkRecoveryAnchor := None,
                                  forkRecoveryDrop := False, forkSchedule := zeroSchedule 0 \<rparr>) of
              Inl e \<Rightarrow> Inl e
            | Inr c' \<Rightarrow> (case state of None \<Rightarrow> Inr c' | Some s \<Rightarrow> alignRestored s c'))))"

text \<open>\<^verbatim>\<open>rewindForkScan\<close>: truncate the schedule and lower the fence of the active batch.\<close>

definition lowerFence :: "u64 \<Rightarrow> forkScanBatch \<Rightarrow> forkScanBatch" where
  "lowerFence height b = (case bRewind b of
     None \<Rightarrow> b\<lparr>bRewind := Some height\<rparr>
   | Some old \<Rightarrow> if height < old then b\<lparr>bRewind := Some height\<rparr> else b)"

definition rewindForkScan :: "u64 \<Rightarrow> u64 \<Rightarrow> Checker \<Rightarrow> Checker" where
  "rewindForkScan height generation c =
     c\<lparr> forkSchedule := schedRewind height generation (forkSchedule c),
        forkBatch := map_option (lowerFence height) (forkBatch c) \<rparr>"

definition initializeForkScan ::
  "ext \<Rightarrow> ForkScanAnchor \<Rightarrow> ForkScanPosition option \<Rightarrow> Checker \<Rightarrow> unit res \<times> Checker" where
  "initializeForkScan x anchor position c =
     (if anchorHeight anchor = MaxUint64
      then (Inl (Msg ''fork scan baseline height overflows next_scan_height''), c)
      else if (case forkState c of None \<Rightarrow> False | Some s \<Rightarrow> Generation s = MaxUint64)
      then (Inl (Msg ''fork scan generation overflow''), c)
      else
        (let generation = (case forkState c of None \<Rightarrow> 1 | Some s \<Rightarrow> Generation s + 1);
             state = \<lparr> Format = 1, Baseline = anchor, NextHeight = anchorHeight anchor + 1,
                       Generation = generation, Published = anchor, Position = position, Pending = None \<rparr> in
         case saveForkScan x state c of
           (Inl e, c') \<Rightarrow> (Inl e, c')
         | (Inr _, c') \<Rightarrow> (Inr (), rewindForkScan 0 generation c')))"

section \<open>Recovery\<close>

definition forkNoticeExtends :: "BlockChangeNotification \<Rightarrow> ForkScanAnchor \<Rightarrow> bool" where
  "forkNoticeExtends notice head =
     (case NewBlocks notice of
        [] \<Rightarrow> False
      | first # _ \<Rightarrow>
          (case DropBlocks notice of
             [] \<Rightarrow> anchorHeight head < MaxUint64 \<and> BlockNumber first = anchorHeight head + 1 \<and>
                   ParentHash first = anchorHash head
           | d0 # ds \<Rightarrow>
               (let tail = last (d0 # ds) in
                BlockNumber tail = anchorHeight head \<and> Hash tail = anchorHash head \<and>
                BlockNumber d0 = BlockNumber first \<and> ParentHash d0 = ParentHash first)))"

text \<open>The loop over the replayed blocks; the first argument is the previous block.\<close>

fun checkReplay :: "pebble \<Rightarrow> BlockContext option \<Rightarrow> BlockContext list \<Rightarrow> unit res" where
  "checkReplay p prev [] = Inr ()"
| "checkReplay p prev (block # blocks) =
     (if (case prev of None \<Rightarrow> False
          | Some q \<Rightarrow> BlockNumber q = MaxUint64 \<or> BlockNumber block \<noteq> BlockNumber q + 1 \<or> ParentHash block \<noteq> Hash q)
      then Inl (Msg ''non-contiguous published replay'')
      else (case GetCanonicalHashByNum p (BlockNumber block) of
              Inl e \<Rightarrow> Inl e
            | Inr h \<Rightarrow> if h \<noteq> Some (Hash block) then Inl (Msg ''published replay has no matching canonical'')
                       else checkReplay p (Some block) blocks))"

definition reconcileForkScanReplay ::
  "ext \<Rightarrow> BlockChangeNotification \<Rightarrow> ForkScanAnchor \<Rightarrow> ForkScanState \<Rightarrow> Checker \<Rightarrow> unit res \<times> Checker" where
  "reconcileForkScanReplay x notice anchor s c =
     (if Pending s \<noteq> None \<and> Pending s \<noteq> Some anchor
      then (Inl (Msg ''replayed head does not match pending canonical update''), c)
      else (case checkReplay (store c) None (NewBlocks notice) of
         Inl e \<Rightarrow> (Inl e, c)
       | Inr _ \<Rightarrow>
           (let tail = last (NewBlocks notice);
                first = BlockNumber (hd (NewBlocks notice));
                dropped = (DropBlocks notice \<noteq> []) in
            if BlockNumber tail \<noteq> anchorHeight anchor \<or> Hash tail \<noteq> anchorHash anchor
            then (Inl (Msg ''published replay tail does not match recovery anchor''), c)
            else if dropped \<and> Generation s = MaxUint64
            then (Inl (Msg ''fork scan generation overflow''), c)
            else
              (let s1 = (if dropped then s\<lparr> Generation := Generation s + 1, NextHeight := min (NextHeight s) first \<rparr> else s);
                   s2 = s1\<lparr> Published := anchor, Pending := None \<rparr> in
               case saveForkScan x s2 c of
                 (Inl e, c') \<Rightarrow> (Inl e, c')
               | (Inr _, c') \<Rightarrow> (Inr (), if dropped then rewindForkScan first (Generation s2) c' else c')))))"

text \<open>Whether the incoming position shows an offset gap on the same partition.\<close>

definition offsetGap :: "ForkScanPosition \<Rightarrow> ForkScanPosition \<Rightarrow> bool" where
  "offsetGap old position =
     (Topic old = Topic position \<and> Partition old = Partition position \<and>
      Offset position > Offset old \<and> Offset position - Offset old > 1)"

definition recoveryReset :: "ForkScanPosition option \<Rightarrow> ForkScanAnchor \<Rightarrow> Checker \<Rightarrow> bool" where
  "recoveryReset position anchor c =
     (case forkState c of
        None \<Rightarrow> True
      | Some s \<Rightarrow> (case (Position s, position) of
                     (Some old, Some pos) \<Rightarrow> offsetGap old pos \<and> Published s \<noteq> anchor
                   | _ \<Rightarrow> False))"

definition prepareForkScan ::
  "ext \<Rightarrow> BlockChangeNotification \<Rightarrow> ForkScanPosition option \<Rightarrow> Checker \<Rightarrow> bool \<times> Checker" where
  "prepareForkScan x notice position c =
     (if \<not> ContinuousForkScan (config c) \<or> forkAligned c then (True, c)
      else (case forkRecoveryAnchor c of
         None \<Rightarrow> (True, c)
       | Some anchor \<Rightarrow>
           if (case forkState c of None \<Rightarrow> False
               | Some s \<Rightarrow> Published s \<noteq> anchor \<and> isAlreadyProcessed notice c \<and> forkNoticeExtends notice (Published s))
           then (case reconcileForkScanReplay x notice anchor (the (forkState c)) c of
                   (Inl e, c') \<Rightarrow> (False, c') | (Inr _, c') \<Rightarrow> (True, c'))
           else if recoveryReset position anchor c
           then (case initializeForkScan x anchor None c of
                   (Inl e, c') \<Rightarrow> (False, c') | (Inr _, c') \<Rightarrow> (True, c'))
           else (True, c)))"

section \<open>Publication checkpoints\<close>

text \<open>The cursor \<^verbatim>\<open>finishForkScan\<close> saves when there already is one.\<close>

definition publishedState :: "ForkScanAnchor \<Rightarrow> ForkScanPosition option \<Rightarrow> ForkScanState \<Rightarrow> ForkScanState" where
  "publishedState anchor position s =
     (let s1 = s\<lparr>Published := anchor\<rparr>;
          s2 = (if Pending s1 = Some anchor then s1\<lparr>Pending := None\<rparr> else s1) in
      if position \<noteq> None then s2\<lparr>Position := position\<rparr> else s2)"

definition finishForkScan :: "ext \<Rightarrow> ForkScanPosition option \<Rightarrow> Checker \<Rightarrow> bool \<times> Checker" where
  "finishForkScan x position c =
     (if \<not> ContinuousForkScan (config c) then (True, c)
      else (case latestOuter c of
         None \<Rightarrow> (False, c)
       | Some n \<Rightarrow>
           if outChainID n \<noteq> ChainID (config c) then (False, c)
           else if outIsFork n then (forkRecoveryDrop c, c)
           else
             (let anchor = outerAnchor n;
                  r = (case forkState c of
                         None \<Rightarrow> initializeForkScan x anchor position c
                       | Some s \<Rightarrow> saveForkScan x (publishedState anchor position s) c) in
              case r of
                (Inl e, c') \<Rightarrow> (False, c')
              | (Inr _, c') \<Rightarrow> (True, c'\<lparr> forkAligned := True, forkRecoveryDrop := False \<rparr>))))"

section \<open>Writing canonical blocks\<close>

text \<open>
  \<^verbatim>\<open>writeBlockInfoToDB\<close> of \<^verbatim>\<open>check.go\<close>; a missing prefetched validation without an error is a nil
  dereference in the source and cannot occur: the prefetch sets one or the other.
\<close>

definition prefetchedHashes :: "blockPrefetch list \<Rightarrow> int list option" where
  "prefetchedHashes pfs = those (map (\<lambda>p. if pfValidationErr p \<noteq> None then None
     else map_option bvValidationHash (pfValidation p)) pfs)"

definition writeBlockInfoToDB ::
  "ext \<Rightarrow> BlockContext list \<Rightarrow> blockPrefetch list \<Rightarrow> Checker \<Rightarrow> bool \<times> Checker" where
  "writeBlockInfoToDB x newBlocks prefetched c =
     (case prefetchedHashes prefetched of
        None \<Rightarrow> (False, c)
      | Some validationHashes \<Rightarrow>
          if forkState c \<noteq> None \<and> ContinuousForkScan (config c)
          then (case WriteBlockInfosWithForkScan x (cdb c) newBlocks validationHashes
                       (ChainID (config c)) (Version (config c)) (forkState c) of
                  (Inl e, d) \<Rightarrow> (False, c\<lparr>cdb := d\<rparr>)
                | (Inr next, d) \<Rightarrow>
                    (True, (if Generation (the next) \<noteq> Generation (the (forkState c))
                            then rewindForkScan (BlockNumber (hd newBlocks)) (Generation (the next)) (c\<lparr>cdb := d\<rparr>)
                            else c\<lparr>cdb := d\<rparr>)\<lparr>forkState := next\<rparr>))
          else (case WriteBlockInfos x (cdb c) newBlocks validationHashes of
                  (Inl e, d) \<Rightarrow> (False, c\<lparr>cdb := d\<rparr>) | (Inr _, d) \<Rightarrow> (True, c\<lparr>cdb := d\<rparr>)))"

section \<open>Observation\<close>

definition observeForkScan :: "int \<Rightarrow> Checker \<Rightarrow> (u64 \<times> u64 \<times> bool) \<times> Checker" where
  "observeForkScan t c =
     (case forkState c of
        None \<Rightarrow> ((0, 0, False), c)
      | Some s \<Rightarrow>
          if \<not> forkAligned c \<or> Pending s \<noteq> None then ((0, 0, False), c)
          else (let sched = schedObserve t (ForkScanInterval (config c) * Second) (anchorHeight (Published s))
                              (Generation s) (forkSchedule c) in
                ((matureHeight sched, Generation s, mature sched \<and> NextHeight s \<le> matureHeight sched),
                 c\<lparr>forkSchedule := sched\<rparr>)))"

text \<open>What an error of the scan is counted as.\<close>

datatype scanReport = Silent | Skip | Failure

definition reportForkScanError :: "err \<Rightarrow> scanReport" where
  "reportForkScanError e =
     (if errors_Is e Stale \<or> errors_Is e Canceled then Silent
      else if errors_Is e NoCanonical then Skip else Failure)"

section \<open>Reading the canonical hash and executing a plan\<close>

definition readScanCanonical :: "pebble \<Rightarrow> u64 \<Rightarrow> hash res" where
  "readScanCanonical p height =
     (case GetCanonicalHashByNum p height of
        Inl e \<Rightarrow> Inl e | Inr None \<Rightarrow> Inl NoCanonical | Inr (Some h) \<Rightarrow> Inr h)"

definition canonicalForScan :: "Checker \<Rightarrow> u64 \<Rightarrow> hash res" where
  "canonicalForScan c height =
     (if (case latestOuter c of None \<Rightarrow> True | Some n \<Rightarrow> height > outBlockNumber n) then Inl NoCanonical
      else readScanCanonical (store c) height)"

primrec putPlan ::
  "svc \<Rightarrow> ctx \<Rightarrow> (world \<Rightarrow> err option) \<Rightarrow> forkRewrite list \<Rightarrow> world \<Rightarrow> unit res \<times> world" where
  "putPlan v ctx verify [] w = ((case ctx_Err ctx w of Some e \<Rightarrow> Inl e | None \<Rightarrow> Inr ()), w)"
| "putPlan v ctx verify (rw # plan) w =
     (case verify w of
        Some e \<Rightarrow> (Inl e, w)
      | None \<Rightarrow>
          (case rewriteValidationAtKeyCtx v (WithTimeout forkScanWriteTimeout w ctx) (rwKey rw) (rwValidation rw) w of
             (Inl e, w') \<Rightarrow> (Inl e, w')
           | (Inr _, w') \<Rightarrow> putPlan v ctx verify plan w'))"

definition scanBlock :: "u64 \<Rightarrow> hash \<Rightarrow> BlockContext" where
  "scanBlock height h = \<lparr> BlockNumber = height, Hash = h, ParentHash = 0, Timestamp = 0 \<rparr>"

definition executeForkScanPlan ::
  "ext \<Rightarrow> svc \<Rightarrow> Config \<Rightarrow> ctx \<Rightarrow> u64 \<Rightarrow> hash \<Rightarrow> (world \<Rightarrow> err option) \<Rightarrow> world \<Rightarrow> unit res \<times> world" where
  "executeForkScanPlan x v cfg ctx height h verify w =
     (case planForkRewritesCtx x v cfg ctx (scanBlock height h) None w of
        (Inl e, w') \<Rightarrow> (Inl e, w')
      | (Inr plan, w') \<Rightarrow> putPlan v ctx verify plan w')"

section \<open>The window scanner\<close>

definition verifyWindow :: "(nat \<Rightarrow> Checker) \<Rightarrow> ctx \<Rightarrow> u64 \<Rightarrow> hash \<Rightarrow> world \<Rightarrow> err option" where
  "verifyWindow chk ctx height h w =
     (case ctx_Err ctx w of
        Some e \<Rightarrow> Some e
      | None \<Rightarrow> (case canonicalForScan (chk (tick w)) height of
                   Inl e \<Rightarrow> Some e | Inr current \<Rightarrow> if current \<noteq> h then Some Stale else None))"

definition scanForkBlocksAtHeight ::
  "ext \<Rightarrow> svc \<Rightarrow> Config \<Rightarrow> (nat \<Rightarrow> Checker) \<Rightarrow> ctx \<Rightarrow> u64 \<Rightarrow> world \<Rightarrow> unit res \<times> world" where
  "scanForkBlocksAtHeight x v cfg chk parent height w =
     (let ctx = WithTimeout forkScanHeightTimeout w parent in
      case canonicalForScan (chk (tick w)) height of
        Inl e \<Rightarrow> (Inl (Wrap ''height'' e), w)
      | Inr h \<Rightarrow>
          (case executeForkScanPlan x v cfg ctx height h (verifyWindow chk ctx height h) w of
             (Inl e, w') \<Rightarrow> (Inl e, w')
           | (Inr _, w') \<Rightarrow> ((case verifyWindow chk ctx height h w' of Some e \<Rightarrow> Inl e | None \<Rightarrow> Inr ()), w')))"

text \<open>The loop over the window; it returns the heights scanned and what was reported for each.\<close>

function scanWindow ::
  "ext \<Rightarrow> svc \<Rightarrow> Config \<Rightarrow> (nat \<Rightarrow> Checker) \<Rightarrow> ctx \<Rightarrow> u64 \<Rightarrow> u64 \<Rightarrow> world \<Rightarrow> (u64 \<times> scanReport option) list \<times> world" where
  "scanWindow x v cfg chk ctx h tip w =
     (if ctx_Err ctx w \<noteq> None then ([], w)
      else (case scanForkBlocksAtHeight x v cfg chk ctx h w of
              (r, w1) \<Rightarrow>
                (let entry = (h, case r of Inl e \<Rightarrow> Some (reportForkScanError e) | Inr _ \<Rightarrow> None) in
                 if h = tip then ([entry], w1)
                 else (case scanWindow x v cfg chk ctx (h + 1) tip w1 of (l, w2) \<Rightarrow> (entry # l, w2)))))"
  by pat_completeness auto
termination
proof (relation "measure (\<lambda>(x, v, cfg, chk, ctx, h, tip, w). unat (tip - h))")
  show "((x, v, cfg, chk, ctx, h + 1, tip, w1), (x, v, cfg, chk, ctx, h, tip, w))
      \<in> measure (\<lambda>(x, v, cfg, chk, ctx, h, tip, w). unat (tip - h))" if "h \<noteq> tip"
    for x v cfg chk ctx tip w w1 and h :: u64
  proof -
    have "tip - h \<noteq> 0" using that by simp
    then have "unat (tip - h - 1) < unat (tip - h)" by (simp add: u64_pred word_gt_0 unat_gt_0)
    then show ?thesis by (simp add: diff_diff_eq)
  qed
qed simp

declare scanWindow.simps [simp del]

definition windowStart :: "int \<Rightarrow> u64 \<Rightarrow> u64" where
  "windowStart lookback tip =
     (if (word_of_int lookback :: u64) \<le> tip then tip - word_of_int lookback + 1 else 0)"

definition scanRecentForkBlocks ::
  "ext \<Rightarrow> svc \<Rightarrow> Config \<Rightarrow> (nat \<Rightarrow> Checker) \<Rightarrow> ctx \<Rightarrow> world \<Rightarrow> (u64 \<times> scanReport option) list \<times> world" where
  "scanRecentForkBlocks x v cfg chk ctx w =
     (if ForkScanLookback cfg \<le> 0 \<or> ForkScanInterval cfg \<le> 0 then ([], w)
      else (case latestOuter (chk (tick w)) of
              None \<Rightarrow> ([], w)
            | Some n \<Rightarrow> scanWindow x v cfg chk ctx (windowStart (ForkScanLookback cfg) (outBlockNumber n)) (outBlockNumber n) w))"

section \<open>The heights of the window\<close>

lemma scanWindow_heights:
  "map fst (fst (scanWindow x v cfg chk Background h tip w)) = map (\<lambda>i. h + of_nat i) [0..<Suc (unat (tip - h))]"
proof (induction "unat (tip - h)" arbitrary: h w)
  case 0
  then have "h = tip" by (simp add: unat_eq_zero)
  moreover obtain r w1 where "scanForkBlocksAtHeight x v cfg chk Background tip w = (r, w1)"
    by (cases "scanForkBlocksAtHeight x v cfg chk Background tip w")
  ultimately show ?case by (subst scanWindow.simps) (simp add: ctx_Err_def Background_def [symmetric], simp add: Background_def)
next
  case (Suc m)
  then have ne: "h \<noteq> tip" by auto
  have m: "unat (tip - (h + 1)) = m"
    using u64_pred [of "tip - h"] Suc.hyps(2) by (simp add: word_less_nat_alt diff_diff_eq)
  obtain r w1 where s: "scanForkBlocksAtHeight x v cfg chk Background h w = (r, w1)"
    by (cases "scanForkBlocksAtHeight x v cfg chk Background h w")
  obtain l w2 where l: "scanWindow x v cfg chk Background (h + 1) tip w1 = (l, w2)"
    by (cases "scanWindow x v cfg chk Background (h + 1) tip w1")
  have c: "ctx_Err Background w = None" by (simp add: ctx_Err_def Background_def)
  have "map fst l = map (\<lambda>i. h + 1 + of_nat i) [0..<Suc m]"
    using Suc.hyps(1) [OF m [symmetric], of w1] l m by (simp del: upt_Suc)
  also have "\<dots> = map (\<lambda>i. h + of_nat i) [Suc 0..<Suc (Suc m)]"
    by (simp add: map_Suc_upt [symmetric] add.assoc del: upt_Suc)
  finally show ?case
    using s c ne l Suc.hyps(2) [symmetric]
    by (subst scanWindow.simps) (simp add: upt_conv_Cons del: upt_Suc)
qed

lemma windowStart_span:
  assumes "0 < lookback" and "lookback < 2 ^ 64"
  shows "unat (tip - windowStart lookback tip) = min (nat lookback - 1) (unat tip)"
proof -
  let ?l = "word_of_int lookback :: u64"
  have l: "unat ?l = nat lookback" 
    using assms by (simp add: unat_eq_nat_uint uint_word_of_int_eq take_bit_eq_mod)
  show ?thesis
  proof (cases "?l \<le> tip")
    case True
    then have "nat lookback \<le> unat tip" using l by (simp add: word_le_nat_alt)
    moreover have "tip - windowStart lookback tip = ?l - 1" using True by (simp add: windowStart_def)
    moreover have "unat (?l - 1) = nat lookback - 1" using assms l u64_pred [of ?l] by (simp add: word_less_nat_alt)
    ultimately show ?thesis using assms by simp
  next
    case False
    then have "unat tip < nat lookback" using l by (simp add: word_le_nat_alt not_le)
    then show ?thesis using False by (simp add: windowStart_def)
  qed
qed

text \<open>A checker whose store maps height 5 to the hash 7, with an outer tail at height 4.\<close>

definition exOuter :: "u64 \<Rightarrow> hash \<Rightarrow> OuterBlockChangeNotification" where
  "exOuter n h = \<lparr> outBlockNumber = n, outHash = h, outChainID = 56, outTimestamp = 0, outIsFork = False \<rparr>"

definition exChk :: Checker where
  "exChk = \<lparr> config = exCfg, latestOuter = Some (exOuter 4 9), etcdLock = None, latestWriteEtcd = 0, latestMsgOffset = 0,
     isOuterSingletonAlign = False, cachedOuterSingle = None, ReplicaLatestBlockNumber = 0,
     lastWrittenBlockNumber = 0, currentNotice = \<lparr> nidTail = 0, nidNewCount = 0, nidDropCount = 0 \<rparr>,
     delivered = (\<lambda>_. {}), forkState = None, forkRecoveryAnchor = None, forkRecoveryDrop = False,
     forkAligned = False, forkSchedule = zeroSchedule 0, forkBatch = None, batches = 0,
     cdb = \<lparr> db = emptyPebble\<lparr>kv := [NumKey 5 \<mapsto> hash_bytes 7]\<rparr>, latest = None \<rparr> \<rparr>"

text \<open>
  C24: the window scanner visits exactly the last \<^verbatim>\<open>fork_scan_lookback\<close> heights up to the published tip,
  each once and in ascending order, also when the chain is shorter than the window and when the tip
  is the largest height: the loop ends without wrapping around.
\<close>

theorem window_scan_visits_window:
  assumes "\<forall>t. ctx t = None" and "latestOuter (chk (tick w)) = Some n"
    and "0 < ForkScanLookback cfg" and "ForkScanLookback cfg < 2 ^ 63" and "0 < ForkScanInterval cfg"
  shows "map (unat \<circ> fst) (fst (scanRecentForkBlocks x v cfg chk ctx w)) =
    [Suc (unat (outBlockNumber n)) - nat (ForkScanLookback cfg)..<Suc (unat (outBlockNumber n))]"
proof -
  let ?tip = "outBlockNumber n" and ?k = "nat (ForkScanLookback cfg)"
  let ?h = "windowStart (ForkScanLookback cfg) ?tip"
  have ctx: "ctx = Background" using assms(1) by (auto simp: Background_def)
  have k: "ForkScanLookback cfg < 2 ^ 64" "0 < ?k" using assms(3,4) by simp_all
  have span: "unat (?tip - ?h) = min (?k - 1) (unat ?tip)" using windowStart_span [OF assms(3) k(1)] .
  have "unat ?tip = unat ?h + unat (?tip - ?h)"
  proof -
    have "?h \<le> ?tip"
    proof (rule ccontr)
      assume "\<not> ?h \<le> ?tip"
      then have "unat ?tip < unat ?h" by (simp add: word_le_nat_alt)
      then have "unat (?tip - ?h) = unat ?tip + 2 ^ 64 - unat ?h"
        by (simp add: unat_sub_if_size word_size)
      moreover have "unat ?h < 2 ^ 64" using unsigned_less [of ?h] by simp
      ultimately show False using span \<open>unat ?tip < unat ?h\<close> by (simp add: min_def split: if_splits)
    qed
    then show ?thesis by (simp add: unat_sub word_le_nat_alt)
  qed
  then have h: "unat ?h = Suc (unat ?tip) - ?k" using span k(2) by (simp add: min_def split: if_splits)
  have "scanRecentForkBlocks x v cfg chk ctx w = scanWindow x v cfg chk ctx ?h ?tip w"
    using assms(2,3,5) by (simp add: scanRecentForkBlocks_def)
  then have "map (unat \<circ> fst) (fst (scanRecentForkBlocks x v cfg chk ctx w)) =
      map (\<lambda>i. unat (?h + of_nat i)) [0..<Suc (unat (?tip - ?h))]"
    using scanWindow_heights [of x v cfg chk ?h ?tip w] ctx
    by (simp flip: map_map del: upt_Suc) (simp add: comp_def del: upt_Suc)
  also have "\<dots> = map (\<lambda>i. i + unat ?h) [0..<Suc (unat (?tip - ?h))]"
  proof (rule map_cong [OF refl])
    fix i assume "i \<in> set [0..<Suc (unat (?tip - ?h))]"
    then have "i + unat ?h \<le> unat ?tip" using \<open>unat ?tip = unat ?h + unat (?tip - ?h)\<close> by auto
    moreover have "unat ?tip < 2 ^ 64" using unsigned_less [of ?tip] by simp
    ultimately show "unat (?h + of_nat i) = i + unat ?h"
      using u64_add_nat [of ?h i] by (simp add: add.commute)
  qed
  also have "\<dots> = [unat ?h..<Suc (unat ?tip)]"
    using \<open>unat ?tip = unat ?h + unat (?tip - ?h)\<close> map_add_upt [of "unat ?h" "Suc (unat (?tip - ?h))"]
    by (simp add: add.commute del: upt_Suc)
  finally show ?thesis by (simp add: h del: upt_Suc)
qed

theorem window_scan_visits_window_witness:
  "map (unat \<circ> fst) (fst (scanRecentForkBlocks hexExt plainSvc (exCfg\<lparr>ForkScanLookback := 3\<rparr>) (\<lambda>_. exChk)
     Background (exWorld []))) = [2, 3, 4]"
proof -
  have l: "latestOuter exChk = Some (exOuter 4 9)" by (simp add: exChk_def)
  have "map (unat \<circ> fst) (fst (scanRecentForkBlocks hexExt plainSvc (exCfg\<lparr>ForkScanLookback := 3\<rparr>) (\<lambda>_. exChk)
     Background (exWorld []))) = [Suc (unat (outBlockNumber (exOuter 4 9))) - nat 3..<Suc (unat (outBlockNumber (exOuter 4 9)))]"
    using window_scan_visits_window [of Background "\<lambda>_. exChk" "exWorld []" "exOuter 4 9" "exCfg\<lparr>ForkScanLookback := 3\<rparr>"] l
    by (simp add: Background_def exCfg_def defaultConfig_def del: upt_Suc)
  also have "\<dots> = [2, 3, 4]" by (simp add: exOuter_def upt_rec)
  finally show ?thesis .
qed

section \<open>Pending publications and recovery\<close>

definition exSt :: ForkScanState where
  "exSt = \<lparr> Format = 1, Baseline = \<lparr> anchorHeight = 4, anchorHash = 9 \<rparr>, NextHeight = 5, Generation = 1,
     Published = \<lparr> anchorHeight = 4, anchorHash = 9 \<rparr>, Position = None, Pending = None \<rparr>"

definition exSt1 :: ForkScanState where
  "exSt1 = exSt\<lparr> Published := \<lparr> anchorHeight = 5, anchorHash = 7 \<rparr> \<rparr>"

lemma ex_cfg: "ContinuousForkScan exCfg" "ChainID exCfg = 56"
  by (simp_all add: ContinuousForkScan_def exCfg_def defaultConfig_def)

lemma ex_save:
  assumes "validate st = Inr ()" and "\<not> commitErr (store c) (epoch (store c))"
  obtains c' where "saveForkScan hexExt st c = (Inr (), c')" "forkState c' = Some st" "latestOuter c' = latestOuter c"
    "config c' = config c" "forkRecoveryAnchor c' = forkRecoveryAnchor c"
    "SaveForkScan hexExt (store c) (ChainID (config c)) (Version (config c)) st = (Inr (), store c')"
    "readErr (store c') = readErr (store c)" "\<And>n. kv (store c') (NumKey n) = kv (store c) (NumKey n)"
proof -
  let ?k = "forkScanKey (ChainID (config c)) (Version (config c))"
  let ?p = "(store c)\<lparr>kv := (kv (store c))(?k \<mapsto> str_bytes (json_print (state_json hexExt st))),
     epoch := Suc (epoch (store c))\<rparr>"
  have "SaveForkScan hexExt (store c) (ChainID (config c)) (Version (config c)) st = (Inr (), ?p)"
    using assms by (simp add: SaveForkScan_def setForkScan_def Commit_def)
  then show thesis
    by (intro that [of "(setStore ?p c)\<lparr>forkState := Some st\<rparr>"]) (simp_all add: saveForkScan_def setStore_def)
qed

lemma ex_valid: "validate exSt = Inr ()" "validate exSt1 = Inr ()"
  by (simp_all add: validate_def exSt1_def exSt_def MaxUint64_def)

lemma exChk_store: "\<not> commitErr (store exChk) t" "\<not> readErr (store exChk) t k" "kv (store exChk) (NumKey 5) = Some (hash_bytes 7)"
  by (simp_all add: exChk_def emptyPebble_def)

text \<open>
  C22: work that was written but not yet published stays pending. If a publication checkpoint clears
  the pending anchor of the cursor, then the outer tail is a new block (not a drop) of this chain
  and is exactly the pending anchor; replays of older messages never clear it.
\<close>

theorem pending_cleared_only_by_its_tail:
  assumes "finishForkScan x position c = (r, c')" and "forkState c = Some s" and "Pending s = Some a"
    and "forkState c' = Some s'" and "Pending s' = None"
  shows "\<exists>n. latestOuter c = Some n \<and> \<not> outIsFork n \<and> outChainID n = ChainID (config c) \<and>
    outerAnchor n = a \<and> Published s' = a \<and> NextHeight s' = NextHeight s \<and> r"
proof -
  have nc: "c' \<noteq> c" using assms(2-5) by auto
  have cont: "ContinuousForkScan (config c)"
    by (rule ccontr) (use assms(1) nc in \<open>simp add: finishForkScan_def\<close>)
  obtain n where n: "latestOuter c = Some n"
    using assms(1) nc cont by (cases "latestOuter c") (auto simp: finishForkScan_def)
  moreover have "outChainID n = ChainID (config c)"
    by (rule ccontr) (use assms(1) nc cont n in \<open>simp add: finishForkScan_def\<close>)
  moreover from this have "\<not> outIsFork n"
    by (intro notI) (use assms(1) nc cont n in \<open>simp add: finishForkScan_def\<close>)
  ultimately have n: "latestOuter c = Some n" "outChainID n = ChainID (config c)" "\<not> outIsFork n" by blast+
  let ?s = "publishedState (outerAnchor n) position s"
  obtain q c1 where q: "saveForkScan x ?s c = (q, c1)" by (cases "saveForkScan x ?s c")
  have ne: "s' \<noteq> s" using assms(3,5) by auto
  have fin: "finishForkScan x position c =
      (case q of Inl e \<Rightarrow> (False, c1) | Inr _ \<Rightarrow> (True, c1\<lparr> forkAligned := True, forkRecoveryDrop := False \<rparr>))"
    using q n cont assms(2) by (simp add: finishForkScan_def Let_def split: sum.split)
  have st: "forkState c1 = (case q of Inl e \<Rightarrow> Some s | Inr _ \<Rightarrow> Some ?s)"
    using q assms(2) by (auto simp: saveForkScan_def split: prod.splits sum.splits)
  have "q = Inr ()" using assms(1,4) fin st ne by (cases q) auto
  then have "s' = ?s" and r using assms(1,4) fin st by auto
  moreover have "outerAnchor n = a" "NextHeight ?s = NextHeight s" "Published ?s = outerAnchor n"
    using assms(3,5) \<open>s' = ?s\<close> by (auto simp: publishedState_def Let_def split: if_splits)
  ultimately show ?thesis using n by auto
qed

theorem pending_cleared_only_by_its_tail_witness:
  "\<exists>c' s'. finishForkScan hexExt None (exChk\<lparr>forkState := Some (exSt\<lparr>Pending := Some (outerAnchor (exOuter 4 9))\<rparr>)\<rparr>) = (True, c') \<and>
     forkState c' = Some s' \<and> Published s' = outerAnchor (exOuter 4 9) \<and> NextHeight s' = 5"
proof -
  let ?s = "exSt\<lparr>Pending := Some (outerAnchor (exOuter 4 9))\<rparr>"
  let ?c = "exChk\<lparr>forkState := Some ?s\<rparr>"
  have p: "publishedState (outerAnchor (exOuter 4 9)) None ?s = exSt"
    by (simp add: publishedState_def Let_def outerAnchor_def exOuter_def exSt_def)
  have nc: "\<not> commitErr (store ?c) (epoch (store ?c))" using exChk_store by simp
  obtain c1 where c1: "saveForkScan hexExt exSt ?c = (Inr (), c1)" "forkState c1 = Some exSt"
    using ex_valid(1) nc by (rule ex_save)
  have e: "latestOuter exChk = Some (exOuter 4 9)" "config exChk = exCfg" by (simp_all add: exChk_def)
  have f: "finishForkScan hexExt None ?c = (True, c1\<lparr> forkAligned := True, forkRecoveryDrop := False \<rparr>)"
    using c1(1) p e by (simp add: finishForkScan_def ex_cfg Let_def) (simp add: exOuter_def)
  have "Pending exSt = None" by (simp add: exSt_def)
  with pending_cleared_only_by_its_tail [OF f, of ?s "outerAnchor (exOuter 4 9)" exSt] f c1(2)
  show ?thesis by (auto simp: exSt_def)
qed

text \<open>
  C23: a restart resumes scanning without a new message only when all three views agree. If loading
  the cursor leaves the checker aligned, the cursor has no pending work, the outer tail is a new
  block of this chain, it is the block the cursor recorded as published, and the local canonical
  index maps its height to its hash.
\<close>

theorem aligned_restart_is_consistent:
  assumes "loadForkScan x c = Inr c'" and "forkAligned c'" and "ContinuousForkScan (config c)"
  shows "\<exists>s n. forkState c' = Some s \<and> Pending s = None \<and> latestOuter c = Some n \<and> \<not> outIsFork n \<and>
    outChainID n = ChainID (config c) \<and> outerAnchor n = Published s \<and>
    canon (store c) (anchorHeight (Published s)) = Some (anchorHash (Published s))"
proof -
  let ?c = "\<lambda>state. c\<lparr> forkState := state, forkAligned := False, forkRecoveryAnchor := None,
                        forkRecoveryDrop := False, forkSchedule := zeroSchedule 0 \<rparr>"
  obtain s c1 where rec: "recoverOuter (?c (Some s)) = Inr c1" and al: "alignRestored s c1 = Inr c'"
    using assms by (auto simp: loadForkScan_def recoverOuter_def split: sum.splits option.splits if_splits)
  have c1: "\<not> forkAligned c1" "forkState c1 = Some s" "store c1 = store c"
    using rec by (auto simp: recoverOuter_def split: option.splits if_splits)
  have p: "Pending s = None" "forkRecoveryAnchor c1 = Some (Published s)"
    using al assms(2) c1(1) by (auto simp: alignRestored_def split: if_splits)
  obtain h where h: "GetCanonicalHashByNum (store c) (anchorHeight (Published s)) = Inr h"
    and c': "c' = c1\<lparr>forkAligned := (h = Some (anchorHash (Published s)))\<rparr>"
    using al p c1(3) by (auto simp: alignRestored_def split: sum.splits)
  have "canon (store c) (anchorHeight (Published s)) = Some (anchorHash (Published s))"
    using GetCanonicalHashByNum_canon [OF h] assms(2) c' by simp
  moreover obtain n where "latestOuter c = Some n" "\<not> outIsFork n" "outChainID n = ChainID (config c)"
    "outerAnchor n = Published s"
    using rec p(2) by (auto simp: recoverOuter_def split: option.splits if_splits)
  ultimately show ?thesis using c1 p c' by auto
qed

theorem aligned_restart_is_consistent_witness:
  "\<exists>c c'. loadForkScan hexExt c = Inr c' \<and> forkAligned c' \<and> canon (store c) 5 = Some 7"
proof -
  let ?c = "exChk\<lparr>latestOuter := Some (exOuter 5 7)\<rparr>"
  have nc: "\<not> commitErr (store ?c) (epoch (store ?c))" using exChk_store by simp
  obtain c1 where c1: "latestOuter c1 = Some (exOuter 5 7)" "config c1 = exCfg"
    "SaveForkScan hexExt (store ?c) (ChainID exCfg) (Version exCfg) exSt1 = (Inr (), store c1)"
    "\<And>t k. \<not> readErr (store c1) t k" "kv (store c1) (NumKey 5) = Some (hash_bytes 7)"
  proof (rule ex_save [OF ex_valid(2) nc])
    fix c' assume a: "latestOuter c' = latestOuter ?c" "config c' = config ?c"
      "SaveForkScan hexExt (store ?c) (ChainID (config ?c)) (Version (config ?c)) exSt1 = (Inr (), store c')"
      "readErr (store c') = readErr (store ?c)" "\<And>n. kv (store c') (NumKey n) = kv (store ?c) (NumKey n)"
    have "config exChk = exCfg" by (simp add: exChk_def)
    then show thesis using a exChk_store by (intro that [of c']) simp_all
  qed
  have "storable exSt1" by (simp add: storable_def exSt1_def exSt_def in_int64_def)
  from hex_cursor.restart [OF c1(3) this c1(4)]
  have l: "LoadForkScan hexExt (store c1) (ChainID exCfg) (Version exCfg) = Inr (Some exSt1)" .
  have g: "GetCanonicalHashByNum (store c1) 5 = Inr (Some 7)"
    using c1(4,5) by (simp add: GetCanonicalHashByNum_def getBlockHashByNum_def Get_def)
  obtain c' where c': "loadForkScan hexExt c1 = Inr c'" "forkAligned c'"
    using l g c1(1,2)
    by (auto simp: loadForkScan_def ex_cfg recoverOuter_def alignRestored_def exOuter_def outerAnchor_def exSt1_def exSt_def)
  have cont: "ContinuousForkScan (config c1)" by (simp add: c1(2) ex_cfg)
  from aligned_restart_is_consistent [OF c' cont] c1(1) obtain s :: ForkScanState where
    "outerAnchor (exOuter 5 7) = Published s"
    "canon (store c1) (anchorHeight (Published s)) = Some (anchorHash (Published s))"
    by auto
  then have "canon (store c1) 5 = Some 7"
    unfolding \<open>outerAnchor (exOuter 5 7) = Published s\<close> [symmetric] by (simp add: exOuter_def outerAnchor_def)
  with c' show ?thesis by blast
qed

lemma reconcile_baseline:
  assumes "reconcileForkScanReplay x notice anchor s c = (r, c')" and "forkState c = Some s"
  shows "\<exists>s'. forkState c' = Some s' \<and> Baseline s' = Baseline s"
  using assms
  by (auto simp: reconcileForkScanReplay_def saveForkScan_def rewindForkScan_def Let_def
      split: if_splits sum.splits prod.splits)

lemma initialize_baseline:
  assumes "initializeForkScan x anchor position c = (r, c')" and "forkState c = Some s"
  shows "\<exists>s'. forkState c' = Some s' \<and> (Baseline s' = Baseline s \<or> Baseline s' = anchor)"
  using assms
  by (auto simp: initializeForkScan_def saveForkScan_def rewindForkScan_def Let_def
      split: if_splits sum.splits prod.splits)

text \<open>
  C21: history is skipped only on evidence. While a cursor exists, recovery moves its baseline only if
  the checker is not aligned, the cursor and the incoming message have positions on the same
  partition with at least one message missing between them, and the start-up outer anchor differs
  from the published head of the cursor; the new baseline is then that anchor.
\<close>

theorem baseline_moves_only_on_evidence:
  assumes "prepareForkScan x notice position c = (r, c')" and "forkState c = Some s"
    and "forkState c' = Some s'" and "Baseline s' \<noteq> Baseline s"
  shows "\<exists>old pos anchor. Position s = Some old \<and> position = Some pos \<and> offsetGap old pos \<and>
    forkRecoveryAnchor c = Some anchor \<and> Published s \<noteq> anchor \<and> Baseline s' = anchor \<and> \<not> forkAligned c"
proof -
  have nc: "c' \<noteq> c" using assms(2-4) by auto
  have na: "\<not> forkAligned c" and cont: "ContinuousForkScan (config c)"
    using assms(1) nc by (auto simp: prepareForkScan_def split: if_splits)
  then obtain anchor where an: "forkRecoveryAnchor c = Some anchor"
    using assms(1) nc by (cases "forkRecoveryAnchor c") (auto simp: prepareForkScan_def)
  let ?rec = "Published s \<noteq> anchor \<and> isAlreadyProcessed notice c \<and> forkNoticeExtends notice (Published s)"
  have nrec: "\<not> ?rec"
  proof
    assume ?rec
    then have "prepareForkScan x notice position c = (case reconcileForkScanReplay x notice anchor s c of
        (Inl e, c') \<Rightarrow> (False, c') | (Inr _, c') \<Rightarrow> (True, c'))"
      using na cont an assms(2) by (simp add: prepareForkScan_def)
    then obtain q where "reconcileForkScanReplay x notice anchor s c = (q, c')"
      using assms(1) by (auto split: prod.splits sum.splits)
    from reconcile_baseline [OF this assms(2)] show False using assms(3,4) by auto
  qed
  have rs: "recoveryReset position anchor c"
    by (rule ccontr) (use na cont an assms(1,2) nc nrec in \<open>auto simp: prepareForkScan_def\<close>)
  then have "prepareForkScan x notice position c = (case initializeForkScan x anchor None c of
        (Inl e, c') \<Rightarrow> (False, c') | (Inr _, c') \<Rightarrow> (True, c'))"
    using na cont an assms(2) nrec by (auto simp: prepareForkScan_def)
  then obtain q where "initializeForkScan x anchor None c = (q, c')"
    using assms(1) by (auto split: prod.splits sum.splits)
  from initialize_baseline [OF this assms(2)] have "Baseline s' = anchor" using assms(3,4) by auto
  then show ?thesis
    using rs an na assms(2) by (auto simp: recoveryReset_def split: option.splits)
qed

theorem baseline_moves_only_on_evidence_witness:
  "\<exists>c' s'. prepareForkScan hexExt \<lparr> NewBlocks = [], DropBlocks = [] \<rparr>
       (Some \<lparr> Topic = ''t'', Partition = 0, Offset = 9 \<rparr>)
       (exChk\<lparr> forkState := Some (exSt\<lparr>Position := Some \<lparr> Topic = ''t'', Partition = 0, Offset = 3 \<rparr>\<rparr>),
               forkRecoveryAnchor := Some \<lparr> anchorHeight = 8, anchorHash = 8 \<rparr> \<rparr>) = (True, c') \<and>
     forkState c' = Some s' \<and> Baseline s' = \<lparr> anchorHeight = 8, anchorHash = 8 \<rparr>"
proof -
  let ?a = "\<lparr> anchorHeight = 8, anchorHash = 8 \<rparr> :: ForkScanAnchor"
  let ?old = "\<lparr> Topic = ''t'', Partition = 0, Offset = 3 \<rparr> :: ForkScanPosition"
  let ?pos = "\<lparr> Topic = ''t'', Partition = 0, Offset = 9 \<rparr> :: ForkScanPosition"
  let ?n = "\<lparr> NewBlocks = [], DropBlocks = [] \<rparr> :: BlockChangeNotification"
  let ?s = "exSt\<lparr>Position := Some ?old\<rparr>"
  let ?c = "exChk\<lparr> forkState := Some ?s, forkRecoveryAnchor := Some ?a \<rparr>"
  define st where "st = \<lparr> Format = 1, Baseline = ?a, NextHeight = 9, Generation = 2, Published = ?a, Position = None, Pending = None \<rparr>"
  have v: "validate st = Inr ()" by (simp add: st_def validate_def MaxUint64_def)
  have nc: "\<not> commitErr (store ?c) (epoch (store ?c))" using exChk_store by simp
  obtain c1 where c1: "saveForkScan hexExt st ?c = (Inr (), c1)" "forkState c1 = Some st"
    using v nc by (rule ex_save)
  have i: "initializeForkScan hexExt ?a None ?c = (Inr (), rewindForkScan 0 2 c1)"
    using c1(1) by (simp add: initializeForkScan_def Let_def st_def exSt_def MaxUint64_def)
  have e: "config exChk = exCfg" "forkAligned exChk = False" by (simp_all add: exChk_def)
  have p: "prepareForkScan hexExt ?n (Some ?pos) ?c = (True, rewindForkScan 0 2 c1)"
    using i e
    by (simp add: prepareForkScan_def ex_cfg isAlreadyProcessed_def recoveryReset_def offsetGap_def split: option.split)
      (simp add: exSt_def)
  have f: "forkState (rewindForkScan 0 2 c1) = Some st" using c1(2) by (simp add: rewindForkScan_def)
  have "Baseline st \<noteq> Baseline ?s" by (simp add: st_def exSt_def)
  from baseline_moves_only_on_evidence [OF p _ f, of ?s] this p f show ?thesis by auto
qed

end
