(* ===== verification/ForkBatch.thy ===== *)
theory ForkBatch
  imports ForkScan
begin

text \<open>
  \<^verbatim>\<open>check/fork_scan_batch.go\<close> and the worker loop of \<^verbatim>\<open>fork_scan.go\<close>: one batch of the continuous scan.
  A batch begins and finishes under the processing lock; in between it scans heights against the
  shared state, seen through \<open>chk\<close>, and a reorg lowers the fence of the active batch.
\<close>

definition forkScanBatchSize :: nat where
  "forkScanBatchSize = 128"

definition forkScanBatchBudget :: int where
  "forkScanBatchBudget = 10 * Second"

text \<open>The object behind the worker's pointer: the active batch, or the worker's last view of it.\<close>

definition deref :: "Checker \<Rightarrow> forkScanBatch \<Rightarrow> forkScanBatch" where
  "deref c b = (case forkBatch c of None \<Rightarrow> b | Some b' \<Rightarrow> if bId b' = bId b then b' else b)"

definition stale :: "forkScanBatch \<Rightarrow> u64 \<Rightarrow> bool" where
  "stale b height = (case bRewind b of None \<Rightarrow> False | Some r \<Rightarrow> height \<ge> r)"

definition beginForkScanBatch :: "u64 \<Rightarrow> u64 \<Rightarrow> Checker \<Rightarrow> forkScanBatch res \<times> Checker" where
  "beginForkScanBatch upper generation c =
     (case forkState c of
        None \<Rightarrow> (Inl NoCanonical, c)
      | Some s \<Rightarrow>
          if \<not> forkAligned c \<or> Pending s \<noteq> None then (Inl NoCanonical, c)
          else if forkBatch c \<noteq> None then (Inl (Msg ''fork scan batch already active''), c)
          else if generation \<noteq> Generation s \<and>
                  (schedGeneration (forkSchedule c) \<noteq> Generation s \<or> \<not> mature (forkSchedule c))
          then (Inl Stale, c)
          else
            (let upper' = (if generation \<noteq> Generation s then min upper (matureHeight (forkSchedule c)) else upper);
                 b = \<lparr> bId = batches c, bStart = NextHeight s, bUpper = min upper' (anchorHeight (Published s)),
                       bGeneration = Generation s, bRewind = None \<rparr> in
             (Inr b, c\<lparr> forkBatch := Some b, batches := Suc (batches c) \<rparr>)))"

definition verifyForkScanBatchHeight :: "Checker \<Rightarrow> forkScanBatch \<Rightarrow> u64 \<Rightarrow> hash \<Rightarrow> err option" where
  "verifyForkScanBatchHeight c b0 height h =
     (let b = deref c b0 in
      case forkState c of
        None \<Rightarrow> Some Stale
      | Some s \<Rightarrow>
          if (case forkBatch c of None \<Rightarrow> True | Some b' \<Rightarrow> bId b' \<noteq> bId b) \<or> \<not> forkAligned c \<or>
             NextHeight s \<noteq> bStart b \<or> stale b height then Some Stale
          else if Generation s \<noteq> bGeneration b \<and> bRewind b = None then Some Stale
          else if height > anchorHeight (Published s) then Some NoCanonical
          else (case readScanCanonical (store c) height of
                  Inl e \<Rightarrow> Some e
                | Inr current \<Rightarrow> if current \<noteq> h then Some Stale else None))"

definition verifyBatch :: "(nat \<Rightarrow> Checker) \<Rightarrow> ctx \<Rightarrow> forkScanBatch \<Rightarrow> u64 \<Rightarrow> hash \<Rightarrow> world \<Rightarrow> err option" where
  "verifyBatch chk ctx b height h w =
     (case ctx_Err ctx w of
        Some e \<Rightarrow> Some e
      | None \<Rightarrow> verifyForkScanBatchHeight (chk (tick w)) b height h)"

definition scanContinuousBatchHeight ::
  "ext \<Rightarrow> svc \<Rightarrow> Config \<Rightarrow> (nat \<Rightarrow> Checker) \<Rightarrow> ctx \<Rightarrow> forkScanBatch \<Rightarrow> u64 \<Rightarrow> world \<Rightarrow> hash res \<times> world" where
  "scanContinuousBatchHeight x v cfg chk parent b height w =
     (let ctx = WithTimeout forkScanHeightTimeout w parent in
      case readScanCanonical (store (chk (tick w))) height of
        Inl e \<Rightarrow> (Inl (Wrap ''height'' e), w)
      | Inr h \<Rightarrow>
          (case executeForkScanPlan x v cfg ctx height h (verifyBatch chk ctx b height h) w of
             (Inl e, w') \<Rightarrow> (Inl e, w')
           | (Inr _, w') \<Rightarrow> (Inr h, w')))"

text \<open>
  The loop over heights: the number left of the batch, the next height and the heights checked so
  far. It returns the checked heights and the error that ended it, if any.
\<close>

primrec scanHeights ::
  "nat \<Rightarrow> ext \<Rightarrow> svc \<Rightarrow> Config \<Rightarrow> (nat \<Rightarrow> Checker) \<Rightarrow> ctx \<Rightarrow> forkScanBatch \<Rightarrow> int \<Rightarrow> u64 \<Rightarrow> (u64 \<times> hash) list \<Rightarrow>
   world \<Rightarrow> ((u64 \<times> hash) list \<times> err option) \<times> world" where
  "scanHeights 0 x v cfg chk ctx b deadline height checked w = ((checked, None), w)"
| "scanHeights (Suc n) x v cfg chk ctx b deadline height checked w =
     (if \<not> height \<le> bUpper b then ((checked, None), w)
      else if ctx_Err ctx w \<noteq> None then ((checked, ctx_Err ctx w), w)
      else if stale (deref (chk (tick w)) b) height then ((checked, Some Stale), w)
      else if checked \<noteq> [] \<and> \<not> now w < deadline then ((checked, None), w)
      else if height = MaxUint64 then ((checked, Some (Msg ''fork scan next height overflow'')), w)
      else (case scanContinuousBatchHeight x v cfg chk ctx b height w of
              (Inl e, w') \<Rightarrow> ((checked, Some e), w')
            | (Inr h, w') \<Rightarrow> scanHeights n x v cfg chk ctx b deadline (height + 1) (checked @ [(height, h)]) w'))"

text \<open>The verified prefix of the checked heights: the next height and the error that cut it off.\<close>

fun verifiedPrefix :: "Checker \<Rightarrow> forkScanBatch \<Rightarrow> (u64 \<times> hash) list \<Rightarrow> u64 \<Rightarrow> u64 \<times> err option" where
  "verifiedPrefix c b [] nextHeight = (nextHeight, None)"
| "verifiedPrefix c b ((height, h) # checked) nextHeight =
     (case verifyForkScanBatchHeight c b height h of
        Some e \<Rightarrow> (nextHeight, Some e)
      | None \<Rightarrow> verifiedPrefix c b checked (height + 1))"

definition finishForkScanBatch ::
  "ext \<Rightarrow> err option \<Rightarrow> forkScanBatch \<Rightarrow> (u64 \<times> hash) list \<Rightarrow> Checker \<Rightarrow> (bool \<times> err option) \<times> Checker" where
  "finishForkScanBatch x ctxErr b checked c =
     (case ctxErr of
        Some e \<Rightarrow> ((True, Some e), c\<lparr>forkBatch := None\<rparr>)
      | None \<Rightarrow>
          (case verifiedPrefix c b checked (bStart b) of
             (nextHeight, verifyErr) \<Rightarrow>
               if nextHeight > bStart b
               then (case saveForkScan x ((the (forkState c))\<lparr>NextHeight := nextHeight\<rparr>) c of
                       (Inl e, c') \<Rightarrow> ((True, Some e), c'\<lparr>forkBatch := None\<rparr>)
                     | (Inr _, c') \<Rightarrow> ((nextHeight \<le> bUpper b, verifyErr), c'\<lparr>forkBatch := None\<rparr>))
               else ((nextHeight \<le> bUpper b, verifyErr), c\<lparr>forkBatch := None\<rparr>)))"

text \<open>
  The whole batch. \<open>env c1\<close> is the evolution of the shared state after the batch has begun in \<open>c1\<close>,
  by ticks; the batch finishes in the state it finds then.
\<close>

definition scanContinuousBatch ::
  "ext \<Rightarrow> svc \<Rightarrow> Config \<Rightarrow> (Checker \<Rightarrow> nat \<Rightarrow> Checker) \<Rightarrow> ctx \<Rightarrow> u64 \<Rightarrow> u64 \<Rightarrow> Checker \<Rightarrow> world \<Rightarrow>
   (bool \<times> err option) \<times> Checker \<times> world" where
  "scanContinuousBatch x v cfg env ctx upper generation c w =
     (case beginForkScanBatch upper generation c of
        (Inl e, c') \<Rightarrow> ((True, Some e), c', w)
      | (Inr b, c1) \<Rightarrow>
          (case scanHeights forkScanBatchSize x v cfg (env c1) ctx b (now w + forkScanBatchBudget) (bStart b) [] w of
             ((checked, err), w') \<Rightarrow>
               (case finishForkScanBatch x (ctx_Err ctx w') b checked (env c1 (tick w')) of
                  ((again, finErr), c2) \<Rightarrow> ((again, errors_Join err finErr), c2, w'))))"

section \<open>The worker loop\<close>

text \<open>The wait before the next iteration of \<^verbatim>\<open>runForkScan\<close>, and what the iteration reports.\<close>

definition forkScanWait :: "Config \<Rightarrow> (bool \<times> err option) option \<Rightarrow> int \<times> scanReport option" where
  "forkScanWait cfg r =
     (case r of
        None \<Rightarrow> (ForkScanInterval cfg * Second, None)
      | Some (again, Some e) \<Rightarrow>
          if errors_Is e Stale then (Millisecond, None)
          else (ForkScanInterval cfg * Second, Some (reportForkScanError e))
      | Some (again, None) \<Rightarrow>
          if again then (Millisecond, None) else (ForkScanInterval cfg * Second, None))"

text \<open>One iteration in continuous mode: observe, scan a batch if something is mature.\<close>

definition runForkScanOnce ::
  "ext \<Rightarrow> svc \<Rightarrow> (Checker \<Rightarrow> nat \<Rightarrow> Checker) \<Rightarrow> ctx \<Rightarrow> Checker \<Rightarrow> world \<Rightarrow> (int \<times> scanReport option) \<times> Checker \<times> world" where
  "runForkScanOnce x v env ctx c w =
     (case observeForkScan (now w) c of
        ((upper, generation, ready), c1) \<Rightarrow>
          if ready
          then (case scanContinuousBatch x v (config c) env ctx upper generation c1 w of
                  (r, c2, w') \<Rightarrow> (forkScanWait (config c) (Some r), c2, w'))
          else (forkScanWait (config c) None, c1, w))"

end
