(* ===== verification/ScanSystem.thy ===== *)
theory ScanSystem
  imports ForkBatch
begin

text \<open>
  The continuous scan running beside message processing. The sections that hold the processing lock
  (canonical writes, publication checkpoints, recovery, observations, batch begin and finish, each
  PUT with its verification) are the atomic steps of a transition system; between them the two
  goroutines interleave arbitrarily, the bucket changes arbitrarily, and the process may crash and
  restart from the store. Ghost counters record how often the canonical mapping of each height has
  changed and for which of these states the height was scanned. The invariant shows that every
  height between the baseline and the cursor has been scanned in its current canonical state, also
  when a reorg comes back to an earlier hash.
\<close>

section \<open>What the sections under the lock keep\<close>

definition covered :: "ForkScanState option \<Rightarrow> u64 \<Rightarrow> bool" where
  "covered so h = (case so of None \<Rightarrow> False
     | Some s \<Rightarrow> anchorHeight (Baseline s) < h \<and> h < NextHeight s)"

definition cursorKey :: "Checker \<Rightarrow> bytes" where
  "cursorKey c = forkScanKey (ChainID (config c)) (Version (config c))"

text \<open>The cursor in memory is valid and the one in the store.\<close>

definition durable :: "ext \<Rightarrow> Checker \<Rightarrow> bool" where
  "durable x c = (case forkState c of
     None \<Rightarrow> kv (store c) (cursorKey c) = None
   | Some s \<Rightarrow> stored x (ChainID (config c)) (Version (config c)) (store c) s \<and> storable s)"

text \<open>The fence of a batch only ever gets lower; its other fields are immutable.\<close>

definition fence_le :: "forkScanBatch option \<Rightarrow> forkScanBatch option \<Rightarrow> bool" where
  "fence_le bo bo' = (case (bo, bo') of
     (None, None) \<Rightarrow> True
   | (Some b, Some b') \<Rightarrow> bId b' = bId b \<and> bStart b' = bStart b \<and> bUpper b' = bUpper b \<and>
       bGeneration b' = bGeneration b \<and> (\<forall>h. stale b h \<longrightarrow> stale b' h)
   | _ \<Rightarrow> False)"

definition keeps :: "ext \<Rightarrow> Checker \<Rightarrow> Checker \<Rightarrow> bool" where
  "keeps x c c' = (config c' = config c \<and> canon (store c') = canon (store c) \<and>
     (index_ok (store c) \<longrightarrow> index_ok (store c')) \<and> (durable x c \<longrightarrow> durable x c') \<and>
     fence_le (forkBatch c) (forkBatch c') \<and> (forkState c \<noteq> None \<longrightarrow> forkState c' \<noteq> None) \<and>
     (\<forall>h. covered (forkState c') h \<longrightarrow> covered (forkState c) h))"

lemma fence_le_refl [simp]: "fence_le bo bo"
  by (cases bo) (simp_all add: fence_le_def)

lemma fence_le_trans: "fence_le a b \<Longrightarrow> fence_le b c \<Longrightarrow> fence_le a c"
  by (cases a; cases b; cases c) (auto simp: fence_le_def)

lemma stale_lower [simp]: "stale (lowerFence h b) k \<longleftrightarrow> stale b k \<or> h \<le> k"
  by (auto simp: lowerFence_def stale_def split: option.splits)

lemma lowerFence_sel [simp]:
  "bId (lowerFence h b) = bId b" "bStart (lowerFence h b) = bStart b" "bUpper (lowerFence h b) = bUpper b"
  "bGeneration (lowerFence h b) = bGeneration b"
  by (simp_all add: lowerFence_def split: option.splits)

lemma fence_le_lower [simp]: "fence_le bo (map_option (lowerFence h) bo)"
  by (cases bo) (simp_all add: fence_le_def)

lemma keeps_refl [simp]: "keeps x c c"
  by (simp add: keeps_def)

lemma keeps_trans: "keeps x a b \<Longrightarrow> keeps x b c \<Longrightarrow> keeps x a c"
  unfolding keeps_def using fence_le_trans by metis

lemma keeps_cong:
  assumes "keeps x c c'" and "config d = config c'" and "store d = store c'" and "forkState d = forkState c'"
    and "fence_le (forkBatch c') (forkBatch d)"
  shows "keeps x c d"
proof -
  have "durable x d = durable x c'"
    by (simp add: durable_def cursorKey_def assms(2-4) split: option.split)
  then show ?thesis
    using assms(1) fence_le_trans [OF _ assms(5)] by (simp add: keeps_def assms(2-4))
qed

lemma SaveForkScan_canon:
  assumes "SaveForkScan x p c v s = (r, p')"
  shows "canon p' = canon p" and "index_ok p \<Longrightarrow> index_ok p'"
proof -
  have "kv p' (NumKey n) = kv p (NumKey n)" for n
    using assms SaveForkScan_failed [of x p c v s _ p'] SaveForkScan_ok(2) [of x p c v s p']
    by (cases r) auto
  then show "canon p' = canon p" and "index_ok p \<Longrightarrow> index_ok p'"
    by (auto simp: canon_def index_ok_def fun_eq_iff)
qed

lemma saveForkScan_store:
  assumes "saveForkScan x s c = (r, c')" and "storable s"
  shows "config c' = config c" and "canon (store c') = canon (store c)"
    and "index_ok (store c) \<Longrightarrow> index_ok (store c')" and "durable x c \<Longrightarrow> durable x c'"
    and "forkBatch c' = forkBatch c"
    and "(r = Inr () \<and> forkState c' = Some s \<and> validate s = Inr ()) \<or> (r \<noteq> Inr () \<and> forkState c' = forkState c)"
proof -
  let ?k = "ChainID (config c)" and ?v = "Version (config c)"
  obtain q p where q: "SaveForkScan x (store c) ?k ?v s = (q, p)" by (cases "SaveForkScan x (store c) ?k ?v s")
  note canon = SaveForkScan_canon [OF q]
  have c': "c' = setStore p c\<lparr>forkState := (case q of Inl e \<Rightarrow> forkState c | Inr _ \<Rightarrow> Some s)\<rparr>" "r = q"
    using assms(1) q by (auto simp: saveForkScan_def setStore_def split: sum.splits)
  then have st: "store c' = p" by (simp add: setStore_def)
  show "config c' = config c" "forkBatch c' = forkBatch c" by (simp_all add: c')
  show "canon (store c') = canon (store c)" "index_ok (store c) \<Longrightarrow> index_ok (store c')"
    using canon by (simp_all add: st)
  show "durable x c'" if "durable x c"
  proof (cases q)
    case (Inl e)
    then have "kv p = kv (store c)" using q SaveForkScan_failed by blast
    then show ?thesis using that Inl by (simp add: durable_def st c' stored_def cursorKey_def split: option.splits)
  next
    case (Inr u)
    have "SaveForkScan x (store c) ?k ?v s = (Inr (), p)" using q Inr by simp
    note ok = SaveForkScan_ok [OF this]
    have "stored x ?k ?v p s" using ok by (simp add: stored_def)
    then show ?thesis using assms(2) Inr by (simp add: durable_def st c')
  qed
  have "validate s = Inr ()" if "q = Inr ()" using SaveForkScan_ok(1) q that by blast
  then show "(r = Inr () \<and> forkState c' = Some s \<and> validate s = Inr ()) \<or> (r \<noteq> Inr () \<and> forkState c' = forkState c)"
    by (cases q) (auto simp: c')
qed

lemma saveForkScan_keeps:
  assumes "saveForkScan x s c = (r, c')" and "storable s" and "\<And>h. covered (Some s) h \<Longrightarrow> covered (forkState c) h"
  shows "keeps x c c'"
  using saveForkScan_store [OF assms(1,2)] assms(3) by (auto simp: keeps_def)

lemma rewindForkScan_keeps: "keeps x c c' \<Longrightarrow> keeps x c (rewindForkScan h g c')"
  by (erule keeps_cong) (simp_all add: rewindForkScan_def)

text \<open>A fresh cursor covers nothing yet.\<close>

lemma fresh_covered: "a \<noteq> MaxUint64 \<Longrightarrow> \<not> (a < h \<and> h < a + 1)" for a h :: u64
  by (auto simp: u64_less_Suc_iff)

lemma initializeForkScan_keeps:
  assumes "initializeForkScan x anchor position c = (r, c')"
    and "case position of None \<Rightarrow> True | Some p \<Rightarrow> ascii (Topic p) \<and> in_int64 (Partition p) \<and> in_int64 (Offset p)"
  shows "keeps x c c'"
proof -
  define g where "g = (case forkState c of None \<Rightarrow> 1 | Some s \<Rightarrow> Generation s + 1)"
  define st where "st = \<lparr> Format = 1, Baseline = anchor, NextHeight = anchorHeight anchor + 1,
                       Generation = g, Published = anchor, Position = position, Pending = None \<rparr>"
  show ?thesis
  proof (cases "anchorHeight anchor = MaxUint64 \<or> (case forkState c of None \<Rightarrow> False | Some s \<Rightarrow> Generation s = MaxUint64)")
    case True
    then have "c' = c" using assms(1) by (auto simp: initializeForkScan_def split: if_splits)
    then show ?thesis by simp
  next
    case False
    obtain q c1 where q: "saveForkScan x st c = (q, c1)" by (cases "saveForkScan x st c")
    have "storable st" using assms(2) by (simp add: storable_def st_def in_int64_def split: option.splits)
    moreover have "covered (Some st) h \<Longrightarrow> covered (forkState c) h" for h
      using fresh_covered [of "anchorHeight anchor" h] False by (simp add: covered_def st_def)
    ultimately have k: "keeps x c c1" by (rule saveForkScan_keeps [OF q])
    have "c' = (case q of Inl _ \<Rightarrow> c1 | Inr _ \<Rightarrow> rewindForkScan 0 g c1)"
      using assms(1) False q
      by (auto simp: initializeForkScan_def Let_def st_def [symmetric] g_def [symmetric] split: sum.splits)
    then show ?thesis using k by (auto simp: rewindForkScan_keeps split: sum.splits)
  qed
qed

text \<open>Positions that come from a Kafka message fit the encoding.\<close>

definition position_ok :: "ForkScanPosition option \<Rightarrow> bool" where
  "position_ok position = (case position of None \<Rightarrow> True
     | Some p \<Rightarrow> ascii (Topic p) \<and> in_int64 (Partition p) \<and> in_int64 (Offset p))"

lemma publishedState_covered [simp]: "covered (Some (publishedState a p s)) h = covered (Some s) h"
  by (simp add: covered_def publishedState_def Let_def)

lemma publishedState_storable: "storable s \<Longrightarrow> position_ok p \<Longrightarrow> storable (publishedState a p s)"
  by (auto simp: storable_def publishedState_def Let_def position_ok_def split: option.splits)

lemma durable_storable: "durable x c \<Longrightarrow> forkState c = Some s \<Longrightarrow> storable s"
  by (simp add: durable_def)

lemma finishForkScan_keeps:
  assumes "finishForkScan x position c = (r, c')" and "position_ok position" and "durable x c"
  shows "keeps x c c'"
proof (cases "ContinuousForkScan (config c)")
  case False
  then show ?thesis using assms(1) by (simp add: finishForkScan_def)
next
  case True
  show ?thesis
  proof (cases "latestOuter c")
    case None
    then show ?thesis using assms(1) True by (simp add: finishForkScan_def)
  next
    case (Some n)
    define q where "q = (case forkState c of
                         None \<Rightarrow> initializeForkScan x (outerAnchor n) position c
                       | Some s \<Rightarrow> saveForkScan x (publishedState (outerAnchor n) position s) c)"
    obtain r1 c1 where q1: "q = (r1, c1)" by (cases q)
    have "keeps x c c1"
    proof (cases "forkState c")
      case None
      then show ?thesis
        using q1 assms(2) initializeForkScan_keeps by (simp add: q_def position_ok_def)
    next
      case (Some s)
      then have sv: "saveForkScan x (publishedState (outerAnchor n) position s) c = (r1, c1)"
        using q1 by (simp add: q_def)
      show ?thesis
        using sv publishedState_storable [OF durable_storable [OF assms(3) Some] assms(2)]
        by (rule saveForkScan_keeps) (simp add: Some)
    qed
    moreover have "c' = c \<or> c' = c1 \<or> c' = c1\<lparr> forkAligned := True, forkRecoveryDrop := False \<rparr>"
      using assms(1) True Some q1
      by (auto simp: finishForkScan_def Let_def q_def [symmetric] split: if_splits sum.splits)
    ultimately show ?thesis by (auto intro: keeps_cong)
  qed
qed

lemma reconcile_keeps:
  assumes "reconcileForkScanReplay x notice anchor s c = (r, c')" and "forkState c = Some s" and "durable x c"
  shows "keeps x c c'"
proof -
  let ?first = "BlockNumber (hd (NewBlocks notice))" and ?d = "DropBlocks notice \<noteq> []"
  define s1 where "s1 = (if ?d then s\<lparr> Generation := Generation s + 1, NextHeight := min (NextHeight s) ?first \<rparr> else s)"
  define s2 where "s2 = s1\<lparr> Published := anchor, Pending := None \<rparr>"
  obtain q c1 where q: "saveForkScan x s2 c = (q, c1)" by (cases "saveForkScan x s2 c")
  have "storable s2" using durable_storable [OF assms(3,2)] by (simp add: s2_def s1_def storable_def)
  moreover have "covered (Some s2) h \<Longrightarrow> covered (forkState c) h" for h
    using assms(2) by (auto simp: covered_def s2_def s1_def split: if_splits)
  ultimately have k: "keeps x c c1" by (rule saveForkScan_keeps [OF q])
  have "c' = c \<or> c' = c1 \<or> c' = rewindForkScan ?first (Generation s2) c1"
    using assms(1) q
    by (auto simp: reconcileForkScanReplay_def Let_def s1_def [symmetric] s2_def [symmetric]
        split: if_splits sum.splits)
  then show ?thesis using k by (auto intro: rewindForkScan_keeps)
qed

lemma prepareForkScan_keeps:
  assumes "prepareForkScan x notice position c = (r, c')" and "durable x c"
  shows "keeps x c c'"
proof -
  have i: "initializeForkScan x anchor None c = (q, c1) \<Longrightarrow> keeps x c c1" for anchor q c1
    by (erule initializeForkScan_keeps) simp
  have rc: "forkState c \<noteq> None \<Longrightarrow> reconcileForkScanReplay x notice anchor (the (forkState c)) c = (q, c1) \<Longrightarrow> keeps x c c1"
    for anchor q c1
    using reconcile_keeps [OF _ _ assms(2)] by auto
  show ?thesis
  proof (cases "forkRecoveryAnchor c")
    case None
    then show ?thesis using assms(1) by (auto simp: prepareForkScan_def split: if_splits)
  next
    case (Some anchor)
    obtain q1 c1 where q1: "reconcileForkScanReplay x notice anchor (the (forkState c)) c = (q1, c1)"
      by (cases "reconcileForkScanReplay x notice anchor (the (forkState c)) c")
    obtain q2 c2 where q2: "initializeForkScan x anchor None c = (q2, c2)"
      by (cases "initializeForkScan x anchor None c")
    have "c' = c \<or> (forkState c \<noteq> None \<and> c' = c1) \<or> c' = c2"
      using assms(1) Some q1 q2
      by (cases q1; cases q2) (auto simp: prepareForkScan_def split: if_splits option.splits)
    then show ?thesis using rc [OF _ q1] i [OF q2] by auto
  qed
qed

lemma observeForkScan_keeps: "observeForkScan t c = (r, c') \<Longrightarrow> keeps x c c'"
  by (auto simp: observeForkScan_def Let_def split: option.splits if_splits intro: keeps_cong [OF keeps_refl])

section \<open>Canonical writes\<close>

lemma write_failed:
  assumes "WriteBlockInfosWithForkScan x d bs vs c v st = (Inl e, d')"
  shows "kv (db d') = kv (db d)"
  using assms pebble_kv.commit_failed [of "db d"]
  by (auto simp: WriteBlockInfosWithForkScan_def split: sum.splits prod.splits)

text \<open>Without a cursor a write touches only the two indexes.\<close>

definition index_ops :: "batch_op list \<Rightarrow> bool" where
  "index_ops ops = (op_key ` set ops \<subseteq> range HashKey \<union> range NumKey)"

lemma index_ops_append [simp]: "index_ops (a @ b) \<longleftrightarrow> index_ops a \<and> index_ops b"
  by (auto simp: index_ops_def)

lemma index_ops_other: "index_ops ops \<Longrightarrow> apply_batch ops m (forkScanKey c v) = m (forkScanKey c v)"
  by (rule apply_batch_other) (auto simp: index_ops_def)

lemma writeBlock_index_ops:
  assumes "writeBlock x p bv a = Inr a'" and "wNext a = None \<and> index_ops (wOps a)"
  shows "wNext a' = None \<and> index_ops (wOps a')"
proof -
  obtain b v where bv: "bv = (b, v)" by (cases bv)
  have "index_ops (wOps a')"
    using assms(1) unfolding bv
    by (rule writeBlock_ops) (use assms(2) in \<open>auto simp: index_ops_def\<close>)
  moreover have "wNext a' = None"
    using assms by (auto simp: bv writeBlock_def Let_def affected_def split: sum.splits option.splits if_splits)
  ultimately show ?thesis by simp
qed

lemma cleanAbove_index_ops:
  "cleanAbove p h a = Inr a' \<Longrightarrow> wNext a = None \<and> index_ops (wOps a) \<Longrightarrow> wNext a' = None \<and> index_ops (wOps a')"
proof (induction p h a rule: cleanAbove.induct)
  case (1 p h a)
  show ?case
  proof (cases "h < MaxUint64")
    case False
    then show ?thesis using 1 by (simp add: cleanAbove.simps [of p h])
  next
    case True
    let ?a = "(affected (h + 1) a)\<lparr> wOps := wOps a @ [BDelete (NumKey (uint (h + 1)))] \<rparr>"
    have P: "wNext ?a = None \<and> index_ops (wOps ?a)"
      using "1.prems"(2) by (simp add: affected_def) (simp add: index_ops_def)
    show ?thesis
    proof (cases "Get p (NumKey (uint (h + 1)))")
      case (Inl e)
      then show ?thesis
        using "1.prems" True by (simp add: cleanAbove.simps [of p h] split: if_splits)
    next
      case (Inr d)
      then have "cleanAbove p (h + 1) ?a = Inr a'"
        using "1.prems"(1) True by (simp add: cleanAbove.simps [of p h])
      then show ?thesis using "1.IH" [OF True Inr] P by simp
    qed
  qed
qed

lemma write_without_cursor:
  assumes "buildWrite x p bs vs c v None = Inr (next, ops)"
  shows "next = None \<and> index_ops ops"
proof -
  obtain a a' where w: "fold_res (writeBlock x p) (zip bs vs) (startWrite bs None) = Inr a"
    and cl: "cleanAbove p (BlockNumber (last bs)) a = Inr a'"
    and f: "finishCursor x c v a' = Inr (next, ops)"
    using assms by (rule buildWrite_cases)
  have "wNext (startWrite bs None) = None \<and> index_ops (wOps (startWrite bs None))"
    by (simp add: startWrite_def Let_def index_ops_def)
  with w have "wNext a = None \<and> index_ops (wOps a)"
    by (rule fold_res_inv) (rule writeBlock_index_ops)
  then have "wNext a' = None \<and> index_ops (wOps a')" by (rule cleanAbove_index_ops [OF cl])
  then show ?thesis using f by (simp add: finishCursor_def)
qed

lemma install_changed:
  assumes "ascending bs" and "bs \<noteq> []" and "install bs c h \<noteq> c h"
  shows "BlockNumber (hd bs) \<le> h"
proof (rule find_number_cases [OF assms(1), of h])
  fix b assume "b \<in> set bs" "BlockNumber b = h"
  then show ?thesis using ascending_hd_le [OF assms(1)] by blast
next
  assume "find (\<lambda>b. BlockNumber b = h) bs = None"
  then have "BlockNumber (last bs) < h" using assms(3) by (simp add: install_def run_above_def split: if_splits)
  moreover have "BlockNumber (hd bs) \<le> BlockNumber (last bs)"
    using ascending_hd_le [OF assms(1)] assms(2) by simp
  ultimately show ?thesis by simp
qed

text \<open>
  A section that may change the canonical index: what it changes is no longer covered, and a batch
  in flight is fenced off from every mapping that was there and changed.
\<close>

definition writes :: "ext \<Rightarrow> Checker \<Rightarrow> Checker \<Rightarrow> bool" where
  "writes x c c' = (config c' = config c \<and> index_ok (store c') \<and> durable x c' \<and>
     fence_le (forkBatch c) (forkBatch c') \<and> (forkState c \<noteq> None \<longrightarrow> forkState c' \<noteq> None) \<and>
     (\<forall>h. covered (forkState c') h \<longrightarrow> covered (forkState c) h \<and> canon (store c') h = canon (store c) h) \<and>
     (\<forall>h b. forkState c \<noteq> None \<and> forkBatch c' = Some b \<and> canon (store c) h \<noteq> None \<and>
        canon (store c') h \<noteq> canon (store c) h \<longrightarrow> stale b h))"

lemma writes_no_change:
  assumes "keeps x c c'" and "durable x c" and "index_ok (store c)"
  shows "writes x c c'"
  using assms by (simp add: writes_def keeps_def)

lemma kv_same_keeps:
  assumes "kv (db d) = kv (store c)"
  shows "keeps x c (c\<lparr>cdb := d\<rparr>)"
proof -
  have "durable x c \<Longrightarrow> durable x (c\<lparr>cdb := d\<rparr>)"
    using assms by (simp add: durable_def cursorKey_def stored_def split: option.splits)
  moreover have "canon (db d) = canon (store c)" "index_ok (store c) \<Longrightarrow> index_ok (db d)"
    using assms by (simp_all add: canon_def index_ok_def fun_eq_iff)
  ultimately show ?thesis by (simp add: keeps_def)
qed

lemma write_with_cursor:
  assumes W: "WriteBlockInfosWithForkScan x (cdb c) bs vs (ChainID (config c)) (Version (config c)) (Some s) = (Inr next, d)"
    and st: "forkState c = Some s" and asc: "ascending bs" and ok: "index_ok (store c)" and dur: "durable x c"
    and c': "c' = (if Generation (the next) \<noteq> Generation s
          then rewindForkScan (BlockNumber (hd bs)) (Generation (the next)) (c\<lparr>cdb := d\<rparr>) else c\<lparr>cdb := d\<rparr>)\<lparr>forkState := next\<rparr>"
  shows "writes x c c'"
proof -
  let ?k = "ChainID (config c)" and ?v = "Version (config c)"
  obtain ops where b: "buildWrite x (store c) bs vs ?k ?v (Some s) = Inr (next, ops)"
    and k: "Commit (store c) ops = (Inr (), db d)"
    using W by (rule Write_ok_cases)
  have ne: "bs \<noteq> []" using b by (rule buildWrite_cases)
  have val: "validate s = Inr ()" using dur st by (simp add: durable_def stored_def)
  have can: "canon (db d) = install bs (canon (store c))" and iok: "index_ok (db d)"
    using write_refines [OF W asc ok] by simp_all
  obtain s' where s': "next = Some s'" "NextHeight s' \<le> NextHeight s" "Baseline s' = Baseline s"
    using b by (rule buildWrite_cursor [where m = Map.empty]) auto
  note cov = write_cursor_covers_changes [OF W asc ok val can, unfolded s' option.sel]
  have store': "store c' = db d" "config c' = config c" "forkState c' = Some s'"
    by (simp_all add: c' rewindForkScan_def s')
  have fen: "fence_le (forkBatch c) (forkBatch c')" by (simp add: c' rewindForkScan_def)
  have dur': "durable x c'"
  proof -
    note B = buildWrite_stored [OF b [unfolded s'], of "kv (store c)"]
    have "stored x ?k ?v (db d) s'" using B pebble_kv.commit_ok [OF k] by (simp add: stored_def)
    moreover have "storable s'" using B durable_storable [OF dur st] by simp
    ultimately show ?thesis by (simp add: durable_def store')
  qed
  have fenced: "stale b' h"
    if "forkBatch c' = Some b'" "canon (store c) h \<noteq> None" "canon (db d) h \<noteq> canon (store c) h" for b' h
  proof -
    have "Generation s' \<noteq> Generation s" using cov(2) [OF that(3,2)] by auto
    then have "forkBatch c' = map_option (lowerFence (BlockNumber (hd bs))) (forkBatch c)"
      by (simp add: c' s' rewindForkScan_def)
    moreover have "BlockNumber (hd bs) \<le> h" using install_changed [OF asc ne] that(3) can by metis
    ultimately show ?thesis using that(1) by (cases "forkBatch c") auto
  qed
  have "covered (forkState c) h \<and> canon (db d) h = canon (store c) h" if "covered (Some s') h" for h
  proof
    have lt: "h < NextHeight s'" "anchorHeight (Baseline s) < h" using that s'(3) by (simp_all add: covered_def)
    then show "covered (forkState c) h" using s'(2) st by (simp add: covered_def)
    show "canon (db d) h = canon (store c) h" using cov(1) [of h] lt(1) by force
  qed
  then show ?thesis using iok dur' fen fenced by (simp add: writes_def store')
qed

lemma writeBlockInfoToDB_writes:
  assumes "writeBlockInfoToDB x bs pfs c = (r, c')" and "ascending bs" and "index_ok (store c)" and "durable x c"
    and "ContinuousForkScan (config c)"
  shows "writes x c c'"
proof (cases "prefetchedHashes pfs")
  case None
  then show ?thesis
    using assms(1) writes_no_change [OF keeps_refl assms(4,3)] by (simp add: writeBlockInfoToDB_def)
next
  case (Some vs)
  let ?W = "WriteBlockInfosWithForkScan x (cdb c) bs vs"
  have failed: "writes x c (c\<lparr>cdb := d\<rparr>)" if "?W k v st = (Inl e, d)" for k v st e d
    using writes_no_change [OF kv_same_keeps [OF write_failed [OF that]] assms(4,3)] .
  show ?thesis
  proof (cases "forkState c")
    case None
    obtain q d where q: "?W 0 [] None = (q, d)" by (cases "?W 0 [] None")
    have c': "c' = c\<lparr>cdb := d\<rparr>"
      using assms(1,5) Some None q by (cases q) (auto simp: writeBlockInfoToDB_def WriteBlockInfos_def)
    show ?thesis
    proof (cases q)
      case (Inl e)
      then show ?thesis using failed q c' by blast
    next
      case (Inr nx)
      then have W: "?W 0 [] None = (Inr nx, d)" using q by simp
      obtain ops where b: "buildWrite x (store c) bs vs 0 [] None = Inr (nx, ops)"
        and k: "Commit (store c) ops = (Inr (), db d)"
        using W by (rule Write_ok_cases)
      have "kv (db d) (cursorKey c) = kv (store c) (cursorKey c)"
        using pebble_kv.commit_ok [OF k] write_without_cursor [OF b] index_ops_other by (simp add: cursorKey_def)
      then have "durable x c'" using assms(4) None by (simp add: durable_def c' cursorKey_def)
      moreover have "index_ok (db d)" using write_refines [OF W assms(2,3)] by simp
      ultimately show ?thesis using None by (simp add: writes_def c' covered_def)
    qed
  next
    case (Some s)
    let ?k = "ChainID (config c)" and ?v = "Version (config c)"
    obtain q d where q: "?W ?k ?v (Some s) = (q, d)" by (cases "?W ?k ?v (Some s)")
    show ?thesis
    proof (cases q)
      case (Inl e)
      then have "c' = c\<lparr>cdb := d\<rparr>"
        using assms(1,5) \<open>prefetchedHashes pfs = Some vs\<close> Some q by (simp add: writeBlockInfoToDB_def)
      then show ?thesis using failed [of ?k ?v "Some s"] q Inl by blast
    next
      case (Inr nx)
      then have "c' = (if Generation (the nx) \<noteq> Generation s
          then rewindForkScan (BlockNumber (hd bs)) (Generation (the nx)) (c\<lparr>cdb := d\<rparr>) else c\<lparr>cdb := d\<rparr>)\<lparr>forkState := nx\<rparr>"
        using assms(1,5) \<open>prefetchedHashes pfs = Some vs\<close> Some q by (simp add: writeBlockInfoToDB_def)
      with q [unfolded Inr] Some assms(2-4) show ?thesis by (rule write_with_cursor)
    qed
  qed
qed

section \<open>The interleaving\<close>

text \<open>
  The worker is idle, between two heights of a batch (with the heights checked so far), or scanning
  a height: it has read the canonical hash and the plan and has some PUTs left.
\<close>

datatype worker =
    Idle
  | Running forkScanBatch "(u64 \<times> hash) list"
  | Scanning forkScanBatch "(u64 \<times> hash) list" u64 hash "forkRewrite list"

text \<open>
  \<open>stamp h\<close> counts the changes of the canonical mapping at \<open>h\<close>; \<open>readAt h\<close> is the count when the worker
  last read the canonical hash of \<open>h\<close>, and \<open>scannedAt h\<close> the count for which a scan of \<open>h\<close> completed.
\<close>

record system =
  chkr :: Checker
  wrk :: worker
  outside :: world
  stamp :: "u64 \<Rightarrow> nat"
  readAt :: "u64 \<Rightarrow> nat"
  scannedAt :: "u64 \<Rightarrow> nat option"

definition bump :: "Checker \<Rightarrow> Checker \<Rightarrow> (u64 \<Rightarrow> nat) \<Rightarrow> u64 \<Rightarrow> nat" where
  "bump c c' st h = (if canon (store c') h \<noteq> canon (store c) h then Suc (st h) else st h)"

definition nextOf :: "forkScanBatch \<Rightarrow> (u64 \<times> hash) list \<Rightarrow> u64" where
  "nextOf b checked = bStart b + of_nat (length checked)"

text \<open>What the main flow does besides: everything that leaves the store, the cursor and the batch alone.\<close>

definition scan_untouched :: "Checker \<Rightarrow> Checker \<Rightarrow> bool" where
  "scan_untouched c c' = (config c' = config c \<and> cdb c' = cdb c \<and> forkState c' = forkState c \<and> forkBatch c' = forkBatch c)"

inductive scan_step :: "ext \<Rightarrow> svc \<Rightarrow> system \<Rightarrow> system \<Rightarrow> bool" for x v where
  canonical: "writeBlockInfoToDB x bs pfs (chkr s) = (r, c') \<Longrightarrow> ascending bs \<Longrightarrow>
    scan_step x v s (s\<lparr> chkr := c', stamp := bump (chkr s) c' (stamp s) \<rparr>)"
| bookkeeping: "scan_untouched (chkr s) c' \<Longrightarrow> scan_step x v s (s\<lparr> chkr := c' \<rparr>)"
| checkpoint: "finishForkScan x pos (chkr s) = (r, c') \<Longrightarrow> position_ok pos \<Longrightarrow> scan_step x v s (s\<lparr> chkr := c' \<rparr>)"
| recover: "prepareForkScan x notice pos (chkr s) = (r, c') \<Longrightarrow> scan_step x v s (s\<lparr> chkr := c' \<rparr>)"
| observe: "observeForkScan t (chkr s) = (r, c') \<Longrightarrow> scan_step x v s (s\<lparr> chkr := c' \<rparr>)"
| start: "wrk s = Idle \<Longrightarrow> beginForkScanBatch upper generation (chkr s) = (Inr b, c') \<Longrightarrow>
    scan_step x v s (s\<lparr> chkr := c', wrk := Running b [] \<rparr>)"
| plan: "wrk s = Running b checked \<Longrightarrow> h = nextOf b checked \<Longrightarrow> h \<le> bUpper b \<Longrightarrow> h \<noteq> MaxUint64 \<Longrightarrow>
    \<not> stale (deref (chkr s) b) h \<Longrightarrow> readScanCanonical (store (chkr s)) h = Inr k \<Longrightarrow>
    planForkRewritesCtx x v (config (chkr s)) ctx (scanBlock h k) None (outside s) = (Inr rws, w') \<Longrightarrow>
    scan_step x v s (s\<lparr> wrk := Scanning b checked h k rws, outside := w', readAt := (readAt s)(h := stamp s h) \<rparr>)"
| put: "wrk s = Scanning b checked h k (rw # rws) \<Longrightarrow> verifyForkScanBatchHeight (chkr s) b h k = None \<Longrightarrow>
    rewriteValidationAtKeyCtx v ctx (rwKey rw) (rwValidation rw) (outside s) = (Inr u, w') \<Longrightarrow>
    scan_step x v s (s\<lparr> wrk := Scanning b checked h k rws, outside := w' \<rparr>)"
| checked: "wrk s = Scanning b checked h k [] \<Longrightarrow>
    scan_step x v s (s\<lparr> wrk := Running b (checked @ [(h, k)]), scannedAt := (scannedAt s)(h := Some (readAt s h)) \<rparr>)"
| stop: "wrk s = Running b checked \<or> (\<exists>h k rws. wrk s = Scanning b checked h k rws) \<Longrightarrow>
    finishForkScanBatch x ctxErr b checked (chkr s) = (r, c') \<Longrightarrow>
    scan_step x v s (s\<lparr> chkr := c', wrk := Idle \<rparr>)"
| elsewhere: "scan_step x v s (s\<lparr> outside := w' \<rparr>)"
| restart: "config c0 = config (chkr s) \<Longrightarrow> store c0 = store (chkr s) \<Longrightarrow> forkBatch c0 = None \<Longrightarrow>
    loadForkScan x c0 = Inr c' \<Longrightarrow> scan_step x v s (s\<lparr> chkr := c', wrk := Idle \<rparr>)"

inductive_cases scan_stepE: "scan_step x v s t"

text \<open>The process starts with a readable store that has no cursor for its scope yet.\<close>

definition scan_init :: "ext \<Rightarrow> system \<Rightarrow> bool" where
  "scan_init x s = (wrk s = Idle \<and> forkState (chkr s) = None \<and> durable x (chkr s) \<and>
     index_ok (store (chkr s)) \<and> ContinuousForkScan (config (chkr s)))"

section \<open>The invariant\<close>

text \<open>
  A height the worker has read: either it is unchanged since and its canonical hash is the one read,
  or the fence of the active batch is at or below it.
\<close>

definition fresh :: "system \<Rightarrow> forkScanBatch \<Rightarrow> u64 \<times> hash \<Rightarrow> bool" where
  "fresh s b e = (case e of (h, k) \<Rightarrow>
     (stamp s h = readAt s h \<and> canon (store (chkr s)) h = Some k) \<or> stale b h)"

fun consecutive :: "u64 \<Rightarrow> (u64 \<times> hash) list \<Rightarrow> bool" where
  "consecutive a [] = True"
| "consecutive a ((h, k) # l) = (h = a \<and> a \<noteq> MaxUint64 \<and> consecutive (a + 1) l)"

definition batch_inv :: "system \<Rightarrow> forkScanBatch \<Rightarrow> (u64 \<times> hash) list \<Rightarrow> bool" where
  "batch_inv s b checked =
     (\<exists>b'. forkBatch (chkr s) = Some b' \<and> bId b' = bId b \<and> bStart b' = bStart b \<and> bUpper b' = bUpper b \<and>
        forkState (chkr s) \<noteq> None \<and> consecutive (bStart b) checked \<and>
        (\<forall>e \<in> set checked. fresh s b' e \<and> scannedAt s (fst e) = Some (readAt s (fst e))) \<and>
        (\<forall>h. covered (forkState (chkr s)) h \<longrightarrow> h < bStart b))"

definition worker_inv :: "system \<Rightarrow> bool" where
  "worker_inv s = (case wrk s of
     Idle \<Rightarrow> True
   | Running b checked \<Rightarrow> batch_inv s b checked
   | Scanning b checked h k rws \<Rightarrow> batch_inv s b checked \<and> h = nextOf b checked \<and> h \<noteq> MaxUint64 \<and>
       bStart b \<le> h \<and> h \<notin> fst ` set checked \<and>
       fresh s (the (forkBatch (chkr s))) (h, k))"

definition scan_inv :: "ext \<Rightarrow> system \<Rightarrow> bool" where
  "scan_inv x s = (durable x (chkr s) \<and> index_ok (store (chkr s)) \<and> ContinuousForkScan (config (chkr s)) \<and>
     (\<forall>h. covered (forkState (chkr s)) h \<longrightarrow> scannedAt s h = Some (stamp s h)) \<and> worker_inv s)"

section \<open>The invariant is kept\<close>

lemma bump_same [simp]: "canon (store c') = canon (store c) \<Longrightarrow> bump c c' st = st"
  by (simp add: bump_def fun_eq_iff)

text \<open>Every section of the main flow, and the observation of the worker.\<close>

lemma fresh_writes:
  assumes "fresh s b e" and "writes x (chkr s) c'" and "forkState (chkr s) \<noteq> None"
    and "forkBatch c' = Some b'" and "\<And>h. stale b h \<Longrightarrow> stale b' h"
  shows "fresh (s\<lparr> chkr := c', stamp := bump (chkr s) c' (stamp s) \<rparr>) b' e"
proof -
  obtain h k where e: "e = (h, k)" by (cases e)
  show ?thesis
  proof (cases "stale b' h")
    case True
    then show ?thesis by (simp add: fresh_def e)
  next
    case False
    then have f: "stamp s h = readAt s h" "canon (store (chkr s)) h = Some k"
      using assms(1,5) by (auto simp: fresh_def e)
    then have "canon (store c') h = canon (store (chkr s)) h"
      using assms(2-4) False unfolding writes_def by blast
    then show ?thesis using f by (simp add: fresh_def e bump_def)
  qed
qed

lemma batch_inv_writes:
  assumes "batch_inv s b checked" and "writes x (chkr s) c'"
  shows "batch_inv (s\<lparr> chkr := c', stamp := bump (chkr s) c' (stamp s) \<rparr>) b checked"
proof -
  let ?s' = "s\<lparr> chkr := c', stamp := bump (chkr s) c' (stamp s) \<rparr>"
  obtain b1 where b1: "forkBatch (chkr s) = Some b1" "bId b1 = bId b" "bStart b1 = bStart b" "bUpper b1 = bUpper b"
    "forkState (chkr s) \<noteq> None" "consecutive (bStart b) checked"
    "\<And>e. e \<in> set checked \<Longrightarrow> fresh s b1 e \<and> scannedAt s (fst e) = Some (readAt s (fst e))"
    "\<And>h. covered (forkState (chkr s)) h \<Longrightarrow> h < bStart b"
    using assms(1) by (auto simp: batch_inv_def)
  obtain b2 where b2: "forkBatch c' = Some b2" "bId b2 = bId b1" "bStart b2 = bStart b1" "bUpper b2 = bUpper b1"
    "\<And>h. stale b1 h \<Longrightarrow> stale b2 h"
    using assms(2) b1(1) unfolding writes_def fence_le_def by (cases "forkBatch c'") auto
  have "fresh ?s' b2 e" if "e \<in> set checked" for e
    using fresh_writes [OF _ assms(2) b1(5) b2(1,5)] b1(7) [OF that] by blast
  moreover have "forkState c' \<noteq> None" "\<And>h. covered (forkState c') h \<Longrightarrow> h < bStart b"
    using assms(2) b1(5,8) unfolding writes_def by blast+
  ultimately show ?thesis
    using b1 b2 unfolding batch_inv_def by (intro exI [of _ b2]) auto
qed

lemma writes_inv:
  assumes "scan_inv x s" and "writes x (chkr s) c'"
  shows "scan_inv x (s\<lparr> chkr := c', stamp := bump (chkr s) c' (stamp s) \<rparr>)"
proof -
  let ?s' = "s\<lparr> chkr := c', stamp := bump (chkr s) c' (stamp s) \<rparr>"
  have "scannedAt s h = Some (bump (chkr s) c' (stamp s) h)" if "covered (forkState c') h" for h
  proof -
    have "covered (forkState (chkr s)) h" and eq: "canon (store c') h = canon (store (chkr s)) h"
      using assms(2) that by (simp_all add: writes_def)
    then have "scannedAt s h = Some (stamp s h)" using assms(1) by (simp add: scan_inv_def)
    then show ?thesis using eq by (simp add: bump_def)
  qed
  moreover have "worker_inv ?s'"
  proof (cases "wrk s")
    case Idle
    then show ?thesis by (simp add: worker_inv_def)
  next
    case (Running b checked)
    then show ?thesis using assms batch_inv_writes by (simp add: worker_inv_def scan_inv_def)
  next
    case (Scanning b checked h k rws)
    have "worker_inv s" using assms(1) by (simp add: scan_inv_def)
    then have w: "batch_inv s b checked" "h = nextOf b checked" "h \<noteq> MaxUint64" "bStart b \<le> h"
      "h \<notin> fst ` set checked" "fresh s (the (forkBatch (chkr s))) (h, k)"
      unfolding worker_inv_def Scanning worker.case by blast+
    obtain b1 where b1: "forkBatch (chkr s) = Some b1" "forkState (chkr s) \<noteq> None"
      using w(1) by (auto simp: batch_inv_def)
    obtain b2 where b2: "forkBatch c' = Some b2" "\<And>h. stale b1 h \<Longrightarrow> stale b2 h"
      using assms(2) b1(1) unfolding writes_def fence_le_def by (cases "forkBatch c'") auto
    have "fresh s b1 (h, k)" using w(6) b1(1) by simp
    from fresh_writes [OF this assms(2) b1(2) b2] have "fresh ?s' (the (forkBatch c')) (h, k)"
      by (simp add: b2(1))
    then show ?thesis
      using Scanning w batch_inv_writes [OF w(1) assms(2)] by (simp add: worker_inv_def)
  qed
  ultimately show ?thesis using assms by (simp add: scan_inv_def writes_def)
qed

lemma keeps_inv:
  assumes "scan_inv x s" and "keeps x (chkr s) c'"
  shows "scan_inv x (s\<lparr> chkr := c' \<rparr>)"
proof -
  have "writes x (chkr s) c'" using assms writes_no_change by (simp add: scan_inv_def)
  from writes_inv [OF assms(1) this] show ?thesis
    using assms(2) by (simp add: keeps_def)
qed

text \<open>The worker's own steps.\<close>

lemma consecutive_unat: "consecutive a l \<Longrightarrow> unat (a + of_nat (length l)) = unat a + length l"
proof (induction a l rule: consecutive.induct)
  case (2 a h k l)
  then show ?case by (simp add: add.assoc [symmetric] u64_Suc)
qed simp

lemma consecutive_bounds:
  assumes "consecutive a l"
  shows "a \<le> a + of_nat (length l)" and "(h, k) \<in> set l \<Longrightarrow> a \<le> h \<and> h < a + of_nat (length l)"
proof -
  show "a \<le> a + of_nat (length l)" using consecutive_unat [OF assms] by (simp add: word_le_nat_alt)
  show "a \<le> h \<and> h < a + of_nat (length l)" if "(h, k) \<in> set l"
    using assms that
  proof (induction a l rule: consecutive.induct)
    case (2 a g j l)
    then have c: "consecutive (a + 1) l" and nm: "a \<noteq> MaxUint64" and g: "g = a" by auto
    have u: "unat (a + of_nat (length ((g, j) # l))) = unat a + Suc (length l)"
      using consecutive_unat [OF "2.prems"(1)] by simp
    show ?case
    proof (cases "(h, k) \<in> set l")
      case True
      then have i: "a + 1 \<le> h" "h < a + 1 + of_nat (length l)" using "2.IH" c by auto
      then have "a \<le> h" using nm by (simp add: u64_Suc_le_iff)
      with i show ?thesis by (simp add: add.assoc [symmetric])
    next
      case False
      then have "h = a" using "2.prems"(2) g by auto
      then show ?thesis using u by (simp add: word_less_nat_alt)
    qed
  qed simp
qed

lemma consecutive_snoc:
  "consecutive a l \<Longrightarrow> a + of_nat (length l) \<noteq> MaxUint64 \<Longrightarrow> consecutive a (l @ [(a + of_nat (length l), k)])"
proof (induction a l rule: consecutive.induct)
  case (2 a h j l)
  then show ?case by (simp add: add.assoc [symmetric])
qed simp

lemma verify_ok:
  assumes "verifyForkScanBatchHeight c b h k = None"
  obtains s b' where "forkState c = Some s" "forkBatch c = Some b'" "bId b' = bId b"
    "NextHeight s = bStart b'" "\<not> stale b' h" "canon (store c) h = Some k" "h \<le> anchorHeight (Published s)"
proof -
  obtain s where s: "forkState c = Some s"
    using assms by (auto simp: verifyForkScanBatchHeight_def Let_def split: option.splits)
  obtain b' where b': "forkBatch c = Some b'" "bId b' = bId (deref c b)"
    using assms s by (auto simp: verifyForkScanBatchHeight_def Let_def split: option.splits if_splits)
  have "bId (deref c b) = bId b" by (simp add: deref_def split: option.splits)
  with b' have id: "bId b' = bId b" "deref c b = b'" by (simp_all add: deref_def)
  obtain cur where r: "readScanCanonical (store c) h = Inr cur" and k: "cur = k"
    and e: "NextHeight s = bStart b'" "\<not> stale b' h" "h \<le> anchorHeight (Published s)"
    using assms s id by (auto simp: verifyForkScanBatchHeight_def Let_def split: option.splits if_splits sum.splits)
  have "canon (store c) h = Some k"
    using r k GetCanonicalHashByNum_canon [of "store c" h]
    by (auto simp: readScanCanonical_def split: sum.splits option.splits)
  with s b' id e that show thesis by blast
qed

lemma verifiedPrefix_ok:
  assumes "consecutive a checked" and "verifiedPrefix c b checked a = (m, e)"
  shows "a \<le> m" and "a \<le> h \<Longrightarrow> h < m \<Longrightarrow> \<exists>k. (h, k) \<in> set checked \<and> verifyForkScanBatchHeight c b h k = None"
proof -
  have "a \<le> m \<and> (\<forall>h. a \<le> h \<and> h < m \<longrightarrow> (\<exists>k. (h, k) \<in> set checked \<and> verifyForkScanBatchHeight c b h k = None))"
    using assms
  proof (induction a checked rule: consecutive.induct)
    case (1 a)
    then show ?case by auto
  next
    case (2 a g j l)
    then have c: "consecutive (a + 1) l" and nm: "a \<noteq> MaxUint64" and g: "g = a" by auto
    show ?case
    proof (cases "verifyForkScanBatchHeight c b a j")
      case None
      then have "verifiedPrefix c b l (a + 1) = (m, e)" using "2.prems"(2) g by simp
      note IH = "2.IH" [OF c this]
      then have "a < m" using u64_Suc_le_iff [OF nm] by blast
      then have "a \<le> m" by simp
      moreover have "\<exists>k. (h, k) \<in> set ((g, j) # l) \<and> verifyForkScanBatchHeight c b h k = None"
        if h: "a \<le> h" "h < m" for h
      proof (cases "h = a")
        case True
        then show ?thesis using None g by auto
      next
        case False
        then have "a + 1 \<le> h" using h(1) nm by (simp add: u64_Suc_le_iff)
        then show ?thesis using IH h(2) by auto
      qed
      ultimately show ?thesis by blast
    next
      case (Some z)
      then show ?thesis using "2.prems"(2) g by auto
    qed
  qed
  then show "a \<le> m" and "a \<le> h \<Longrightarrow> h < m \<Longrightarrow> \<exists>k. (h, k) \<in> set checked \<and> verifyForkScanBatchHeight c b h k = None"
    by blast+
qed

lemma outside_irrelevant [simp]:
  "fresh (s\<lparr> wrk := k \<rparr>) b e = fresh s b e" "fresh (s\<lparr> outside := w \<rparr>) b e = fresh s b e"
  "batch_inv (s\<lparr> wrk := k \<rparr>) b checked = batch_inv s b checked"
  "batch_inv (s\<lparr> outside := w \<rparr>) b checked = batch_inv s b checked"
  by (simp_all add: fresh_def batch_inv_def)

lemma begin_inv:
  assumes "scan_inv x s" and "beginForkScanBatch upper generation (chkr s) = (Inr b, c')"
  shows "scan_inv x (s\<lparr> chkr := c', wrk := Running b [] \<rparr>)"
proof -
  obtain st where st: "forkState (chkr s) = Some st" "bStart b = NextHeight st"
    and c': "c' = (chkr s)\<lparr> forkBatch := Some b, batches := Suc (batches (chkr s)) \<rparr>"
    using assms(2) by (auto simp: beginForkScanBatch_def Let_def split: option.splits if_splits)
  have d: "durable x c' = durable x (chkr s)"
    by (simp add: durable_def cursorKey_def c' split: option.splits)
  have "batch_inv (s\<lparr> chkr := c', wrk := Running b [] \<rparr>) b []"
    using st by (simp add: batch_inv_def c' covered_def)
  then show ?thesis using assms(1) d by (simp add: scan_inv_def worker_inv_def c')
qed

lemma plan_inv:
  assumes "scan_inv x s" and w: "wrk s = Running b checked" and h: "h = nextOf b checked" "h \<noteq> MaxUint64"
    and r: "readScanCanonical (store (chkr s)) h = Inr k"
  shows "scan_inv x (s\<lparr> wrk := Scanning b checked h k rws, outside := w', readAt := (readAt s)(h := stamp s h) \<rparr>)"
proof -
  let ?s' = "s\<lparr> wrk := Scanning b checked h k rws, outside := w', readAt := (readAt s)(h := stamp s h) \<rparr>"
  have B: "batch_inv s b checked" using assms(1) w by (simp add: scan_inv_def worker_inv_def)
  then have con: "consecutive (bStart b) checked" by (auto simp: batch_inv_def)
  have new: "h \<notin> fst ` set checked"
    using consecutive_bounds(2) [OF con] h(1) by (force simp: nextOf_def)
  have ge: "bStart b \<le> h" using consecutive_bounds(1) [OF con] h(1) by (simp add: nextOf_def)
  have "canon (store (chkr s)) h = Some k"
    using r GetCanonicalHashByNum_canon [of "store (chkr s)" h]
    by (auto simp: readScanCanonical_def split: sum.splits option.splits)
  then have f: "fresh ?s' (the (forkBatch (chkr s))) (h, k)" by (simp add: fresh_def)
  have "fresh ?s' b' e \<longleftrightarrow> fresh s b' e" if "e \<in> set checked" for b' e
  proof -
    obtain g j where e: "e = (g, j)" by (cases e)
    then have "g \<noteq> h" using that new by force
    then show ?thesis by (simp add: fresh_def e)
  qed
  moreover have "((readAt s)(h := stamp s h)) (fst e) = readAt s (fst e)" if "e \<in> set checked" for e
    using that new by auto
  ultimately have "batch_inv ?s' b checked" using B by (simp add: batch_inv_def)
  then show ?thesis using assms(1) f new ge h by (simp add: scan_inv_def worker_inv_def)
qed

lemma checked_inv:
  assumes "scan_inv x s" and w: "wrk s = Scanning b checked h k []"
  shows "scan_inv x (s\<lparr> wrk := Running b (checked @ [(h, k)]), scannedAt := (scannedAt s)(h := Some (readAt s h)) \<rparr>)"
proof -
  let ?s' = "s\<lparr> wrk := Running b (checked @ [(h, k)]), scannedAt := (scannedAt s)(h := Some (readAt s h)) \<rparr>"
  have "worker_inv s" using assms(1) by (simp add: scan_inv_def)
  then have B: "batch_inv s b checked" and h: "h = nextOf b checked" "h \<noteq> MaxUint64" "bStart b \<le> h"
    "h \<notin> fst ` set checked" and f: "fresh s (the (forkBatch (chkr s))) (h, k)"
    unfolding worker_inv_def w worker.case by blast+
  obtain b1 where b1: "forkBatch (chkr s) = Some b1" "bId b1 = bId b" "bStart b1 = bStart b" "bUpper b1 = bUpper b"
    "forkState (chkr s) \<noteq> None" "consecutive (bStart b) checked"
    "\<And>e. e \<in> set checked \<Longrightarrow> fresh s b1 e \<and> scannedAt s (fst e) = Some (readAt s (fst e))"
    "\<And>h. covered (forkState (chkr s)) h \<Longrightarrow> h < bStart b"
    using B by (auto simp: batch_inv_def)
  have con: "consecutive (bStart b) (checked @ [(h, k)])"
    using consecutive_snoc [OF b1(6)] h(1,2) by (simp add: nextOf_def)
  have f': "fresh ?s' b' e = fresh s b' e" for b' e by (simp add: fresh_def)
  have "batch_inv ?s' b (checked @ [(h, k)])"
    using b1(1-5,7,8) con f h(4) unfolding batch_inv_def f' by (intro exI [of _ b1]) (auto simp: b1(1))
  moreover have "scannedAt ?s' g = Some (stamp s g)" if "covered (forkState (chkr s)) g" for g
    using assms(1) that b1(8) [OF that] h(3) by (auto simp: scan_inv_def)
  ultimately show ?thesis using assms(1) by (simp add: scan_inv_def worker_inv_def)
qed

text \<open>A finished batch covers only heights that are unchanged since they were scanned.\<close>

lemma stop_covers:
  assumes B: "batch_inv s b checked" and inv: "scan_inv x s"
    and p: "verifiedPrefix (chkr s) b checked (bStart b) = (m, e)" and m: "m > bStart b"
    and st: "forkState (chkr s) = Some st" and h: "covered (Some (st\<lparr>NextHeight := m\<rparr>)) h"
  shows "scannedAt s h = Some (stamp s h)"
proof -
  obtain b1 where b1: "forkBatch (chkr s) = Some b1" "bStart b1 = bStart b" "consecutive (bStart b) checked"
    "\<And>e. e \<in> set checked \<Longrightarrow> fresh s b1 e \<and> scannedAt s (fst e) = Some (readAt s (fst e))"
    using B by (auto simp: batch_inv_def)
  note P = verifiedPrefix_ok [OF b1(3) p]
  obtain k0 where "verifyForkScanBatchHeight (chkr s) b (bStart b) k0 = None" using P(2) [of "bStart b"] m by auto
  then have next_height: "NextHeight st = bStart b" by (rule verify_ok) (use b1 st in auto)
  show ?thesis
  proof (cases "h < bStart b")
    case True
    then have "covered (forkState (chkr s)) h" using h st next_height by (simp add: covered_def)
    then show ?thesis using inv by (simp add: scan_inv_def)
  next
    case False
    then have "bStart b \<le> h" by simp
    then obtain k where k: "(h, k) \<in> set checked" "verifyForkScanBatchHeight (chkr s) b h k = None"
      using P(2) [of h] h by (auto simp: covered_def)
    have "\<not> stale b1 h" using k(2) by (rule verify_ok) (use b1 in auto)
    then show ?thesis using b1(4) [OF k(1)] by (simp add: fresh_def)
  qed
qed

lemma stop_inv:
  assumes inv: "scan_inv x s"
    and w: "wrk s = Running b checked \<or> (\<exists>h k rws. wrk s = Scanning b checked h k rws)"
    and fin: "finishForkScanBatch x ctxErr b checked (chkr s) = (r, c')"
  shows "scan_inv x (s\<lparr> chkr := c', wrk := Idle \<rparr>)"
proof -
  have B: "batch_inv s b checked"
    using inv w by (auto simp: scan_inv_def worker_inv_def)
  obtain st where st: "forkState (chkr s) = Some st" using B by (auto simp: batch_inv_def)
  have same: ?thesis if "c' = (chkr s)\<lparr>forkBatch := None\<rparr>"
  proof -
    have "durable x c' = durable x (chkr s)"
      by (simp add: durable_def cursorKey_def that split: option.splits)
    then show ?thesis using inv by (simp add: scan_inv_def worker_inv_def that)
  qed
  show ?thesis
  proof (cases ctxErr)
    case (Some e)
    then show ?thesis using same fin by (simp add: finishForkScanBatch_def)
  next
    case None
    obtain m e where p: "verifiedPrefix (chkr s) b checked (bStart b) = (m, e)"
      by (cases "verifiedPrefix (chkr s) b checked (bStart b)")
    show ?thesis
    proof (cases "m > bStart b")
      case False
      then show ?thesis using same fin None p by (simp add: finishForkScanBatch_def)
    next
      case True
      let ?st = "st\<lparr>NextHeight := m\<rparr>"
      obtain q c1 where q: "saveForkScan x ?st (chkr s) = (q, c1)" by (cases "saveForkScan x ?st (chkr s)")
      have c': "c' = c1\<lparr>forkBatch := None\<rparr>"
        using fin None p True q st by (auto simp: finishForkScanBatch_def split: sum.splits)
      have d: "durable x (chkr s)" using inv by (simp add: scan_inv_def)
      have "storable ?st" using durable_storable [OF d st] by (simp add: storable_def)
      note S = saveForkScan_store [OF q this]
      have "durable x c' = durable x c1" by (simp add: durable_def cursorKey_def c' split: option.splits)
      moreover have "scannedAt s h = Some (stamp s h)" if "covered (forkState c1) h" for h
        using S(6) that stop_covers [OF B inv p True st] inv by (auto simp: scan_inv_def)
      ultimately show ?thesis
        using S inv by (simp add: scan_inv_def worker_inv_def c')
    qed
  qed
qed

context ext_codecs
begin

lemma restart_inv:
  assumes inv: "scan_inv x s" and "config c0 = config (chkr s)" and "store c0 = store (chkr s)"
    and "loadForkScan x c0 = Inr c'"
  shows "scan_inv x (s\<lparr> chkr := c', wrk := Idle \<rparr>)"
proof -
  let ?k = "ChainID (config (chkr s))" and ?v = "Version (config (chkr s))"
  have cont: "ContinuousForkScan (config c0)" using inv assms(2) by (simp add: scan_inv_def)
  obtain state where l: "LoadForkScan x (store (chkr s)) ?k ?v = Inr state"
    and fs: "forkState c' = state" "config c' = config (chkr s)" "store c' = store (chkr s)"
    using assms(2-4) cont
    by (auto simp: loadForkScan_def recoverOuter_def alignRestored_def split: sum.splits option.splits if_splits)
  have "state = forkState (chkr s)"
  proof (cases "forkState (chkr s)")
    case None
    then show ?thesis
      using inv l by (auto simp: scan_inv_def durable_def cursorKey_def LoadForkScan_def Get_def
          split: if_splits sum.splits option.splits)
  next
    case (Some st)
    then have sd: "stored x ?k ?v (store (chkr s)) st" "storable st"
      using inv by (simp_all add: scan_inv_def durable_def)
    have "\<not> readErr (store (chkr s)) (epoch (store (chkr s))) (forkScanKey ?k ?v)"
      using l by (auto simp: LoadForkScan_def Get_def)
    then show ?thesis
      using durable_cursor.load_durable [OF cursor_contract sd] l Some by simp
  qed
  then have "keeps x (chkr s) ((chkr s)\<lparr>forkState := forkState c'\<rparr>)" by (simp add: fs)
  have "durable x c' = durable x (chkr s)"
    using fs \<open>state = forkState (chkr s)\<close> by (simp add: durable_def cursorKey_def split: option.splits)
  then show ?thesis
    using inv fs \<open>state = forkState (chkr s)\<close> by (simp add: scan_inv_def worker_inv_def)
qed

lemma scan_step_inv:
  assumes inv: "scan_inv x s" and step: "scan_step x v s t"
  shows "scan_inv x t"
proof -
  have d: "durable x (chkr s)" and i: "index_ok (store (chkr s))" and ct: "ContinuousForkScan (config (chkr s))"
    using inv by (simp_all add: scan_inv_def)
  from step show ?thesis
  proof cases
    case canonical
    then show ?thesis
      using writes_inv [OF inv writeBlockInfoToDB_writes [OF canonical(2,3) i d ct]] by simp
  next
    case bookkeeping
    then show ?thesis by (simp add: scan_untouched_def keeps_inv [OF inv] keeps_cong [OF keeps_refl])
  next
    case checkpoint
    then show ?thesis using keeps_inv [OF inv finishForkScan_keeps [OF checkpoint(2,3) d]] by simp
  next
    case recover
    then show ?thesis using keeps_inv [OF inv prepareForkScan_keeps [OF recover(2) d]] by simp
  next
    case observe
    then show ?thesis using keeps_inv [OF inv] observeForkScan_keeps by simp
  next
    case start
    then show ?thesis using begin_inv [OF inv] by simp
  next
    case plan
    then show ?thesis using plan_inv [OF inv] by simp
  next
    case put
    then show ?thesis using inv unfolding scan_inv_def worker_inv_def by clarsimp
  next
    case checked
    then show ?thesis using checked_inv [OF inv] by simp
  next
    case stop
    then show ?thesis using stop_inv [OF inv] by blast
  next
    case elsewhere
    then show ?thesis
      using inv by (cases "wrk s") (simp_all add: scan_inv_def worker_inv_def)
  next
    case restart
    then show ?thesis using restart_inv [OF inv] by blast
  qed
qed

lemma scan_system: "invariant_system (scan_init x) (scan_step x v) (scan_inv x)"
proof
  show "scan_init x s \<Longrightarrow> scan_inv x s" for s
    by (simp add: scan_init_def scan_inv_def covered_def worker_inv_def)
  show "scan_inv x s \<Longrightarrow> scan_step x v s t \<Longrightarrow> scan_inv x t" for s t
    by (rule scan_step_inv)
qed

end

interpretation hexScan: invariant_system "scan_init hexExt" "scan_step hexExt v" "scan_inv hexExt"
  for v
  by (rule hexc.scan_system)

section \<open>A concrete run\<close>

text \<open>
  A store whose canonical block at height 5 is 7; the cursor starts after height 4, height 5 is
  published, scanned and checkpointed.
\<close>

lemma ex_saved:
  assumes "validate st = Inr ()" and "\<not> commitErr (store c) (epoch (store c))"
  shows "saveForkScan hexExt st c = (Inr (), (setStore ((store c)\<lparr>kv := (kv (store c))(cursorKey c \<mapsto> str_bytes (json_print (state_json hexExt st))),
            epoch := Suc (epoch (store c))\<rparr>) c)\<lparr>forkState := Some st\<rparr>)"
  using assms by (simp add: saveForkScan_def SaveForkScan_def setForkScan_def Commit_def cursorKey_def)

text \<open>What the run needs to know of a state: the cursor, the canonical hash at 5 and a working store.\<close>
definition ex_ready :: "Checker \<Rightarrow> bool" where
  "ex_ready c = (config c = exCfg \<and> kv (store c) (NumKey 5) = Some (hash_bytes 7) \<and> (\<forall>t k. \<not> readErr (store c) t k) \<and>
     (\<forall>t. \<not> commitErr (store c) t))"

lemma ex_save_ready:
  assumes "ex_ready c" and "validate st = Inr ()"
  shows "\<exists>c'. saveForkScan hexExt st c = (Inr (), c') \<and> ex_ready c' \<and> forkState c' = Some st \<and>
    forkBatch c' = forkBatch c \<and> forkAligned c' = forkAligned c \<and> latestOuter c' = latestOuter c"
  using assms ex_saved [of st c]
  by (auto simp: ex_ready_def cursorKey_def)

lemma ex_chk: "ex_ready exChk" "forkState exChk = None" "forkBatch exChk = None" "latestOuter exChk = Some (exOuter 4 9)"
  by (simp_all add: ex_ready_def exChk_def emptyPebble_def)

lemma ex_init:
  "\<exists>c. finishForkScan hexExt None exChk = (True, c) \<and> ex_ready c \<and> forkState c = Some exSt \<and> forkBatch c = None"
proof -
  have v: "validate exSt = Inr ()" by (simp add: validate_def exSt_def MaxUint64_def)
  obtain c where c: "saveForkScan hexExt exSt exChk = (Inr (), c)" "ex_ready c" "forkState c = Some exSt" "forkBatch c = None"
    using ex_save_ready [OF ex_chk(1) v] ex_chk by auto
  have "config exChk = exCfg" using ex_chk by (simp add: ex_ready_def)
  then show ?thesis
    using c by (simp add: finishForkScan_def ex_cfg ex_chk exOuter_def initializeForkScan_def outerAnchor_def Let_def exSt_def
        MaxUint64_def rewindForkScan_def ex_ready_def)
qed

lemma ex_publish:
  assumes "ex_ready c" "forkState c = Some exSt" "forkBatch c = None"
  shows "\<exists>c'. finishForkScan hexExt None (c\<lparr>latestOuter := Some (exOuter 5 7)\<rparr>) = (True, c') \<and> ex_ready c' \<and>
    forkState c' = Some exSt1 \<and> forkBatch c' = None \<and> forkAligned c'"
proof -
  let ?c = "c\<lparr>latestOuter := Some (exOuter 5 7)\<rparr>"
  have v: "validate exSt1 = Inr ()" by (simp add: validate_def exSt1_def exSt_def MaxUint64_def)
  have r: "ex_ready ?c" using assms by (simp add: ex_ready_def)
  obtain c' where c: "saveForkScan hexExt exSt1 ?c = (Inr (), c')" "ex_ready c'" "forkState c' = Some exSt1" "forkBatch c' = None"
    using ex_save_ready [OF r v] assms by auto
  have "publishedState (outerAnchor (exOuter 5 7)) None exSt = exSt1"
    by (simp add: publishedState_def outerAnchor_def exOuter_def exSt1_def exSt_def Let_def)
  then show ?thesis
    using c assms by (simp add: finishForkScan_def ex_cfg exOuter_def Let_def ex_ready_def)
qed

definition exSettled :: "(string \<times> bytes) list" where
  "exSettled = [(exKey 7, exBytes False), (exKey 8, exBytes True)]"

lemma ex_empty_plan:
  "\<exists>w'. planForkRewritesCtx hexExt plainSvc exCfg Background (scanBlock 5 7) None (exWorld exSettled) = (Inr [], w')"
proof -
  have hk: "height_keys exCfg 5 exSettled = [exKey 7, exKey 8]" by (simp add: height_keys_def exSettled_def)
  have sv: "stored_validation plainSvc exSettled (exKey 7) = Some (exVal False)"
    "stored_validation plainSvc exSettled (exKey 8) = Some (exVal True)"
    by (simp_all add: stored_validation_def exSettled_def ex_bytes)
  have sb: "BlockNumber (scanBlock 5 7) = 5" "Hash (scanBlock 5 7) = 7" by (simp_all add: scanBlock_def)
  have calm: "calm exSettled 3 (exWorld exSettled)"
    by (simp add: calm_def quiet_def no_uploads_def fate_ok_def exWorld_def)
  have hints: "hintKeys None = []" "hint_current plainSvc exCfg ch exSettled (hintValidation None)" for ch
    by (simp_all add: hintKeys_def hintValidation_def hint_current_def)
  have len: "length (height_keys exCfg (BlockNumber (scanBlock 5 7)) exSettled) < 3"
    and canonical: "hasCanonical exCfg (hashString hexExt (Hash (scanBlock 5 7))) (height_keys exCfg (BlockNumber (scanBlock 5 7)) exSettled)"
    by (simp_all add: sb hk hasCanonical_def)
  have dec: "stored_validation plainSvc exSettled key \<noteq> None"
    if "key \<in> set (height_keys exCfg (BlockNumber (scanBlock 5 7)) exSettled)" for key
    using that by (auto simp: sb hk sv)
  obtain plan w' where p: "planForkRewritesCtx hexExt plainSvc exCfg Background (scanBlock 5 7) None (exWorld exSettled) = (Inr plan, w')"
    using plain.calm_plan [OF calm hints len canonical dec] by blast
  have "quiet exSettled (exWorld exSettled)" using calm by (simp add: calm_def)
  from plain.plan_exact(2) [OF this p hints] have "plan = []"
    by (simp add: sb hk List.map_filter_def wanted_def sv exVal_def)
  with p show ?thesis by blast
qed


definition exSys :: system where
  "exSys = \<lparr> chkr = exChk, wrk = Idle, outside = exWorld exSettled, stamp = (\<lambda>_. 0), readAt = (\<lambda>_. 0), scannedAt = (\<lambda>_. None) \<rparr>"

lemma ex_scan_init: "scan_init hexExt exSys"
proof -
  have "NumKey 5 \<noteq> forkScanKey a b" for a b by simp
  moreover have "index_ok (store exChk)"
    by (auto simp: index_ok_def exChk_def emptyPebble_def)
  ultimately show ?thesis
    by (simp add: scan_init_def exSys_def ex_chk durable_def) (simp add: exChk_def ex_cfg cursorKey_def emptyPebble_def)
qed

lemma ex_scan_run:
  "\<exists>s st. reachable (scan_init hexExt) (scan_step hexExt plainSvc) s \<and> forkState (chkr s) = Some st \<and>
     anchorHeight (Baseline st) = 4 \<and> NextHeight st = 6 \<and> (\<forall>t k. \<not> readErr (store (chkr s)) t k)"
proof -
  let ?R = "reachable (scan_init hexExt) (scan_step hexExt plainSvc)"
  have 0: "?R exSys" using ex_scan_init by (rule reach_init)
  obtain c1 where c1: "finishForkScan hexExt None exChk = (True, c1)" "ex_ready c1" "forkState c1 = Some exSt" "forkBatch c1 = None"
    using ex_init by blast
  have pos: "position_ok None" by (simp add: position_ok_def)
  have 1: "?R (exSys\<lparr>chkr := c1\<rparr>)"
    using 0 scan_step.checkpoint [of hexExt None exSys True c1, OF _ pos] c1(1) by (auto simp: exSys_def intro: reach_step)
  define c2 where "c2 = c1\<lparr>latestOuter := Some (exOuter 5 7)\<rparr>"
  have 2: "?R (exSys\<lparr>chkr := c2\<rparr>)"
    using reach_step [OF 1 scan_step.bookkeeping [of "exSys\<lparr>chkr := c1\<rparr>" c2]] by (simp add: c2_def exSys_def scan_untouched_def)
  obtain c3 where c3: "finishForkScan hexExt None c2 = (True, c3)" "ex_ready c3" "forkState c3 = Some exSt1" "forkBatch c3 = None" "forkAligned c3"
    using ex_publish [OF c1(2-4)] by (auto simp: c2_def)
  have 3: "?R (exSys\<lparr>chkr := c3\<rparr>)"
    using reach_step [OF 2 scan_step.checkpoint [OF _ pos]] c3(1) by (simp add: exSys_def)
  define b where "b = \<lparr> bId = batches c3, bStart = 5, bUpper = 5, bGeneration = 1, bRewind = None \<rparr>"
  define c4 where "c4 = c3\<lparr> forkBatch := Some b, batches := Suc (batches c3) \<rparr>"
  have "beginForkScanBatch 5 1 c3 = (Inr b, c4)"
    using c3 by (simp add: beginForkScanBatch_def b_def c4_def exSt1_def exSt_def Let_def)
  then have 4: "?R (exSys\<lparr>chkr := c4, wrk := Running b []\<rparr>)"
    using reach_step [OF 3 scan_step.start] by (simp add: exSys_def)
  have r4: "ex_ready c4" "forkState c4 = Some exSt1" "forkBatch c4 = Some b" "forkAligned c4"
    using c3 by (simp_all add: c4_def ex_ready_def)
  have rd: "readScanCanonical (store c4) 5 = Inr 7"
    using r4(1) by (simp add: readScanCanonical_def GetCanonicalHashByNum_def getBlockHashByNum_def Get_def ex_ready_def)
  obtain w' where pl: "planForkRewritesCtx hexExt plainSvc (config c4) Background (scanBlock 5 7) None (exWorld exSettled) = (Inr [], w')"
    using ex_empty_plan r4(1) by (auto simp: ex_ready_def)
  define s4 where "s4 = exSys\<lparr>chkr := c4, wrk := Running b []\<rparr>"
  define s5 where "s5 = s4\<lparr> wrk := Scanning b [] 5 7 [], outside := w', readAt := (readAt s4)(5 := stamp s4 5) \<rparr>"
  have s4: "chkr s4 = c4" "wrk s4 = Running b []" "outside s4 = exWorld exSettled" by (simp_all add: s4_def exSys_def)
  have "scan_step hexExt plainSvc s4 s5"
    unfolding s5_def
  proof (rule scan_step.plan [where b = b and checked = "[]" and ctx = Background])
    show "(5::u64) = nextOf b []" "(5::u64) \<le> bUpper b" by (simp_all add: nextOf_def b_def)
    show "(5::u64) \<noteq> MaxUint64" by (simp add: MaxUint64_def)
    show "\<not> stale (deref (chkr s4) b) 5" by (simp add: s4 deref_def r4(3)) (simp add: stale_def b_def)
  qed (simp_all add: s4 rd pl)
  then have 5: "?R s5" using reach_step [OF 4 [folded s4_def]] by blast
  define s6 where "s6 = s5\<lparr>wrk := Running b [(5, 7)], scannedAt := (scannedAt s5)(5 := Some (readAt s5 5))\<rparr>"
  have 6: "?R s6"
    using reach_step [OF 5 scan_step.checked [of s5 b "[]" 5 7]] by (simp add: s6_def) (simp add: s5_def)
  let ?st = "exSt1\<lparr>NextHeight := 6\<rparr>"
  have v: "validate ?st = Inr ()" by (simp add: validate_def exSt1_def exSt_def MaxUint64_def)
  obtain c7 where c7: "saveForkScan hexExt ?st c4 = (Inr (), c7)" "ex_ready c7" "forkState c7 = Some ?st"
    using ex_save_ready [OF r4(1) v] by auto
  have ver: "verifyForkScanBatchHeight c4 b 5 7 = None"
    using r4 rd by (simp add: verifyForkScanBatchHeight_def deref_def stale_def Let_def b_def exSt1_def exSt_def)
  have "finishForkScanBatch hexExt None b [(5, 7)] c4 = ((False, None), c7\<lparr>forkBatch := None\<rparr>)"
    using c7(1) ver r4(2) by (simp add: finishForkScanBatch_def b_def)
  then have "?R (s6\<lparr>chkr := c7\<lparr>forkBatch := None\<rparr>, wrk := Idle\<rparr>)"
    by (intro reach_step [OF 6 scan_step.stop [where b = b and checked = "[(5, 7)]"]])
      (simp_all add: s6_def s5_def s4)
  then show ?thesis
    using c7 by (intro exI [of _ "s6\<lparr>chkr := c7\<lparr>forkBatch := None\<rparr>, wrk := Idle\<rparr>"] exI [of _ ?st])
      (simp add: ex_ready_def exSt1_def exSt_def)
qed

section \<open>Coverage\<close>

text \<open>
  The continuous scan never skips a change. In every reachable state of the interleaving of
  message processing, the scan worker, other writers of the bucket, crashes and restarts: each
  height strictly between the baseline and the cursor has been scanned to completion (listed,
  planned for its canonical hash, every PUT done) since the last time its canonical mapping changed.
  A reorg that returns to an earlier hash while a batch is in flight does not let the batch claim
  the heights in between, because the fence is kept. Blocks of a notice are in ascending order.
\<close>

theorem scan_covers_every_change:
  assumes "reachable (scan_init x) (scan_step x v) s" and "ext_codecs x"
    and "forkState (chkr s) = Some st" and "anchorHeight (Baseline st) < h" and "h < NextHeight st"
  shows "scannedAt s h = Some (stamp s h)"
proof -
  have "scan_inv x s"
    using invariant_system.reachable_inv [OF ext_codecs.scan_system [OF assms(2)] assms(1)] .
  then show ?thesis using assms(3-5) by (simp add: scan_inv_def covered_def)
qed

theorem scan_covers_every_change_witness:
  "\<exists>s :: system. reachable (scan_init hexExt) (scan_step hexExt plainSvc) s \<and> scannedAt s 5 = Some (stamp s 5)"
proof -
  obtain s st where r: "reachable (scan_init hexExt) (scan_step hexExt plainSvc) s"
    and st: "forkState (chkr s) = Some st" and h: "anchorHeight (Baseline st) < 5" "5 < NextHeight st"
    using ex_scan_run by auto
  show ?thesis using scan_covers_every_change [OF r hexc.ext_codecs_axioms st h] r by blast
qed

text \<open>
  C7: the cursor survives crashes. In every reachable state the cursor in memory is valid, is exactly
  the record in the store, and a start that can read the store resumes with it.
\<close>

theorem scan_cursor_is_durable:
  assumes "reachable (scan_init x) (scan_step x v) s" and "ext_codecs x"
    and "forkState (chkr s) = Some st"
    and "\<not> readErr (store (chkr s)) (epoch (store (chkr s))) (cursorKey (chkr s))"
  shows "validate st = Inr () \<and>
    LoadForkScan x (store (chkr s)) (ChainID (config (chkr s))) (Version (config (chkr s))) = Inr (Some st)"
proof -
  have "durable x (chkr s)"
    using invariant_system.reachable_inv [OF ext_codecs.scan_system [OF assms(2)] assms(1)]
    by (simp add: scan_inv_def)
  then have "stored x (ChainID (config (chkr s))) (Version (config (chkr s))) (store (chkr s)) st" "storable st"
    using assms(3) by (simp_all add: durable_def)
  then show ?thesis
    using durable_cursor.load_durable [OF ext_codecs.cursor_contract [OF assms(2)]] assms(4)
    by (simp add: cursorKey_def stored_def)
qed

theorem scan_cursor_is_durable_witness:
  "\<exists>(s :: system) st. reachable (scan_init hexExt) (scan_step hexExt plainSvc) s \<and> NextHeight st = 6 \<and>
     LoadForkScan hexExt (store (chkr s)) (ChainID (config (chkr s))) (Version (config (chkr s))) = Inr (Some st)"
proof -
  obtain s st where r: "reachable (scan_init hexExt) (scan_step hexExt plainSvc) s"
    and st: "forkState (chkr s) = Some st" and n: "NextHeight st = 6"
    and ne: "\<not> readErr (store (chkr s)) (epoch (store (chkr s))) (cursorKey (chkr s))"
    using ex_scan_run by auto
  show ?thesis using scan_cursor_is_durable [OF r hexc.ext_codecs_axioms st ne] r n by blast
qed

end
