(* ===== verification/Replicas.thy ===== *)
theory Replicas
  imports CheckerState World
begin

text \<open>
  The replica check of \<^verbatim>\<open>check/check.go\<close>: counting the replicas that have reached a height, waiting
  for enough of them, and publishing heights and node states to etcd. The lemmas show which share of
  ready replicas the default configuration asks for, that a published height was reached by every
  counted replica, that the wait ends, what a successful write leaves in etcd, and what a failed
  one loses.
\<close>

section \<open>The share of ready replicas\<close>

text \<open>
  \<^verbatim>\<open>float64(a) / float64(b)\<close> for \<open>a \<le> b\<close>: the quotient is scaled by the smallest power of two that gives it
  53 significant bits and rounded to nearest, ties to even. Counts below \<open>2 ^ 53\<close> convert exactly.
\<close>

function scaleUp :: "nat \<Rightarrow> nat \<Rightarrow> nat \<Rightarrow> nat" where
  "scaleUp a b k = (if a = 0 \<or> b * 2 ^ 52 \<le> a * 2 ^ k then k else scaleUp a b (Suc k))"
  by pat_completeness auto
termination
proof (relation "measure (\<lambda>(a, b, k). b * 2 ^ 52 - a * 2 ^ k)", goal_cases)
  case (2 a b k)
  then have "0 < a * 2 ^ k" "a * 2 ^ k < b * 2 ^ 52" by auto
  then have "a * 2 ^ k < a * 2 ^ Suc k" by simp
  with \<open>a * 2 ^ k < b * 2 ^ 52\<close> have "b * 2 ^ 52 - a * 2 ^ Suc k < b * 2 ^ 52 - a * 2 ^ k"
    by (rule diff_less_mono2 [rotated])
  then show ?case by simp
qed simp

declare scaleUp.simps [simp del]

definition round_even :: "nat \<Rightarrow> nat \<Rightarrow> nat" where
  "round_even n d = (let q = n div d; r = n mod d in
     if 2 * r < d then q else if 2 * r > d then q + 1 else if even q then q else q + 1)"

definition float_div :: "nat \<Rightarrow> nat \<Rightarrow> rat" where
  "float_div a b = (let k = scaleUp a b 0 in of_nat (round_even (a * 2 ^ k) b) / 2 ^ k)"

section \<open>Checking all replicas\<close>

record ReplicaStateChangeNotification =
  rLatestBlockNumber :: "int option"
  ReplicaStates :: "NodeWithHeight list"

definition isReady :: "NodeWithHeight \<Rightarrow> bool" where
  "isReady s = (StateType (nNode s) = 1)"

definition lowestReady :: "NodeWithHeight list \<Rightarrow> int" where
  "lowestReady states = fold (\<lambda>s l. if isReady s \<and> l > sint (LatestBlockNumber s) then sint (LatestBlockNumber s) else l)
     states MaxInt64"

definition check :: "Config \<Rightarrow> http \<Rightarrow> RWMap \<Rightarrow> u64 \<Rightarrow> ReplicaStateChangeNotification res" where
  "check cfg post m kafkaLatest =
     (let states = CheckAll post kafkaLatest (RpcNodeTimeout cfg * Millisecond) m;
          ready = length (filter isReady states) in
      if states = [] then Inl (Msg ''no node'')
      else if float_div ready (length states) \<ge> ReadyRatio cfg
      then Inr \<lparr> rLatestBlockNumber = Some (lowestReady states), ReplicaStates = states \<rparr>
      else Inr \<lparr> rLatestBlockNumber = None, ReplicaStates = states \<rparr>)"

section \<open>Waiting\<close>

definition isPublishable :: "ReplicaStateChangeNotification res \<Rightarrow> bool" where
  "isPublishable r = (case r of Inl _ \<Rightarrow> False | Inr n \<Rightarrow> rLatestBlockNumber n \<noteq> None)"

definition resOption :: "'a res \<Rightarrow> 'a option" where
  "resOption r = (case r of Inl _ \<Rightarrow> None | Inr a \<Rightarrow> Some a)"

text \<open>
  The polling loop. The result is the last sample and the error, if any; a sample whose check failed
  is nil. The fuel bounds the number of polls; the loop runs out of it only when it would not have
  returned by then.
\<close>

fun waitLoop ::
  "nat \<Rightarrow> Config \<Rightarrow> u64 \<Rightarrow> int \<Rightarrow> world \<Rightarrow> ((ReplicaStateChangeNotification option \<times> err option) \<times> world) option" where
  "waitLoop 0 cfg k deadline w = None"
| "waitLoop (Suc fuel) cfg k deadline w =
     (let r = check cfg (rpc w (tick w)) (registry w (tick w)) k; w1 = advance w;
          interval = CheckInterval cfg * Millisecond in
      if isPublishable r then Some ((resOption r, None), w1)
      else if \<not> now w1 + interval < deadline
      then Some ((resOption r, Some (Msg ''replicas not ready'')), w1)
      else (case sleepCtx Background interval w1 of
              (stop, w2) \<Rightarrow>
                if stop then Some ((resOption r, Some (Msg ''checker quitting'')), w2)
                else waitLoop fuel cfg k deadline w2))"

definition waitReplicasReady ::
  "nat \<Rightarrow> Config \<Rightarrow> u64 \<Rightarrow> int \<Rightarrow> world \<Rightarrow> ((ReplicaStateChangeNotification option \<times> err option) \<times> world) option" where
  "waitReplicasReady fuel cfg k timeout w = waitLoop fuel cfg k (now w + timeout) w"

definition replicaWaitTimeout :: "Config \<Rightarrow> int" where
  "replicaWaitTimeout cfg = CheckTimeout cfg * Millisecond"

section \<open>Publishing to etcd\<close>

definition nodeKey :: "Config \<Rightarrow> Node \<Rightarrow> string" where
  "nodeKey cfg n =
     (if IsVersionMode cfg
      then fmt_d (ChainID cfg) @ ''/'' @ Version cfg @ ''/nodes/'' @ Address n @ ''_'' @ fmt_d (Port n)
      else fmt_d (ChainID cfg) @ ''/nodes/'' @ Address n @ ''_'' @ fmt_d (Port n))"

definition lastBlockNumberKey :: "Config \<Rightarrow> string" where
  "lastBlockNumberKey cfg =
     (if IsVersionMode cfg then fmt_d (ChainID cfg) @ ''/'' @ Version cfg @ ''/lastBlockNumber''
      else fmt_d (ChainID cfg) @ ''/lastBlockNumber'')"

definition etcdTimeout :: "Config \<Rightarrow> int" where
  "etcdTimeout cfg = (let t = EtcdWriteTimeout cfg * Millisecond in if t = 0 then 5 * Second else t)"

definition offlineOps :: "Config \<Rightarrow> NodeWithHeight list \<Rightarrow> etcdOp list" where
  "offlineOps cfg states =
     map (\<lambda>s. OpDelete (nodeKey cfg (nNode s)))
       (filter (\<lambda>s. nChangeType s = DelNode \<and> Lease (nNode s) = 0) states)"

definition RemoveOfflineNodesFromEtcd :: "ReplicaStateChangeNotification \<Rightarrow> Checker \<Rightarrow> world \<Rightarrow> world" where
  "RemoveOfflineNodesFromEtcd r c w = (let ops = offlineOps (config c) (ReplicaStates r) in
     if ops = [] then w
     else snd (etcdTxn (WithTimeout (etcdTimeout (config c)) w Background) [] ops w))"

definition heightJson :: "svc \<Rightarrow> int \<Rightarrow> string" where
  "heightJson v h = json_print (JObj [(''latestBlockNumber'', JStr (hexBig v h))])"

definition nodeOp :: "Config \<Rightarrow> NodeWithHeight \<Rightarrow> etcdOp option" where
  "nodeOp cfg s =
     (if nChangeType s = NoChange then None
      else if Lease (nNode s) = 0
      then (if nChangeType s = DelNode then Some (OpDelete (nodeKey cfg (nNode s)))
            else Some (OpPut (nodeKey cfg (nNode s)) (marshalNode (nNode s)) 0))
      else Some (OpPut (nodeKey cfg (nNode s)) (marshalNode (nNode s)) (Lease (nNode s))))"

text \<open>The height is recorded as written before the transaction is committed, as in the source.\<close>

definition heightOps :: "svc \<Rightarrow> ReplicaStateChangeNotification \<Rightarrow> Checker \<Rightarrow> etcdOp list \<times> Checker" where
  "heightOps v r c = (case rLatestBlockNumber r of
     None \<Rightarrow> ([], c)
   | Some h \<Rightarrow>
       if (word_of_int h :: u64) \<noteq> lastWrittenBlockNumber c
       then ([OpPut (lastBlockNumberKey (config c)) (heightJson v h) 0], c\<lparr>lastWrittenBlockNumber := word_of_int h\<rparr>)
       else ([], c))"

definition WriteReplicaStateChangeToEtcd ::
  "svc \<Rightarrow> ReplicaStateChangeNotification \<Rightarrow> Checker \<Rightarrow> world \<Rightarrow> unit res \<times> Checker \<times> world" where
  "WriteReplicaStateChangeToEtcd v r c0 w =
     (case heightOps v r c0 of (hops, c) \<Rightarrow>
       (let ops = hops @ List.map_filter (nodeOp (config c)) (ReplicaStates r) in
        if ops = [] then (Inr (), c, w)
        else (case etcdTxn (WithTimeout (etcdTimeout (config c)) w Background) [] ops w of
                (Inl e, w') \<Rightarrow> (Inl e, c, w')
              | (Inr _, w') \<Rightarrow> (Inr (), c\<lparr>latestWriteEtcd := now w'\<rparr>, w'))))"

text \<open>
  A wait without an error has a sample (\<^verbatim>\<open>replicaStateChange\<close> is not nil there), which the lemmas below
  show; the branch without one is never taken. \<open>None\<close> means that the fuel for the wait ran out.
\<close>

definition checkAndNotify ::
  "nat \<Rightarrow> svc \<Rightarrow> u64 \<Rightarrow> int \<Rightarrow> Checker \<Rightarrow> world \<Rightarrow> (bool \<times> Checker \<times> world) option" where
  "checkAndNotify fuel v kafkaLatest timeout c w =
     (if ReplicaLatestBlockNumber c > kafkaLatest \<and> now w - latestWriteEtcd c < 1 * Second then Some (True, c, w)
      else (case waitReplicasReady fuel (config c) kafkaLatest timeout w of
        None \<Rightarrow> None
      | Some ((r, Some e), w1) \<Rightarrow>
          Some (False, c, (case r of None \<Rightarrow> w1 | Some n \<Rightarrow> RemoveOfflineNodesFromEtcd n c w1))
      | Some ((None, None), w1) \<Rightarrow> None
      | Some ((Some n, None), w1) \<Rightarrow>
          (let c1 = (case rLatestBlockNumber n of
                       None \<Rightarrow> c | Some h \<Rightarrow> c\<lparr>ReplicaLatestBlockNumber := word_of_int h\<rparr>) in
           case WriteReplicaStateChangeToEtcd v n c1 w1 of
             (Inl e, c2, w2) \<Rightarrow> Some (False, c2, w2)
           | (Inr _, c2, w2) \<Rightarrow> Some (True, c2, w2))))"

definition CheckAndNotifyEtcd :: "nat \<Rightarrow> svc \<Rightarrow> Checker \<Rightarrow> world \<Rightarrow> (bool \<times> Checker \<times> world) option" where
  "CheckAndNotifyEtcd fuel v c w =
     checkAndNotify fuel v (ReplicaLatestBlockNumber c) (replicaWaitTimeout (config c)) c w"

section \<open>Lemmas: the ready ratio\<close>

lemma scaleUp_spec:
  assumes "0 < a" and "k = 0 \<or> a * 2 ^ (k - 1) < b * 2 ^ 52"
  shows "b * 2 ^ 52 \<le> a * 2 ^ scaleUp a b k \<and> (scaleUp a b k = 0 \<or> a * 2 ^ (scaleUp a b k - 1) < b * 2 ^ 52)"
  using assms
proof (induction a b k rule: scaleUp.induct)
  case (1 a b k)
  show ?case
  proof (cases "b * 2 ^ 52 \<le> a * 2 ^ k")
    case True
    then have "scaleUp a b k = k" by (subst scaleUp.simps) simp
    with True 1 show ?thesis by simp
  next
    case False
    with "1.prems"(1) have "scaleUp a b k = scaleUp a b (Suc k)" by (subst scaleUp.simps) simp
    with False 1 show ?thesis by simp
  qed
qed

lemma scaleUp_exponent:
  assumes "0 < a" "a < b" "b \<le> 2 * a"
  shows "scaleUp a b 0 = 53"
proof -
  let ?k = "scaleUp a b 0"
  have s: "b * 2 ^ 52 \<le> a * 2 ^ ?k" "?k = 0 \<or> a * 2 ^ (?k - 1) < b * 2 ^ 52"
    using scaleUp_spec [of a 0 b] assms(1) by auto
  have "\<not> ?k \<le> 52"
  proof
    assume "?k \<le> 52"
    then have "(2::nat) ^ ?k \<le> 2 ^ 52" by (rule power_increasing) simp
    then have "a * 2 ^ ?k \<le> a * 2 ^ 52" by simp
    also have "\<dots> < b * 2 ^ 52" using assms(2) by simp
    finally show False using s(1) by simp
  qed
  moreover have "\<not> ?k \<ge> 54"
  proof
    assume k: "?k \<ge> 54"
    then have "(2::nat) ^ 53 \<le> 2 ^ (?k - 1)" by (intro power_increasing) auto
    then have "a * 2 ^ 53 \<le> a * 2 ^ (?k - 1)" by simp
    moreover have "b * 2 ^ 52 \<le> a * 2 ^ 53" using assms(3) by simp
    ultimately show False using s(2) k by linarith
  qed
  ultimately show ?thesis by linarith
qed

lemma round_even_ge_even:
  assumes "0 < d"
  shows "2 * j + 2 \<le> round_even n d \<longleftrightarrow> (4 * j + 3) * d \<le> 2 * n"
proof -
  define q r where "q = n div d" and "r = n mod d"
  have n: "n = q * d + r" "r < d" using assms by (simp_all add: q_def r_def)
  have re: "round_even n d = (if 2 * r < d then q else if 2 * r > d then q + 1 else if even q then q else q + 1)"
    by (simp add: round_even_def Let_def q_def r_def)
  consider "q \<ge> 2 * j + 2" | "q = 2 * j + 1" | "q \<le> 2 * j" by linarith
  then show ?thesis
  proof cases
    case 1
    then have "(2 * j + 2) * d \<le> q * d" by (rule mult_le_mono1)
    then have "(4 * j + 3) * d \<le> 2 * n" using n(1) by (simp add: algebra_simps)
    moreover have "2 * j + 2 \<le> round_even n d" using 1 unfolding re by auto
    ultimately show ?thesis by simp
  next
    case 2
    then have "(4 * j + 3) * d \<le> 2 * n \<longleftrightarrow> d \<le> 2 * r" using n(1) by (simp add: algebra_simps)
    moreover have "2 * j + 2 \<le> round_even n d \<longleftrightarrow> d \<le> 2 * r" using 2 unfolding re by auto
    ultimately show ?thesis by simp
  next
    case 3
    then have "q * d \<le> 2 * j * d" by (rule mult_le_mono1)
    moreover have "2 * n = 2 * (q * d) + 2 * r" "(4 * j + 3) * d = 2 * (2 * j * d) + 3 * d"
      using n(1) by (simp_all add: algebra_simps)
    ultimately have "\<not> (4 * j + 3) * d \<le> 2 * n" using n(2) by linarith
    moreover have "\<not> 2 * j + 2 \<le> round_even n d" using 3 unfolding re by auto
    ultimately show ?thesis by simp
  qed
qed

lemma half_below: "0 < a \<Longrightarrow> 2 * a < b \<Longrightarrow> float_div a b < 3602879701896397 / 4503599627370496"
proof -
  assume a: "0 < a" "2 * a < b"
  define k where "k = scaleUp a b 0"
  have s: "b * 2 ^ 52 \<le> a * 2 ^ k" "k = 0 \<or> a * 2 ^ (k - 1) < b * 2 ^ 52"
    using scaleUp_spec [of a 0 b] a(1) by (auto simp: k_def)
  have k: "53 < k"
  proof (rule ccontr)
    assume "\<not> 53 < k"
    then have "(2::nat) ^ k \<le> 2 ^ 53" by (intro power_increasing) auto
    then have "a * 2 ^ k \<le> a * 2 ^ 53" by simp
    also have "\<dots> < b * 2 ^ 52" using a(2) by simp
    finally show False using s(1) by simp
  qed
  then have "a * 2 ^ k < b * 2 ^ 53"
    using s(2) by (cases k) auto
  then have "a * 2 ^ k div b < 2 ^ 53" by (simp add: less_mult_imp_div_less mult.commute)
  then have "round_even (a * 2 ^ k) b \<le> 2 ^ 53" by (auto simp: round_even_def Let_def)
  then have "(of_nat (round_even (a * 2 ^ k) b) :: rat) \<le> 2 ^ 53"
    by (metis of_nat_le_iff of_nat_numeral of_nat_power)
  then have "float_div a b \<le> 2 ^ 53 / 2 ^ k"
    by (simp add: float_div_def Let_def divide_right_mono flip: k_def)
  also have "\<dots> \<le> 2 ^ 53 / 2 ^ 54"
    using k by (intro divide_left_mono power_increasing) auto
  finally show ?thesis by (simp add: less_le_trans)
qed

lemma float_div_same:
  assumes "0 < b"
  shows "float_div b b = 1"
proof -
  have "scaleUp b b 0 = 52"
  proof -
    have s: "b * 2 ^ 52 \<le> b * 2 ^ scaleUp b b 0" "scaleUp b b 0 = 0 \<or> b * 2 ^ (scaleUp b b 0 - 1) < b * 2 ^ 52"
      using scaleUp_spec [of b 0 b] assms by auto
    then have "(2::nat) ^ 52 \<le> 2 ^ scaleUp b b 0" using assms by (simp only: mult_le_cancel1)
    then have "52 \<le> scaleUp b b 0" by (simp only: power_increasing_iff)
    moreover have "scaleUp b b 0 - 1 < 52" if "scaleUp b b 0 \<noteq> 0"
    proof -
      have "(2::nat) ^ (scaleUp b b 0 - 1) < 2 ^ 52" using s(2) that assms by (simp only: mult_less_cancel1 simp_thms)
      then show ?thesis by (simp only: power_strict_increasing_iff)
    qed
    ultimately show ?thesis by linarith
  qed
  then show ?thesis
    using assms by (simp add: float_div_def Let_def round_even_def)
qed

lemma ratio_scaled:
  "3602879701896397 / 4503599627370496 \<le> x / 2 ^ 53 \<longleftrightarrow> 7205759403792794 \<le> x" for x :: rat
proof -
  have "(3602879701896397 / 4503599627370496 :: rat) = 7205759403792794 / 2 ^ 53" by simp
  then show ?thesis by (simp only: divide_le_cancel) simp
qed

lemma default_ratio:
  assumes "a \<le> b" "0 < b" "b < 2 ^ 53"
  shows "float_div a b \<ge> 3602879701896397 / 4503599627370496 \<longleftrightarrow> 4 * b \<le> 5 * a"
proof -
  consider "a = 0" | "0 < a" "2 * a < b" | "0 < a" "b \<le> 2 * a" "a < b" | "a = b"
    using assms(1) by linarith
  then show ?thesis
  proof cases
    case 1
    then show ?thesis using assms(2) by (simp add: float_div_def round_even_def Let_def)
  next
    case 2
    then show ?thesis using half_below [of a b] by auto
  next
    case 3
    then have fd: "float_div a b = of_nat (round_even (a * 2 ^ 53) b) / 2 ^ 53"
      by (simp add: float_div_def Let_def scaleUp_exponent)
    have "float_div a b \<ge> 3602879701896397 / 4503599627370496 \<longleftrightarrow>
        (of_nat (2 * 3602879701896396 + 2) :: rat) \<le> of_nat (round_even (a * 2 ^ 53) b)"
      unfolding fd ratio_scaled by simp
    also have "\<dots> \<longleftrightarrow> 2 * 3602879701896396 + 2 \<le> round_even (a * 2 ^ 53) b"
      by (rule of_nat_le_iff)
    also have "\<dots> \<longleftrightarrow> (4 * 3602879701896396 + 3) * b \<le> 2 * (a * 2 ^ 53)"
      by (rule round_even_ge_even [OF assms(2)])
    also have "\<dots> \<longleftrightarrow> 4 * b \<le> 5 * a" using assms(3) by auto
    finally show ?thesis .
  next
    case 4
    have "float_div b b = 1" using assms(2) by (rule float_div_same)
    with 4 show ?thesis by simp
  qed
qed

section \<open>Lemmas: one check\<close>

text \<open>The replicas that have reached a height, by their answers.\<close>

definition caughtUp :: "Config \<Rightarrow> http \<Rightarrow> RWMap \<Rightarrow> u64 \<Rightarrow> Node list" where
  "caughtUp cfg post m k = filter (\<lambda>n. case EthBlockNumber post n (RpcNodeTimeout cfg * Millisecond) of
     Inl _ \<Rightarrow> False | Inr h \<Rightarrow> k \<le> h) (GetAll m)"

lemma isReady_Check:
  "isReady (Check post n k t) \<longleftrightarrow> (case EthBlockNumber post n t of Inl _ \<Rightarrow> False | Inr h \<Rightarrow> k \<le> h)"
  by (auto simp: isReady_def checkedState_def split: sum.splits)

lemma ready_count:
  "length (filter isReady (CheckAll post k (RpcNodeTimeout cfg * Millisecond) m)) = length (caughtUp cfg post m k)"
  by (simp add: CheckAll_def filter_map comp_def isReady_Check caughtUp_def)

lemma length_CheckAll [simp]: "length (CheckAll post k t m) = length (nodeMap m)"
  by (simp add: CheckAll_def GetAll_def)

lemma CheckAll_Nil [simp]: "CheckAll post k t m = [] \<longleftrightarrow> nodeMap m = []"
  by (simp add: CheckAll_def GetAll_def)

lemma caughtUp_le: "length (caughtUp cfg post m k) \<le> length (nodeMap m)"
  unfolding caughtUp_def GetAll_def by (metis length_filter_le length_map)

lemma check_states: "check cfg post m k = Inr r \<Longrightarrow> ReplicaStates r = CheckAll post k (RpcNodeTimeout cfg * Millisecond) m"
  by (auto simp: check_def Let_def split: if_splits)

lemma fold_lowest:
  "fold (\<lambda>s l. if isReady s \<and> l > sint (LatestBlockNumber s) then sint (LatestBlockNumber s) else l) ss l0 =
     Min (insert l0 ((\<lambda>s. sint (LatestBlockNumber s)) ` {s \<in> set ss. isReady s}))"
proof (induction ss arbitrary: l0)
  case (Cons s ss)
  have "Min (insert (min a b) A) = Min (insert a (insert b A))" if "finite A" for a b :: int and A
    using that by (cases "A = {}") (simp_all add: min.assoc)
  moreover have "{x \<in> set (s # ss). isReady x} = (if isReady s then insert s {x \<in> set ss. isReady x} else {x \<in> set ss. isReady x})"
    by auto
  moreover have "(if isReady s \<and> l0 > sint (LatestBlockNumber s) then sint (LatestBlockNumber s) else l0) =
      (if isReady s then min l0 (sint (LatestBlockNumber s)) else l0)" by auto
  ultimately show ?case using Cons [of "if isReady s then min l0 (sint (LatestBlockNumber s)) else l0"]
    by (auto simp: insert_commute)
qed simp

lemma sint_small: "unat (h :: u64) < 2 ^ 63 \<Longrightarrow> sint h = int (unat h)"
proof -
  assume "unat h < 2 ^ 63"
  then have "int (unat h) < int (2 ^ 63)" by (simp only: of_nat_less_iff)
  then have "uint h < 2 ^ 63" by simp
  moreover have "- (2 ^ 63) \<le> uint h" by (rule order_trans [OF _ uint_ge_0]) simp
  ultimately have "- (2 ^ 63) \<le> uint h" "uint h < 2 ^ 63" by blast+
  then have "signed_take_bit 63 (uint h) = uint h" by (rule signed_take_bit_int_eq_self)
  then show ?thesis by (simp add: sint_uint)
qed

text \<open>
  C27: With the default configuration the check reports a height exactly when at least four fifths
  of the registered replicas have reached the requested height: the comparison of the rounded
  floating-point quotient with the rounded constant 0.8 decides exactly \<open>5 * ready \<ge> 4 * total\<close>. Without
  replicas it is an error.
\<close>

theorem default_ratio_is_four_fifths:
  assumes "ReadyRatio cfg = ReadyRatio defaultConfig" and "length (nodeMap m) < 2 ^ 53"
  shows "case check cfg post m k of
      Inl e \<Rightarrow> nodeMap m = []
    | Inr r \<Rightarrow> nodeMap m \<noteq> [] \<and>
        (rLatestBlockNumber r \<noteq> None \<longleftrightarrow> 4 * length (nodeMap m) \<le> 5 * length (caughtUp cfg post m k))"
proof (cases "nodeMap m = []")
  case True
  then show ?thesis by (simp add: check_def Let_def)
next
  case False
  have ratio: "ReadyRatio cfg = 3602879701896397 / 4503599627370496"
    unfolding assms(1) defaultConfig_def by simp
  have "float_div (length (caughtUp cfg post m k)) (length (nodeMap m)) \<ge> ReadyRatio cfg \<longleftrightarrow>
      4 * length (nodeMap m) \<le> 5 * length (caughtUp cfg post m k)"
    unfolding ratio using False by (intro default_ratio [OF caughtUp_le _ assms(2)]) simp
  with False show ?thesis by (simp add: check_def Let_def ready_count)
qed

definition exReplicas :: RWMap where
  "exReplicas = exMap\<lparr>nodeMap := [(''a'', exNode 1), (''b'', exNode 2), (''c'', exNode 3), (''d'', exNode 4), (''e'', exNode 5)]\<rparr>"

text \<open>Replicas that all answer with the height 16, except those listed, which do not answer.\<close>

definition exRpc :: "string list \<Rightarrow> http" where
  "exRpc off = (\<lambda>u b t. if u \<in> set off then Inl IOErr else Inr (json_print (answer (''0x'' @ hexNat (unat (16 :: u64))))))"

definition exURL :: "int \<Rightarrow> string" where
  "exURL port = nodeURL (exNode port)"

lemma exURL_eq: "exURL a = exURL b \<longleftrightarrow> a = b"
proof -
  have "\<not> has_prefix (''10.0.0.1'' @ '':'' @ x) ''http://''" for x by simp
  then show ?thesis by (simp add: exURL_def nodeURL_def exNode_def Let_def)
qed

lemma exRpc_answer:
  "EthBlockNumber (exRpc off) (exNode port) t = (if exURL port \<in> set off then Inl IOErr else Inr 16)"
proof (cases "exURL port \<in> set off")
  case True
  then show ?thesis by (simp add: EthBlockNumber_def exRpc_def exURL_def)
next
  case False
  then have "exRpc off (nodeURL (exNode port)) reqBody t = Inr (json_print (answer (''0x'' @ hexNat (unat (16 :: u64)))) @ [])"
    by (simp add: exRpc_def exURL_def)
  from EthBlockNumber_answer [of "exRpc off" "exNode port" t "''0x'' @ hexNat (unat (16 :: u64))" "[]", OF this] show ?thesis
    using ParseInt0_hex [of 16] ascii_hexNat [of 16] False by simp
qed

theorem default_ratio_is_four_fifths_witness:
  "\<exists>r :: ReplicaStateChangeNotification. check defaultConfig (exRpc [exURL 3]) exReplicas 16 = Inr r \<and> rLatestBlockNumber r \<noteq> None"
proof -
  have "length (caughtUp defaultConfig (exRpc [exURL 3]) exReplicas 16) = 4"
    by (simp add: caughtUp_def GetAll_def exReplicas_def exRpc_answer exURL_eq)
  moreover have "length (nodeMap exReplicas) = 5" by (simp add: exReplicas_def)
  ultimately show ?thesis
    using default_ratio_is_four_fifths [of defaultConfig exReplicas "exRpc [exURL 3]" 16]
    by (auto split: sum.splits)
qed

text \<open>
  C28: The height a check reports is one that a ready replica answered, no ready replica is below it,
  and it is at least the requested height, provided some replica is ready and heights fit a
  non-negative \<^verbatim>\<open>int\<close>.
\<close>

theorem published_height_is_reached:
  assumes "check cfg post m k = Inr r" and "rLatestBlockNumber r = Some h"
    and "\<exists>s \<in> set (ReplicaStates r). isReady s"
    and "\<forall>s \<in> set (ReplicaStates r). isReady s \<longrightarrow> unat (LatestBlockNumber s) < 2 ^ 63"
  shows "(\<exists>s \<in> set (ReplicaStates r). isReady s \<and> LatestBlockNumber s = word_of_int h) \<and>
    (\<forall>s \<in> set (ReplicaStates r). isReady s \<longrightarrow> word_of_int h \<le> LatestBlockNumber s) \<and> k \<le> word_of_int h"
proof -
  let ?S = "(\<lambda>s. sint (LatestBlockNumber s)) ` {s \<in> set (ReplicaStates r). isReady s}"
  have h: "h = Min (insert MaxInt64 ?S)"
    using assms(1,2) by (auto simp: check_def Let_def lowestReady_def fold_lowest split: if_splits)
  have small: "sint (LatestBlockNumber s) = int (unat (LatestBlockNumber s))" "int (unat (LatestBlockNumber s)) \<le> MaxInt64"
    if "s \<in> set (ReplicaStates r)" "isReady s" for s
  proof -
    have lt: "unat (LatestBlockNumber s) < 2 ^ 63" using assms(4) that by blast
    then show "sint (LatestBlockNumber s) = int (unat (LatestBlockNumber s))" by (rule sint_small)
    have "unat (LatestBlockNumber s) < 9223372036854775808" using lt by simp
    then show "int (unat (LatestBlockNumber s)) \<le> MaxInt64"
      unfolding MaxInt64_def by linarith
  qed
  obtain s0 where s0: "s0 \<in> set (ReplicaStates r)" "isReady s0" using assms(3) by blast
  have "h \<in> insert MaxInt64 ?S" unfolding h by (rule Min_in) auto
  moreover have "h = sint (LatestBlockNumber s0)" if "h = MaxInt64"
  proof -
    have "h \<le> sint (LatestBlockNumber s0)" unfolding h using s0 by (intro Min_le) auto
    then show ?thesis using small [OF s0] that by simp
  qed
  ultimately have "h \<in> ?S" using s0 by blast
  then obtain s1 where s1: "s1 \<in> set (ReplicaStates r)" "isReady s1" "h = sint (LatestBlockNumber s1)" by blast
  then have w: "word_of_int h = LatestBlockNumber s1" by simp
  have "\<exists>s \<in> set (ReplicaStates r). isReady s \<and> LatestBlockNumber s = word_of_int h"
    using s1 w by (intro bexI [of _ s1]) simp_all
  moreover have "\<forall>s \<in> set (ReplicaStates r). isReady s \<longrightarrow> word_of_int h \<le> LatestBlockNumber s"
  proof (intro ballI impI)
    fix s assume s: "s \<in> set (ReplicaStates r)" "isReady s"
    then have "h \<le> sint (LatestBlockNumber s)" unfolding h by (intro Min_le) auto
    then have "int (unat (LatestBlockNumber s1)) \<le> int (unat (LatestBlockNumber s))"
      using s1(3) small(1) [OF s] small(1) [OF s1(1,2)] by simp
    then show "word_of_int h \<le> LatestBlockNumber s"
      unfolding w word_le_nat_alt by (simp only: of_nat_le_iff)
  qed
  moreover have "isReady (Check post n k t) \<Longrightarrow> k \<le> LatestBlockNumber (Check post n k t)" for n t
    using Check_ready [of post n k t] by (auto simp: isReady_def)
  then have "k \<le> word_of_int h"
    unfolding w using s1(1,2) check_states [OF assms(1)] by (auto simp: CheckAll_def)
  ultimately show ?thesis by blast
qed

theorem published_height_is_reached_witness:
  "\<exists>r :: ReplicaStateChangeNotification. check (defaultConfig\<lparr>ReadyRatio := 1 / 2\<rparr>) (exRpc []) (exMap\<lparr>nodeMap := [(''a'', exNode 1)]\<rparr>) 12 = Inr r \<and>
     12 \<le> (word_of_int (the (rLatestBlockNumber r)) :: u64)"
proof -
  let ?cfg = "defaultConfig\<lparr>ReadyRatio := 1 / 2\<rparr>" and ?m = "exMap\<lparr>nodeMap := [(''a'', exNode 1)]\<rparr>"
  let ?s = "Check (exRpc []) (exNode 1) 12 (RpcNodeTimeout ?cfg * Millisecond)"
  have s: "isReady ?s" "LatestBlockNumber ?s = 16" by (simp_all add: isReady_Check exRpc_answer) (simp add: Check_def Let_def exRpc_answer)
  have "float_div (Suc 0) (Suc 0) = 1" by (rule float_div_same) simp
  then obtain r h where r: "check ?cfg (exRpc []) ?m 12 = Inr r" "rLatestBlockNumber r = Some h" "ReplicaStates r = [?s]"
    using s by (auto simp: check_def Let_def CheckAll_def GetAll_def)
  then have "12 \<le> (word_of_int h :: u64)"
    using published_height_is_reached [OF r(1,2)] s by simp
  with r show ?thesis by auto
qed

text \<open>
  With a ready ratio of zero and no ready replica the check reports the largest 63-bit number as the
  height of the replicas.
\<close>

theorem ratio_zero_publishes_maximum:
  assumes "ReadyRatio cfg = 0" and "nodeMap m \<noteq> []" and "caughtUp cfg post m k = []"
  shows "\<exists>r. check cfg post m k = Inr r \<and> rLatestBlockNumber r = Some 9223372036854775807"
proof -
  have none: "{s \<in> set (CheckAll post k (RpcNodeTimeout cfg * Millisecond) m). isReady s} = {}"
    using ready_count [of post k cfg m] assms(3) by (auto simp: filter_empty_conv)
  have "0 \<le> float_div a b" for a b by (simp add: float_div_def Let_def)
  then show ?thesis using assms(1,2)
    by (simp add: check_def Let_def lowestReady_def fold_lowest none MaxInt64_def)
qed

theorem ratio_zero_publishes_maximum_witness:
  "\<exists>r. check (defaultConfig\<lparr>ReadyRatio := 0\<rparr>) (exRpc [exURL 1]) (exMap\<lparr>nodeMap := [(''a'', exNode 1)]\<rparr>) 12 = Inr r \<and>
     rLatestBlockNumber r = Some 9223372036854775807"
  using ratio_zero_publishes_maximum [of "defaultConfig\<lparr>ReadyRatio := 0\<rparr>" "exMap\<lparr>nodeMap := [(''a'', exNode 1)]\<rparr>" "exRpc [exURL 1]" 12]
  by (simp add: caughtUp_def GetAll_def exRpc_answer)

section \<open>Lemmas: waiting\<close>

definition exClock :: "(nat \<Rightarrow> int) \<Rightarrow> world" where
  "exClock cl = \<lparr> tick = 0, clock = cl, quit = (\<lambda>_. False), fate = (\<lambda>_. Ack), uploads = (\<lambda>_. []),
     objects = [], pageFuel = 3, topics = (\<lambda>_. emptyTopic), otherTopics = (\<lambda>_ t. t),
     etcd = \<lparr> pairs = [], leases = [], nextLease = 1 \<rparr>, otherEtcd = (\<lambda>_ s. s), rpc = (\<lambda>_. exRpc []),
     registry = (\<lambda>_. exReplicas) \<rparr>"

text \<open>
  Time passes: the clock does not run backwards, and a poll followed by a wait takes at least the
  interval.
\<close>

definition timely :: "int \<Rightarrow> world \<Rightarrow> bool" where
  "timely d w = ((\<forall>t. clock w t \<le> clock w (Suc t)) \<and> (\<forall>t. clock w t + d \<le> clock w (Suc (Suc t))))"

lemma timely_advance [simp]: "timely d (advance w) = timely d w"
  by (simp add: timely_def advance_def)

lemma advance_sel [simp]: "tick (advance w) = Suc (tick w)" "clock (advance w) = clock w"
  by (simp_all add: advance_def)

lemma sleepCtx_adv: "sleepCtx ctx d w = (b, w') \<Longrightarrow> w' = advance w"
  by (simp add: sleepCtx_def Let_def)

lemma waitLoop_ends:
  assumes "timely (CheckInterval cfg * Millisecond) w" and "0 < CheckInterval cfg"
    and "deadline - now w \<le> int n * (CheckInterval cfg * Millisecond)"
  shows "\<exists>r w'. waitLoop (Suc n) cfg k deadline w = Some (r, w') \<and> tick w' \<le> tick w + 2 * n + 1"
  using assms
proof (induction n arbitrary: w)
  case 0
  then have "deadline \<le> now (advance w)"
    by (simp add: now_def timely_def) (meson order_trans)
  moreover have "0 < CheckInterval cfg * Millisecond" using 0 by (simp add: Millisecond_def)
  ultimately show ?case by (auto simp: Let_def)
next
  case (Suc n)
  let ?w2 = "advance (advance w)" and ?d = "CheckInterval cfg * Millisecond"
  have "now w + ?d \<le> now ?w2" using Suc.prems(1) by (simp add: timely_def now_def)
  then have "deadline - now ?w2 \<le> int n * ?d" using Suc.prems(3) by (simp add: algebra_simps)
  then obtain r w' where "waitLoop (Suc n) cfg k deadline ?w2 = Some (r, w')" "tick w' \<le> tick ?w2 + 2 * n + 1"
    using Suc.IH [of ?w2] Suc.prems(1,2) by auto
  then show ?case
    by (auto simp: Let_def dest!: sleepCtx_adv simp del: waitLoop.simps(2) split: prod.splits
        simp: waitLoop.simps(2) [of "Suc n"])
qed

text \<open>
  C29: Waiting for replicas ends: when the polling interval is positive and time passes, the wait
  returns after at most \<open>timeout / interval + 2\<close> polls, whatever the replicas answer, and it reports
  success only with a sample that has a height.
\<close>

theorem replica_wait_ends:
  assumes "timely (CheckInterval cfg * Millisecond) w" and "0 < CheckInterval cfg" and "0 \<le> timeout"
    and "fuel = nat (timeout div (CheckInterval cfg * Millisecond)) + 2"
  shows "\<exists>r e w'. waitReplicasReady fuel cfg k timeout w = Some ((r, e), w') \<and> tick w' \<le> tick w + 2 * fuel \<and>
    (e = None \<longrightarrow> (\<exists>n h. r = Some n \<and> rLatestBlockNumber n = Some h))"
proof -
  let ?d = "CheckInterval cfg * Millisecond" and ?n = "nat (timeout div (CheckInterval cfg * Millisecond)) + 1"
  have d: "0 < ?d" using assms(2) by (simp add: Millisecond_def)
  have t: "timeout = ?d * (timeout div ?d) + timeout mod ?d" "timeout mod ?d < ?d" using d by simp_all
  have "0 \<le> timeout div ?d" using assms(3) d by (simp add: pos_imp_zdiv_nonneg_iff)
  then have "int ?n = timeout div ?d + 1" by simp
  then have "int ?n * ?d = ?d * (timeout div ?d) + ?d" by (metis distrib_right mult.commute mult_1)
  with t have "now w + timeout - now w \<le> int ?n * ?d" by linarith
  from waitLoop_ends [OF assms(1,2) this]
  obtain r w' where r: "waitLoop (Suc ?n) cfg k (now w + timeout) w = Some (r, w')" "tick w' \<le> tick w + 2 * ?n + 1"
    by blast
  have ok: "\<exists>n h. x = Some n \<and> rLatestBlockNumber n = Some h"
    if "waitLoop f cfg k dl v = Some ((x, None), v')" for f dl v x v'
    using that
    by (induction f arbitrary: v) (auto simp: Let_def isPublishable_def resOption_def split: if_splits prod.splits sum.splits)
  obtain x e where x: "r = (x, e)" by fastforce
  have f: "fuel = Suc ?n" by (simp add: assms(4))
  have "waitReplicasReady fuel cfg k timeout w = Some ((x, e), w')"
    unfolding waitReplicasReady_def f using r(1) x by (simp only:)
  moreover have "tick w' \<le> tick w + 2 * fuel" unfolding f using r(2) by simp
  moreover have "e = None \<longrightarrow> (\<exists>n h. x = Some n \<and> rLatestBlockNumber n = Some h)"
    using ok r(1) x by blast
  ultimately show ?thesis by blast
qed

theorem replica_wait_ends_witness:
  "\<exists>r e w'. waitReplicasReady 102 defaultConfig 5 (2000 * Millisecond) (exClock (\<lambda>t. int t * (10 * Millisecond))) = Some ((r, e), w') \<and>
     tick w' \<le> 204"
proof -
  let ?w = "exClock (\<lambda>t. int t * (10 * Millisecond))"
  have "timely (CheckInterval defaultConfig * Millisecond) ?w"
    by (simp add: timely_def exClock_def defaultConfig_def Millisecond_def)
  from replica_wait_ends [OF this, of "2000 * Millisecond" 102 5] show ?thesis
    by (auto simp: defaultConfig_def Millisecond_def exClock_def)
qed

section \<open>Lemmas: etcd\<close>

text \<open>No other process writes to etcd meanwhile.\<close>

definition etcd_quiet :: "world \<Rightarrow> bool" where
  "etcd_quiet w = (\<forall>t s. otherEtcd w t s = s)"

abbreviation lookup :: "world \<Rightarrow> string \<Rightarrow> (string \<times> int) option" where
  "lookup w k \<equiv> map_of (pairs (etcd w)) k"

lemma etcdSettle_quiet [simp]: "etcd_quiet w \<Longrightarrow> etcdSettle w = w"
  by (simp add: etcdSettle_def etcd_quiet_def)

lemma etcd_quiet_cong [simp]:
  "etcd_quiet (advance w) = etcd_quiet w" "etcd_quiet (w\<lparr>etcd := s\<rparr>) = etcd_quiet w"
  "etcd (advance w) = etcd w"
  by (simp_all add: etcd_quiet_def advance_def)

lemma etcdTxn_cases:
  assumes "etcd_quiet w" and "etcdTxn ctx [] ops w = (r, w')"
  obtains "etcd w' = etcd w" "\<exists>e. r = Inl e" "etcd_quiet w'"
  | "etcd w' = fold runOp ops (etcd w)" "noConflict ops" "etcd_quiet w'"
  using assms
  by (auto simp: etcdTxn_def Let_def runOps_def split: if_splits option.splits fate.splits prod.splits)

lemma nodeOp_key: "nodeOp cfg s = Some op \<Longrightarrow> opKey op = nodeKey cfg (nNode s)"
  by (auto simp: nodeOp_def opKey_def split: if_splits)

lemma nodeKey_not_last: "nodeKey cfg n \<noteq> lastBlockNumberKey cfg"
  by (simp add: nodeKey_def lastBlockNumberKey_def)

lemma set_map_filter: "set (List.map_filter f xs) = {y. \<exists>x \<in> set xs. f x = Some y}"
  by (force simp: List.map_filter_def)

lemma nodeOps_keys:
  "opKey ` set (List.map_filter (nodeOp cfg) ss) = nodeKey cfg ` nNode ` {s \<in> set ss. nChangeType s \<noteq> NoChange}"
proof -
  have "\<exists>op. nodeOp cfg s = Some op \<and> opKey op = nodeKey cfg (nNode s)" if "nChangeType s \<noteq> NoChange" for s
    using that by (auto simp: nodeOp_def opKey_def)
  moreover have "nChangeType s \<noteq> NoChange" if "nodeOp cfg s = Some op" for s op
    using that by (auto simp: nodeOp_def)
  ultimately show ?thesis
    by (fastforce simp: set_map_filter image_iff dest: nodeOp_key)
qed

text \<open>The operations of a successful publication do not conflict.\<close>

lemma write_ops:
  assumes "WriteReplicaStateChangeToEtcd v r c w = (Inr (), c', w')" and "etcd_quiet w"
  obtains hops where "etcd w' = fold runOp (hops @ List.map_filter (nodeOp (config c)) (ReplicaStates r)) (etcd w)"
    and "noConflict (hops @ List.map_filter (nodeOp (config c)) (ReplicaStates r))"
    and "hops = fst (heightOps v r c)" and "opKey ` set hops \<subseteq> {lastBlockNumberKey (config c)}"
proof -
  obtain hops c1 where h: "heightOps v r c = (hops, c1)" by fastforce
  have c1: "config c1 = config c" using h by (auto simp: heightOps_def split: option.splits if_splits)
  let ?n = "List.map_filter (nodeOp (config c)) (ReplicaStates r)"
  let ?ops = "hops @ ?n"
  have e: "etcd w' = fold runOp ?ops (etcd w) \<and> noConflict ?ops"
  proof (cases "?ops = []")
    case False
    obtain x w1 where t: "etcdTxn (WithTimeout (etcdTimeout (config c)) w Background) [] ?ops w = (x, w1)" by fastforce
    with assms(1) False have "x \<noteq> Inl y" "w1 = w'" for y
      by (auto simp: WriteReplicaStateChangeToEtcd_def h c1 Let_def split: sum.splits)
    with t show ?thesis by (cases rule: etcdTxn_cases [OF assms(2) t]) auto
  qed (use assms(1) in \<open>auto simp: WriteReplicaStateChangeToEtcd_def h c1 Let_def noConflict_def\<close>)
  have hk: "opKey ` set hops \<subseteq> {lastBlockNumberKey (config c)}"
    using h by (auto simp: heightOps_def opKey_def split: option.splits if_splits)
  have "hops = fst (heightOps v r c)" by (simp add: h)
  from that [OF conjunct1 [OF e] conjunct2 [OF e] this hk] show ?thesis .
qed

text \<open>
  C30: What a successful publication leaves in etcd when nobody else writes: every replica whose state
  changed has its new state under its key with its own lease, or is gone when it went offline without
  a lease; the key of the last block number holds the new height if it changed; every other key is as it was.
\<close>

theorem replica_write_effect:
  assumes "WriteReplicaStateChangeToEtcd v r c w = (Inr (), c', w')" and "etcd_quiet w"
  shows "(\<forall>s \<in> set (ReplicaStates r). nChangeType s \<noteq> NoChange \<longrightarrow>
      lookup w' (nodeKey (config c) (nNode s)) =
        (if nChangeType s = DelNode \<and> Lease (nNode s) = 0 then None
         else Some (marshalNode (nNode s), Lease (nNode s)))) \<and>
    (\<forall>h. rLatestBlockNumber r = Some h \<and> word_of_int h \<noteq> lastWrittenBlockNumber c \<longrightarrow>
      lookup w' (lastBlockNumberKey (config c)) = Some (heightJson v h, 0)) \<and>
    (\<forall>k. k \<noteq> lastBlockNumberKey (config c) \<and>
        (\<forall>s \<in> set (ReplicaStates r). nChangeType s \<noteq> NoChange \<longrightarrow> k \<noteq> nodeKey (config c) (nNode s)) \<longrightarrow>
      lookup w' k = lookup w k)"
proof -
  obtain hops where e: "etcd w' = fold runOp (hops @ List.map_filter (nodeOp (config c)) (ReplicaStates r)) (etcd w)"
    and d: "noConflict (hops @ List.map_filter (nodeOp (config c)) (ReplicaStates r))"
    and h: "hops = fst (heightOps v r c)" and hk: "opKey ` set hops \<subseteq> {lastBlockNumberKey (config c)}"
    using assms by (rule write_ops)
  let ?ops = "hops @ List.map_filter (nodeOp (config c)) (ReplicaStates r)"
  have "\<forall>s \<in> set (ReplicaStates r). nChangeType s \<noteq> NoChange \<longrightarrow>
      lookup w' (nodeKey (config c) (nNode s)) =
        (if nChangeType s = DelNode \<and> Lease (nNode s) = 0 then None
         else Some (marshalNode (nNode s), Lease (nNode s)))"
  proof (intro ballI impI)
    fix s assume s: "s \<in> set (ReplicaStates r)" "nChangeType s \<noteq> NoChange"
    then obtain op where op: "nodeOp (config c) s = Some op" 
      by (cases "nodeOp (config c) s") (auto simp: nodeOp_def split: if_splits)
    then have "op \<in> set ?ops" using s by (auto simp: set_map_filter)
    from fold_runOp_at [OF d this] show "lookup w' (nodeKey (config c) (nNode s)) =
        (if nChangeType s = DelNode \<and> Lease (nNode s) = 0 then None
         else Some (marshalNode (nNode s), Lease (nNode s)))"
      using op s(2) by (auto simp: e nodeOp_def opKey_def opVal_def split: if_splits)
  qed
  moreover have "\<forall>h. rLatestBlockNumber r = Some h \<and> word_of_int h \<noteq> lastWrittenBlockNumber c \<longrightarrow>
      lookup w' (lastBlockNumberKey (config c)) = Some (heightJson v h, 0)"
  proof (intro allI impI)
    fix ht assume "rLatestBlockNumber r = Some ht \<and> word_of_int ht \<noteq> lastWrittenBlockNumber c"
    then have "hops = [OpPut (lastBlockNumberKey (config c)) (heightJson v ht) 0]"
      using h by (auto simp: heightOps_def)
    then show "lookup w' (lastBlockNumberKey (config c)) = Some (heightJson v ht, 0)"
      using fold_runOp_at [OF d, of "OpPut (lastBlockNumberKey (config c)) (heightJson v ht) 0"]
      by (simp add: e opKey_def opVal_def)
  qed
  moreover have "\<forall>k. k \<noteq> lastBlockNumberKey (config c) \<and>
        (\<forall>s \<in> set (ReplicaStates r). nChangeType s \<noteq> NoChange \<longrightarrow> k \<noteq> nodeKey (config c) (nNode s)) \<longrightarrow>
      lookup w' k = lookup w k"
  proof (intro allI impI)
    fix k assume "k \<noteq> lastBlockNumberKey (config c) \<and>
        (\<forall>s \<in> set (ReplicaStates r). nChangeType s \<noteq> NoChange \<longrightarrow> k \<noteq> nodeKey (config c) (nNode s))"
    then have "k \<notin> opKey ` set ?ops" using hk nodeOps_keys [of "config c" "ReplicaStates r"] by auto
    then show "lookup w' k = lookup w k" unfolding e by (rule fold_runOp_untouched)
  qed
  ultimately show ?thesis by blast
qed

definition exPub :: "ReplicaStateChangeNotification" where
  "exPub = \<lparr> rLatestBlockNumber = Some 16, ReplicaStates = [\<lparr> nNode = exNode 1\<lparr>StateType := 2\<rparr>,
     LatestBlockNumber = 9, nChangeType = UpdateNode \<rparr>] \<rparr>"

definition exLive :: world where
  "exLive = (exClock (\<lambda>_. 0))\<lparr>etcd := \<lparr> pairs = [(''56/v1/lastBlockNumber'', ''old'', 0)], leases = [7], nextLease = 8 \<rparr>\<rparr>"

lemma exChecker_last: "lastBlockNumberKey (config exChecker) = ''56/v1/lastBlockNumber''"
  by (simp add: exChecker_def defaultConfig_def lastBlockNumberKey_def IsVersionMode_def fmt_d_def) code_simp

lemma exLive_quiet [simp]: "etcd_quiet exLive"
  by (simp add: exLive_def exClock_def etcd_quiet_def)

lemma exPub_write:
  "fst (WriteReplicaStateChangeToEtcd plainSvc exPub exChecker exLive) = Inr ()"
proof -
  have "(16 :: u64) \<noteq> 0" by simp
  then show ?thesis
    by (simp add: WriteReplicaStateChangeToEtcd_def heightOps_def exPub_def exChecker_def Let_def etcdTxn_def
        nodeOp_def List.map_filter_def runOps_def opOK_def noConflict_puts nodeKey_not_last nodeKey_not_last [symmetric] exLive_def exClock_def exNode_def etcdSettle_def
        apiErr_def ctx_Err_def WithTimeout_def Background_def etcdTimeout_def defaultConfig_def
        Millisecond_def Second_def)
qed

theorem replica_write_effect_witness:
  "lookup (snd (snd (WriteReplicaStateChangeToEtcd plainSvc exPub exChecker exLive))) (lastBlockNumberKey (config exChecker)) =
     Some (heightJson plainSvc 16, 0)"
proof -
  obtain c' w' where w: "WriteReplicaStateChangeToEtcd plainSvc exPub exChecker exLive = (Inr (), c', w')"
    using exPub_write by (cases "WriteReplicaStateChangeToEtcd plainSvc exPub exChecker exLive") auto
  have "(16 :: u64) \<noteq> 0" by simp
  then have "lookup w' (lastBlockNumberKey (config exChecker)) = Some (heightJson plainSvc 16, 0)"
    using replica_write_effect [OF w exLive_quiet] by (simp add: exPub_def exChecker_def)
  then show ?thesis by (simp only: w snd_conv)
qed

text \<open>
  C32: A failed publication loses the height: it is recorded as written before the transaction commits,
  so as long as the replicas stay at this height no later publication, however successful, writes it to
  etcd.
\<close>

theorem failed_write_is_not_repeated:
  assumes "WriteReplicaStateChangeToEtcd v r c w = (Inl e, c1, w1)"
    and "rLatestBlockNumber r = Some h" and "rLatestBlockNumber r' = Some h"
    and "WriteReplicaStateChangeToEtcd v r' c1 w1' = (res, c2, w2)" and "etcd_quiet w1'" and "res = Inr ()"
  shows "lookup w2 (lastBlockNumberKey (config c1)) = lookup w1' (lastBlockNumberKey (config c1))"
proof -
  have "lastWrittenBlockNumber c1 = word_of_int h"
    using assms(1,2)
    by (auto simp: WriteReplicaStateChangeToEtcd_def heightOps_def Let_def split: if_splits sum.splits prod.splits)
  then have h: "fst (heightOps v r' c1) = []" by (simp add: heightOps_def assms(3))
  obtain hops where e: "etcd w2 = fold runOp (hops @ List.map_filter (nodeOp (config c1)) (ReplicaStates r')) (etcd w1')"
    and hops: "hops = fst (heightOps v r' c1)"
    using assms(4)[unfolded assms(6)] assms(5) by (rule write_ops)
  have "lastBlockNumberKey (config c1) \<notin> opKey ` set (List.map_filter (nodeOp (config c1)) (ReplicaStates r'))"
    unfolding nodeOps_keys using nodeKey_not_last [of "config c1"] by (auto simp: image_iff) metis
  then show ?thesis using e hops h by (simp add: fold_runOp_untouched)
qed

theorem failed_write_is_not_repeated_witness:
  "\<exists>(c1 :: Checker) (w2 :: world). lastWrittenBlockNumber c1 = 16 \<and> lookup w2 (lastBlockNumberKey (config c1)) = Some (''old'', 0)"
proof -
  let ?w = "exLive\<lparr>fate := (\<lambda>_. Fail)\<rparr>"
  have n: "(16 :: u64) \<noteq> 0" by simp
  obtain e c1 w1 where w: "WriteReplicaStateChangeToEtcd plainSvc exPub exChecker ?w = (Inl e, c1, w1)"
    and c1: "c1 = exChecker\<lparr>lastWrittenBlockNumber := 16\<rparr>"
    using n by (simp add: WriteReplicaStateChangeToEtcd_def heightOps_def exPub_def exChecker_def Let_def etcdTxn_def
        nodeOp_def List.map_filter_def runOps_def opOK_def noConflict_puts nodeKey_not_last nodeKey_not_last [symmetric] exLive_def exClock_def exNode_def etcdSettle_def
        apiErr_def ctx_Err_def WithTimeout_def Background_def etcdTimeout_def defaultConfig_def
        Millisecond_def Second_def)
  let ?r = "exPub\<lparr>ReplicaStates := []\<rparr>"
  have w2: "WriteReplicaStateChangeToEtcd plainSvc ?r c1 exLive = (Inr (), c1, exLive)"
    by (simp add: WriteReplicaStateChangeToEtcd_def heightOps_def exPub_def c1 List.map_filter_def)
  have "lookup exLive (lastBlockNumberKey (config c1)) = lookup exLive (lastBlockNumberKey (config c1))"
    by (rule failed_write_is_not_repeated [OF w _ _ w2 exLive_quiet]) (simp_all add: exPub_def)
  then show ?thesis
    by (intro exI [of _ c1] exI [of _ exLive]) (simp add: c1 exChecker_last exLive_def)
qed



end
