(* ===== verification/Ancestor.thy ===== *)
theory Ancestor
  imports Config World Extern
begin

text \<open>
  \<^verbatim>\<open>getVersionBlockByHash\<close> and \<^verbatim>\<open>GetCommonAncestor\<close> of \<^verbatim>\<open>check/check.go\<close>: reading block headers from the
  bucket and walking two branches back to where they meet. The lemmas show that whatever is returned is
  two linked branches from one block, in any environment, and that the walk ends at the fork
  point when the headers can be read.
\<close>

section \<open>Headers\<close>

definition blockFileKey :: "ext \<Rightarrow> Config \<Rightarrow> hash \<Rightarrow> string" where
  "blockFileKey x cfg h = fmt_d (ChainID cfg) @ ''/'' @ Version cfg @ ''/'' @ hashString x h"

text \<open>\<^verbatim>\<open>big.Int.Uint64\<close> is the low 64 bits of the absolute value.\<close>

definition headerOf :: "ext \<Rightarrow> hash \<Rightarrow> int \<times> string \<times> int \<Rightarrow> BlockContext" where
  "headerOf x h f = (case f of (height, parent, ts) \<Rightarrow>
     \<lparr> BlockNumber = word_of_int \<bar>height\<bar>, Hash = h, ParentHash = HexToHash x parent, Timestamp = ts \<rparr>)"

definition getVersionBlockByHash :: "ext \<Rightarrow> svc \<Rightarrow> Config \<Rightarrow> hash \<Rightarrow> world \<Rightarrow> BlockContext res \<times> world" where
  "getVersionBlockByHash x v cfg h w =
     (case GetObject Background (blockFileKey x cfg h) w of
        (Inl e, w') \<Rightarrow> (Inl e, w')
      | (Inr body, w') \<Rightarrow>
          ((case decBlockFile v body of Inl e \<Rightarrow> Inl e | Inr f \<Rightarrow> Inr (headerOf x h f)), w'))"

section \<open>The walk\<close>

text \<open>The first loop: the remote branch down to the height of the local block.\<close>

fun lowerRemote ::
  "nat \<Rightarrow> ext \<Rightarrow> svc \<Rightarrow> Config \<Rightarrow> BlockContext \<Rightarrow> BlockContext \<Rightarrow> BlockContext list \<Rightarrow> world \<Rightarrow>
    (BlockContext \<times> BlockContext list) res outcome \<times> world" where
  "lowerRemote 0 x v cfg local remote ras w = (NoFuel, w)"
| "lowerRemote (Suc fuel) x v cfg local remote ras w =
     (if BlockNumber remote > BlockNumber local
      then (case getVersionBlockByHash x v cfg (ParentHash remote) w of
              (Inl e, w') \<Rightarrow> (Done (Inl (Wrap ''failed to get remote parent block'' e)), w')
            | (Inr p, w') \<Rightarrow> lowerRemote fuel x v cfg local p (ras @ [remote]) w')
      else (Done (Inr (remote, ras)), w))"

text \<open>The second loop: both branches in step until the hashes agree.\<close>

fun walkBoth ::
  "nat \<Rightarrow> ext \<Rightarrow> svc \<Rightarrow> Config \<Rightarrow> BlockContext \<Rightarrow> BlockContext \<Rightarrow> BlockContext list \<Rightarrow> BlockContext list \<Rightarrow> world \<Rightarrow>
    (BlockContext \<times> BlockContext list \<times> BlockContext list) res outcome \<times> world" where
  "walkBoth 0 x v cfg local remote las ras w = (NoFuel, w)"
| "walkBoth (Suc fuel) x v cfg local remote las ras w =
     (if Hash local \<noteq> Hash remote
      then (case getVersionBlockByHash x v cfg (ParentHash local) w of
              (Inl e, w1) \<Rightarrow> (Done (Inl (Wrap ''failed to get local parent block'' e)), w1)
            | (Inr lp, w1) \<Rightarrow>
                (case getVersionBlockByHash x v cfg (ParentHash remote) w1 of
                   (Inl e, w2) \<Rightarrow> (Done (Inl (Wrap ''failed to get remote parent block'' e)), w2)
                 | (Inr rp, w2) \<Rightarrow> walkBoth fuel x v cfg lp rp (las @ [local]) (ras @ [remote]) w2))
      else (Done (Inr (local, rev las, rev ras)), w))"

definition GetCommonAncestor ::
  "nat \<Rightarrow> ext \<Rightarrow> svc \<Rightarrow> Config \<Rightarrow> BlockContext \<Rightarrow> BlockContext \<Rightarrow> world \<Rightarrow>
    (BlockContext \<times> BlockContext list \<times> BlockContext list) res outcome \<times> world" where
  "GetCommonAncestor fuel x v cfg localBlock remoteBlock w =
     (if Hash localBlock = ParentHash remoteBlock then (Done (Inr (localBlock, [], [remoteBlock])), w)
      else (case lowerRemote fuel x v cfg localBlock remoteBlock [] w of
              (Done (Inr (remote, ras)), w') \<Rightarrow> walkBoth fuel x v cfg localBlock remote [] ras w'
            | (Done (Inl e), w') \<Rightarrow> (Done (Inl e), w')
            | (Panic, w') \<Rightarrow> (Panic, w')
            | (NoFuel, w') \<Rightarrow> (NoFuel, w')))"

section \<open>Linked branches\<close>

text \<open>The blocks \<open>bs\<close> follow \<open>a\<close>, each the child of the one before.\<close>

fun linked :: "BlockContext \<Rightarrow> BlockContext list \<Rightarrow> bool" where
  "linked a [] = True"
| "linked a (b # bs) = (ParentHash b = Hash a \<and> linked b bs)"

text \<open>A list in walking order, newest first, that goes on to \<open>a\<close>.\<close>

fun backTo :: "BlockContext list \<Rightarrow> BlockContext \<Rightarrow> bool" where
  "backTo [] a = True"
| "backTo [b] a = (ParentHash b = Hash a)"
| "backTo (b # c # bs) a = (ParentHash b = Hash c \<and> backTo (c # bs) a)"

lemma backTo_snoc: "backTo (bs @ [b]) a \<longleftrightarrow> backTo bs b \<and> ParentHash b = Hash a"
  by (induction bs a rule: backTo.induct) auto

lemma linked_rev: "backTo bs a \<Longrightarrow> linked a (rev bs)"
proof (induction bs arbitrary: a rule: rev_induct)
  case (snoc b bs)
  then show ?case by (simp add: backTo_snoc)
qed simp

lemma backTo_cong: "Hash a = Hash b \<Longrightarrow> backTo bs a = backTo bs b"
  by (induction bs a rule: backTo.induct) auto

lemma linked_cong: "Hash a = Hash b \<Longrightarrow> linked a bs = linked b bs"
  by (cases bs) auto

lemma getVersionBlock_hash: "getVersionBlockByHash x v cfg h w = (Inr b, w') \<Longrightarrow> Hash b = h"
  by (auto simp: getVersionBlockByHash_def headerOf_def split: prod.splits sum.splits)

lemma hd_snoc2: "hd ((xs @ [a]) @ [b]) = hd (xs @ [a])"
  by (cases xs) auto

lemma lowerRemote_sound:
  assumes "lowerRemote fuel x v cfg local remote ras w = (Done (Inr (r, ras')), w')" and "backTo ras remote"
  shows "backTo ras' r \<and> hd (ras' @ [r]) = hd (ras @ [remote])"
  using assms
proof (induction fuel arbitrary: remote ras w)
  case (Suc fuel)
  show ?case
  proof (cases "BlockNumber remote > BlockNumber local")
    case True
    with Suc.prems(1) obtain p w1 where g: "getVersionBlockByHash x v cfg (ParentHash remote) w = (Inr p, w1)"
      "lowerRemote fuel x v cfg local p (ras @ [remote]) w1 = (Done (Inr (r, ras')), w')"
      by (auto split: prod.splits sum.splits)
    have "backTo (ras @ [remote]) p" using Suc.prems(2) getVersionBlock_hash [OF g(1)] by (simp add: backTo_snoc)
    from Suc.IH [OF g(2) this] show ?thesis by (auto simp: hd_append)
  qed (use Suc.prems in auto)
qed simp

text \<open>The blocks visited in step differ pairwise; \<open>ras\<close> starts with the blocks of the first loop.\<close>

definition apart :: "BlockContext list \<Rightarrow> BlockContext list \<Rightarrow> bool" where
  "apart las ras = (\<exists>r0 ps. ras = r0 @ ps \<and> list_all2 (\<lambda>a b. Hash a \<noteq> Hash b) las ps)"

lemma apart_snoc: "apart las ras \<Longrightarrow> Hash a \<noteq> Hash b \<Longrightarrow> apart (las @ [a]) (ras @ [b])"
proof -
  assume "apart las ras" and ab: "Hash a \<noteq> Hash b"
  then obtain r0 ps where r: "ras = r0 @ ps" "list_all2 (\<lambda>a b. Hash a \<noteq> Hash b) las ps"
    by (auto simp: apart_def)
  have "list_all2 (\<lambda>a b. Hash a \<noteq> Hash b) (las @ [a]) (ps @ [b])"
    using r(2) ab by (simp add: list_all2_appendI)
  with r(1) show ?thesis unfolding apart_def by (intro exI [of _ r0] exI [of _ "ps @ [b]"]) simp
qed

lemma apart_rev:
  assumes "apart las ras"
  shows "list_all2 (\<lambda>a b. Hash a \<noteq> Hash b) (rev las) (take (length las) (rev ras))"
proof -
  obtain r0 ps where r: "ras = r0 @ ps" "list_all2 (\<lambda>a b. Hash a \<noteq> Hash b) las ps"
    using assms by (auto simp: apart_def)
  then have "length las = length ps" by (simp add: list_all2_lengthD)
  with r show ?thesis by simp
qed

lemma walkBoth_sound:
  assumes "walkBoth fuel x v cfg local remote las ras w = (Done (Inr (anc, ls, rs)), w')"
    and "backTo las local" "backTo ras remote" "apart las ras"
  shows "\<exists>las' ras' remote'. ls = rev las' \<and> rs = rev ras' \<and> backTo las' anc \<and> backTo ras' remote' \<and>
    Hash remote' = Hash anc \<and> apart las' ras' \<and>
    hd (las' @ [anc]) = hd (las @ [local]) \<and> hd (ras' @ [remote']) = hd (ras @ [remote])"
  using assms
proof (induction fuel arbitrary: local remote las ras w)
  case (Suc fuel)
  show ?case
  proof (cases "Hash local = Hash remote")
    case False
    with Suc.prems(1) obtain lp w1 rp w2 where
      g: "getVersionBlockByHash x v cfg (ParentHash local) w = (Inr lp, w1)"
        "getVersionBlockByHash x v cfg (ParentHash remote) w1 = (Inr rp, w2)"
      and r: "walkBoth fuel x v cfg lp rp (las @ [local]) (ras @ [remote]) w2 = (Done (Inr (anc, ls, rs)), w')"
      by (auto split: prod.splits sum.splits)
    have "backTo (las @ [local]) lp" "backTo (ras @ [remote]) rp"
      using Suc.prems(2,3) getVersionBlock_hash [OF g(1)] getVersionBlock_hash [OF g(2)]
      by (simp_all add: backTo_snoc)
    from Suc.IH [OF r this apart_snoc [OF Suc.prems(4) False]] show ?thesis unfolding hd_snoc2 .
  qed (use Suc.prems in auto)
qed simp

lemma hd_walk: "hd (xs @ [a]) = t \<Longrightarrow> last (a # rev xs) = t"
  by (cases xs) auto

lemma ancestor_sound:
  assumes "GetCommonAncestor fuel x v cfg local remote w = (Done (Inr (anc, ls, rs)), w')"
  shows "linked anc ls \<and> linked anc rs \<and> last (anc # ls) = local \<and>
      (if rs = [] then Hash anc = Hash remote else last rs = remote) \<and>
      list_all2 (\<lambda>a b. Hash a \<noteq> Hash b) ls (take (length ls) rs)"
proof -
  consider (child) "Hash local = ParentHash remote" "anc = local" "ls = []" "rs = [remote]"
    | (walk) r ras w1 where "lowerRemote fuel x v cfg local remote [] w = (Done (Inr (r, ras)), w1)"
      "walkBoth fuel x v cfg local r [] ras w1 = (Done (Inr (anc, ls, rs)), w')"
    using assms by (auto simp: GetCommonAncestor_def split: if_splits prod.splits outcome.splits sum.splits)
  then show ?thesis
  proof cases
    case child
    then show ?thesis by simp
  next
    case walk
    have b: "backTo ras r" "hd (ras @ [r]) = remote" using lowerRemote_sound [OF walk(1)] by simp_all
    have "apart [] ras" by (auto simp: apart_def)
    with walkBoth_sound [OF walk(2) _ b(1)] obtain las' ras' r' where
      e: "ls = rev las'" "rs = rev ras'" "backTo las' anc" "backTo ras' r'" "Hash r' = Hash anc"
        "apart las' ras'" "hd (las' @ [anc]) = local" "hd (ras' @ [r']) = hd (ras @ [r])"
      by auto
    have "linked anc rs" using linked_rev [OF e(4)] linked_cong [OF e(5)] e(2) by simp
    moreover have "if rs = [] then Hash anc = Hash remote else last rs = remote"
      using hd_walk [OF e(8)] b(2) e(2,5) by (cases "ras'") auto
    moreover have "list_all2 (\<lambda>a b. Hash a \<noteq> Hash b) ls (take (length ls) rs)"
      using apart_rev [OF e(6)] e(1,2) by simp
    moreover have "linked anc ls" "last (anc # ls) = local"
      using linked_rev [OF e(3)] hd_walk [OF e(7)] e(1) by simp_all
    ultimately show ?thesis by blast
  qed
qed

text \<open>
  C35: Whatever the bucket contains and however requests fail, an answer of the ancestor search is
  right: both lists are linked chains that start at a child of the returned block, the local
  one ends at the local block and the remote one at the remote block (or at a block with its hash
  when the list is empty), and the two branches differ at every height above the ancestor.
\<close>

theorem common_ancestor_is_sound:
  assumes "GetCommonAncestor fuel x v cfg local remote w = (Done (Inr (anc, ls, rs)), w')"
  shows "linked anc ls \<and> linked anc rs \<and> last (anc # ls) = local \<and>
    (if rs = [] then Hash anc = Hash remote else last rs = remote) \<and>
    list_all2 (\<lambda>a b. Hash a \<noteq> Hash b) ls (take (length ls) rs)"
  using assms by (rule ancestor_sound)

section \<open>Finding the fork point\<close>

text \<open>The bucket answers, nobody else writes to it, and the header of \<open>b\<close> is in it.\<close>

definition answering :: "world \<Rightarrow> bool" where
  "answering w = (no_uploads w \<and> fate_ok w)"

definition readable :: "ext \<Rightarrow> svc \<Rightarrow> Config \<Rightarrow> (string \<times> bytes) list \<Rightarrow> BlockContext \<Rightarrow> bool" where
  "readable x v cfg ob b = (case map_of ob (blockFileKey x cfg (Hash b)) of
     None \<Rightarrow> False
   | Some body \<Rightarrow> (case decBlockFile v body of Inl _ \<Rightarrow> False | Inr f \<Rightarrow> headerOf x (Hash b) f = b))"

lemma answering_advance [simp]: "answering (advance w) = answering w"
  by (simp add: answering_def fate_ok_def advance_def no_uploads_def)

lemma getVersionBlock_readable:
  assumes "answering w" and "readable x v cfg (objects w) b"
  shows "getVersionBlockByHash x v cfg (Hash b) w = (Inr b, advance w)"
  using assms
  by (auto simp: getVersionBlockByHash_def GetObject_def Let_def answering_def fate_ok_def readable_def
      apiErr_def ctx_Err_def Background_def split: option.splits sum.splits)

lemma linked_snoc: "linked a (bs @ [b]) \<longleftrightarrow> linked a bs \<and> ParentHash b = Hash (last (a # bs))"
  by (induction a bs rule: linked.induct) auto

lemma lowerRemote_complete:
  assumes "linked a bs" and "\<forall>b \<in> set bs. BlockNumber local < BlockNumber b" and "\<not> BlockNumber local < BlockNumber a"
    and "answering w" and "\<forall>b \<in> set (a # bs). readable x v cfg (objects w) b" and "length bs < fuel"
  shows "\<exists>w'. lowerRemote fuel x v cfg local (last (a # bs)) ras w = (Done (Inr (a, ras @ rev bs)), w') \<and>
    answering w' \<and> objects w' = objects w"
  using assms
proof (induction bs arbitrary: w ras fuel rule: rev_induct)
  case Nil
  then show ?case by (cases fuel) auto
next
  case (snoc b bs)
  obtain f where f: "fuel = Suc f" using snoc.prems(6) by (cases fuel) auto
  let ?p = "last (a # bs)"
  have "readable x v cfg (objects w) ?p" using snoc.prems(5) by (cases bs) auto
  from getVersionBlock_readable [OF snoc.prems(4) this]
  have g: "getVersionBlockByHash x v cfg (ParentHash b) w = (Inr ?p, advance w)"
    using snoc.prems(1) by (simp add: linked_snoc)
  have "\<exists>w'. lowerRemote f x v cfg local ?p (ras @ [b]) (advance w) = (Done (Inr (a, (ras @ [b]) @ rev bs)), w') \<and>
      answering w' \<and> objects w' = objects (advance w)"
    using snoc.prems f by (intro snoc.IH) (auto simp: linked_snoc)
  then show ?case using snoc.prems(2) by (simp add: f g)
qed

lemma walkBoth_complete:
  assumes "list_all2 (\<lambda>a b. Hash a \<noteq> Hash b) ls rs" and "linked anc ls" and "linked anc rs"
    and "answering w" and "\<forall>b \<in> set (anc # ls @ rs). readable x v cfg (objects w) b" and "length ls < fuel"
  shows "\<exists>w'. walkBoth fuel x v cfg (last (anc # ls)) (last (anc # rs)) las ras w =
    (Done (Inr (anc, ls @ rev las, rs @ rev ras)), w')"
  using assms
proof (induction ls arbitrary: rs w las ras fuel rule: rev_induct)
  case Nil
  then show ?case by (cases fuel) auto
next
  case (snoc a ls)
  obtain b rs' where rs: "rs = rs' @ [b]"
    using snoc.prems(1) by (cases rs rule: rev_cases) auto
  have d: "list_all2 (\<lambda>a b. Hash a \<noteq> Hash b) ls rs'" "Hash a \<noteq> Hash b"
    using snoc.prems(1) list_all2_append [of ls rs' _ "[a]" "[b]"] list_all2_lengthD [OF snoc.prems(1)]
    by (simp_all add: rs)
  obtain f where f: "fuel = Suc f" using snoc.prems(6) by (cases fuel) auto
  let ?lp = "last (anc # ls)" and ?rp = "last (anc # rs')"
  have r: "readable x v cfg (objects w) ?lp" "readable x v cfg (objects (advance w)) ?rp"
    using snoc.prems(5) by (auto simp: rs)
  have g: "getVersionBlockByHash x v cfg (ParentHash a) w = (Inr ?lp, advance w)"
    "getVersionBlockByHash x v cfg (ParentHash b) (advance w) = (Inr ?rp, advance (advance w))"
    using getVersionBlock_readable [OF _ r(1)] getVersionBlock_readable [OF _ r(2)] snoc.prems(2-4)
    by (auto simp: rs linked_snoc)
  have "\<exists>w'. walkBoth f x v cfg ?lp ?rp (las @ [a]) (ras @ [b]) (advance (advance w)) =
      (Done (Inr (anc, ls @ rev (las @ [a]), rs' @ rev (ras @ [b]))), w')"
    using snoc.prems f d(1) by (intro snoc.IH) (auto simp: rs linked_snoc)
  then show ?case using d(2) by (simp add: f g rs)
qed

lemma contiguous_step:
  "contiguous (a # bs @ cs) \<Longrightarrow> c \<in> set cs \<Longrightarrow> BlockNumber (last (a # bs)) < BlockNumber c"
proof -
  assume c: "contiguous (a # bs @ cs)" "c \<in> set cs"
  have "ascending ((a # bs) @ cs)" using contiguous_ascending [OF c(1)] by simp
  then show ?thesis using c(2) by (auto simp: ascending_def sorted_wrt_append)
qed

lemma contiguous_height: "contiguous (a # bs) \<Longrightarrow> BlockNumber (last (a # bs)) = BlockNumber a + of_nat (length bs)"
proof (induction bs arbitrary: a)
  case (Cons b bs)
  then have "BlockNumber (last (b # bs)) = BlockNumber b + of_nat (length bs)" by simp
  with Cons.prems show ?case by simp
qed simp

lemma contiguous_prefix: "contiguous (bs @ cs) \<Longrightarrow> contiguous bs"
  by (induction bs rule: contiguous.induct) (auto elim: contiguous.elims)

lemma child_case:
  assumes "linked anc rs" and "rs \<noteq> []" and "distinct (map Hash (anc # ls @ rs))"
    and "Hash (last (anc # ls)) = ParentHash (last (anc # rs))"
  shows "ls = [] \<and> (\<exists>t. rs = [t])"
proof -
  obtain q t where q: "rs = q @ [t]" using assms(2) by (cases rs rule: rev_cases) auto
  have eq: "Hash (last (anc # ls)) = Hash (last (anc # q))"
    using assms(1,4) by (simp add: q linked_snoc)
  have "ls = []"
  proof (rule ccontr)
    assume "ls \<noteq> []"
    then have "Hash (last (anc # ls)) \<in> Hash ` set ls" by simp
    moreover have "Hash (last (anc # q)) \<in> Hash ` set (anc # q)" by simp
    ultimately show False using eq assms(3) by (auto simp: q)
  qed
  moreover have "q = []"
  proof (rule ccontr)
    assume "q \<noteq> []"
    then have "Hash (last (anc # q)) \<in> Hash ` set q" by simp
    then show False using eq assms(3) \<open>ls = []\<close> by (simp add: q)
  qed
  ultimately show ?thesis by (simp add: q)
qed

lemma common_ancestor_complete:
  assumes "linked anc ls" "linked anc rs" and "contiguous (anc # ls)" "contiguous (anc # rs)"
    and "length ls \<le> length rs" and "rs \<noteq> []" and "distinct (map Hash (anc # ls @ rs))"
    and "answering w" and "\<forall>b \<in> set (anc # ls @ rs). readable x v cfg (objects w) b"
    and "length rs < fuel"
  shows "\<exists>w'. GetCommonAncestor fuel x v cfg (last (anc # ls)) (last (anc # rs)) w = (Done (Inr (anc, ls, rs)), w')"
proof -
  let ?local = "last (anc # ls)" and ?remote = "last (anc # rs)"
  define r1 r2 where "r1 = take (length ls) rs" and "r2 = drop (length ls) rs"
  have rs: "rs = r1 @ r2" "length r1 = length ls" using assms(5) by (simp_all add: r1_def r2_def)
  show ?thesis
  proof (cases "Hash ?local = ParentHash ?remote")
    case True
    from child_case [OF assms(2,6,7) this] show ?thesis
      using True by (auto simp: GetCommonAncestor_def)
  next
    case False
    have same: "BlockNumber (last (anc # r1)) = BlockNumber ?local"
      using contiguous_height [OF assms(3)] contiguous_height [of anc r1] contiguous_prefix [of "anc # r1" r2]
        assms(4) rs by simp
    have "linked (last (anc # r1)) r2" using assms(2) unfolding rs
      by (induction r1 arbitrary: anc) auto
    moreover have "\<forall>b \<in> set r2. BlockNumber ?local < BlockNumber b"
      using contiguous_step [of anc r1 r2] assms(4) rs same by auto
    moreover have "\<forall>b \<in> set (last (anc # r1) # r2). readable x v cfg (objects w) b"
      using assms(9) rs by auto
    ultimately obtain w1 where l: "lowerRemote fuel x v cfg ?local (last (last (anc # r1) # r2)) [] w =
        (Done (Inr (last (anc # r1), [] @ rev r2)), w1)" "answering w1" "objects w1 = objects w"
      using lowerRemote_complete [of "last (anc # r1)" r2 ?local w x v cfg fuel "[]"] assms(8,10) rs same by auto
    have "list_all2 (\<lambda>a b. Hash a \<noteq> Hash b) ls r1"
    proof (rule list_all2_all_nthI)
      fix n assume n: "n < length ls"
      then have "ls ! n \<in> set ls" "r1 ! n \<in> set rs" using rs by auto
      then show "Hash (ls ! n) \<noteq> Hash (r1 ! n)" using assms(7) by auto
    qed (simp add: rs)
    moreover have "linked anc r1" using assms(2) unfolding rs by (induction r1 arbitrary: anc) auto
    ultimately have "\<exists>w'. walkBoth fuel x v cfg ?local (last (anc # r1)) [] (rev r2) w1 =
        (Done (Inr (anc, ls @ rev [], r1 @ rev (rev r2))), w')"
      using assms l rs by (intro walkBoth_complete) auto
    moreover have rem: "last (last (anc # r1) # r2) = ?remote" by (simp add: rs)
    moreover have "GetCommonAncestor fuel x v cfg ?local ?remote w =
        walkBoth fuel x v cfg ?local (last (anc # r1)) [] (rev r2) w1"
      using l(1) [unfolded rem] False
      by (simp only: GetCommonAncestor_def if_False append_Nil prod.case outcome.case sum.case)
    ultimately show ?thesis by (simp add: rs(1))
  qed
qed

text \<open>
  C36: When the bucket answers and holds the headers, the search ends and finds exactly the fork:
  for two branches above a common block with consecutive heights, the local one not longer than the
  remote one and no hash in both, it returns this block and both branches, with fuel for as many
  steps as the remote branch is long.
\<close>

theorem common_ancestor_is_found:
  assumes "linked anc ls" "linked anc rs" and "contiguous (anc # ls)" "contiguous (anc # rs)"
    and "length ls \<le> length rs" and "rs \<noteq> []" and "distinct (map Hash (anc # ls @ rs))"
    and "answering w" and "\<forall>b \<in> set (anc # ls @ rs). readable x v cfg (objects w) b"
    and "length rs < fuel"
  shows "\<exists>w'. GetCommonAncestor fuel x v cfg (last (anc # ls)) (last (anc # rs)) w = (Done (Inr (anc, ls, rs)), w')"
  using assms by (rule common_ancestor_complete)

subsection \<open>Examples\<close>

text \<open>A bucket with the block files of some blocks.\<close>

definition exFile :: "BlockContext \<Rightarrow> bytes" where
  "exFile b = str_bytes (fmt_d (uint (BlockNumber b)) @ ''/'' @ hashString hexExt (ParentHash b) @ ''/'' @ fmt_d (Timestamp b))"

definition exFiles :: "Config \<Rightarrow> BlockContext list \<Rightarrow> (string \<times> bytes) list" where
  "exFiles cfg bs = map (\<lambda>b. (blockFileKey hexExt cfg (Hash b), exFile b)) bs"

lemma hexToHash_hexString: "HexToHash hexExt (hashString hexExt h) = h"
  by (simp add: hexExt_def hexToHash_def hexString_def hex_decode_encode TrimPrefix_def)

lemma exFile_header: "plainBlockFile (exFile b) = Inr (uint (BlockNumber b), hashString hexExt (ParentHash b), Timestamp b)"
  by (simp add: plainBlockFile_def exFile_def split_slash_cons split_slash_plain hexc.hash_no_slash)

lemma exFiles_lookup:
  "distinct (map Hash bs) \<Longrightarrow> b \<in> set bs \<Longrightarrow> map_of (exFiles cfg bs) (blockFileKey hexExt cfg (Hash b)) = Some (exFile b)"
  by (rule map_of_is_SomeI)
    (auto simp: exFiles_def comp_def distinct_map inj_on_def blockFileKey_def hexc.hashString_inject)

lemma exFiles_readable:
  assumes "distinct (map Hash bs)" and "b \<in> set bs"
  shows "readable hexExt plainSvc cfg (exFiles cfg bs) b"
  using exFiles_lookup [OF assms, of cfg] exFile_header [of b]
  by (simp add: readable_def plainSvc_def headerOf_def hexToHash_hexString)

text \<open>Block 4 with the children 11 and 12, and 13 on top of 12.\<close>

definition exFork :: "BlockContext list" where
  "exFork = [\<lparr> BlockNumber = 4, Hash = 10, ParentHash = 9, Timestamp = 40 \<rparr>,
     \<lparr> BlockNumber = 5, Hash = 11, ParentHash = 10, Timestamp = 50 \<rparr>,
     \<lparr> BlockNumber = 5, Hash = 12, ParentHash = 10, Timestamp = 51 \<rparr>,
     \<lparr> BlockNumber = 6, Hash = 13, ParentHash = 12, Timestamp = 61 \<rparr>]"

definition exBlocks :: world where
  "exBlocks = \<lparr> tick = 0, clock = (\<lambda>_. 0), quit = (\<lambda>_. False), fate = (\<lambda>_. Ack), uploads = (\<lambda>_. []),
     objects = exFiles defaultConfig exFork, pageFuel = 3, topics = (\<lambda>_. emptyTopic), otherTopics = (\<lambda>_ t. t),
     etcd = \<lparr> pairs = [], leases = [], nextLease = 1 \<rparr>, otherEtcd = (\<lambda>_ s. s), rpc = (\<lambda>_ _ _ _. Inl IOErr),
     registry = (\<lambda>_. NewRWMap) \<rparr>"

lemma exBlocks_ok: "answering exBlocks" "b \<in> set exFork \<Longrightarrow> readable hexExt plainSvc defaultConfig (objects exBlocks) b"
proof -
  show "answering exBlocks" by (simp add: answering_def exBlocks_def no_uploads_def fate_ok_def)
  have "distinct (map Hash exFork)" by (simp add: exFork_def)
  then show "b \<in> set exFork \<Longrightarrow> readable hexExt plainSvc defaultConfig (objects exBlocks) b"
    using exFiles_readable by (simp add: exBlocks_def)
qed

lemma exFork_facts:
  "linked (exFork ! 0) [exFork ! 1]" "linked (exFork ! 0) [exFork ! 2, exFork ! 3]"
  "contiguous [exFork ! 0, exFork ! 1]" "contiguous [exFork ! 0, exFork ! 2, exFork ! 3]"
  "distinct (map Hash (exFork ! 0 # [exFork ! 1] @ [exFork ! 2, exFork ! 3]))"
  "b \<in> set (exFork ! 0 # [exFork ! 1] @ [exFork ! 2, exFork ! 3]) \<Longrightarrow> b \<in> set exFork"
  by (auto simp: exFork_def MaxUint64_def)

theorem common_ancestor_is_found_witness:
  "\<exists>w'. GetCommonAncestor 3 hexExt plainSvc defaultConfig (exFork ! 1) (exFork ! 3) exBlocks =
     (Done (Inr (exFork ! 0, [exFork ! 1], [exFork ! 2, exFork ! 3])), w')"
  using common_ancestor_is_found [OF exFork_facts(1-4) _ _ exFork_facts(5) exBlocks_ok(1), of hexExt plainSvc defaultConfig 3]
    exBlocks_ok(2) exFork_facts(6) by auto

theorem common_ancestor_is_sound_witness:
  "\<exists>(anc :: BlockContext) rs w'. GetCommonAncestor 3 hexExt plainSvc defaultConfig (exFork ! 1) (exFork ! 3) exBlocks =
     (Done (Inr (anc, [exFork ! 1], rs)), w') \<and> linked anc rs"
proof -
  obtain w' where w: "GetCommonAncestor 3 hexExt plainSvc defaultConfig (exFork ! 1) (exFork ! 3) exBlocks =
     (Done (Inr (exFork ! 0, [exFork ! 1], [exFork ! 2, exFork ! 3])), w')"
    using common_ancestor_complete [OF exFork_facts(1-4) _ _ exFork_facts(5) exBlocks_ok(1), of hexExt plainSvc defaultConfig 3]
      exBlocks_ok(2) exFork_facts(6) by auto
  with common_ancestor_is_sound [OF w] show ?thesis by blast
qed

end
