(* ===== verification/Leader.thy ===== *)
theory Leader
  imports CheckerState World
begin

text \<open>
  Leadership of a chain: the lock of \<^verbatim>\<open>check/etcd_lock.go\<close> on a leased key in etcd, and the operations of
  \<^verbatim>\<open>check/check.go\<close> that take and give up the leadership as the configured version changes. The lemmas
  show that at most one process with a live lease is leader, in every interleaving of processes,
  expiring leases, lost answers and other clients.
\<close>

section \<open>The lock\<close>

definition NewLock :: "string \<Rightarrow> string \<Rightarrow> string \<Rightarrow> int \<Rightarrow> EtcdLock" where
  "NewLock lk vk version ttl = \<lparr> leaderKey = lk, versionKey = vk, lockVersion = version, lockTTL = ttl,
     lease = 0, cancelled = False \<rparr>"

definition lockCmps :: "EtcdLock \<Rightarrow> etcdCmp list" where
  "lockCmps l = [CmpAbsent (leaderKey l), CmpValue (versionKey l) (lockVersion l)]"

definition lockOps :: "EtcdLock \<Rightarrow> etcdOp list" where
  "lockOps l = [OpPut (leaderKey l) (lockVersion l) (lease l)]"

definition etcdGrant :: "world \<Rightarrow> int res \<times> world" where
  "etcdGrant w0 = (let w = etcdSettle w0 in case grantLease (etcd w) of (i, s') \<Rightarrow>
     (case fate w (tick w) of
        Ack \<Rightarrow> (Inr i, advance (w\<lparr>etcd := s'\<rparr>))
      | LostAck \<Rightarrow> (Inl IOErr, advance (w\<lparr>etcd := s'\<rparr>))
      | Fail \<Rightarrow> (Inl IOErr, advance w)))"

text \<open>The result of a revocation is ignored by its only caller.\<close>

definition etcdRevoke :: "int \<Rightarrow> world \<Rightarrow> world" where
  "etcdRevoke i w0 = (let w = etcdSettle w0 in
     advance (if fate w (tick w) = Fail then w else w\<lparr>etcd := dropLease i (etcd w)\<rparr>))"

definition Release :: "EtcdLock \<Rightarrow> world \<Rightarrow> EtcdLock \<times> world" where
  "Release l w = (l\<lparr>lease := 0, cancelled := True\<rparr>, if lease l \<noteq> 0 then etcdRevoke (lease l) w else w)"

definition giveUp :: "EtcdLock \<Rightarrow> world \<Rightarrow> bool outcome \<times> EtcdLock \<times> world" where
  "giveUp l w = (case Release l w of (l', w') \<Rightarrow> (Done False, l', w'))"

text \<open>
  The acquisition loop. The failing branch of the transaction returns both keys as they are at that
  moment. The wait for the holder ends at the next tick, with an event or an error of the watch,
  unless the context of the lock is done.
\<close>

fun acquireLoop :: "nat \<Rightarrow> EtcdLock \<Rightarrow> world \<Rightarrow> bool outcome \<times> EtcdLock \<times> world" where
  "acquireLoop 0 l w = (NoFuel, l, w)"
| "acquireLoop (Suc fuel) l w =
     (case etcdTxn Background (lockCmps l) (lockOps l) w of
        (Inl e, w1) \<Rightarrow> giveUp l w1
      | (Inr True, w1) \<Rightarrow> (Done True, l, w1)
      | (Inr False, w1) \<Rightarrow>
          (case etcdGet (versionKey l) (etcd w1) of
             None \<Rightarrow> giveUp l w1
           | Some current \<Rightarrow>
               if current \<noteq> lockVersion l then giveUp l w1
               else if etcdGet (leaderKey l) (etcd w1) = None then acquireLoop fuel l w1
               else if cancelled l then giveUp l (advance w1)
               else acquireLoop fuel l (advance w1)))"

definition Acquire :: "nat \<Rightarrow> EtcdLock \<Rightarrow> world \<Rightarrow> bool outcome \<times> EtcdLock \<times> world" where
  "Acquire fuel l w = (let l0 = l\<lparr>cancelled := False\<rparr> in
     case etcdGrant w of
       (Inl e, w1) \<Rightarrow> (Done False, l0, w1)
     | (Inr i, w1) \<Rightarrow> acquireLoop fuel (l0\<lparr>lease := i\<rparr>) w1)"

text \<open>
  The watch dog. A beat is a tick of its timer with the result of the renewal, or the end of the
  context. A timer with interval zero panics.
\<close>

datatype beat = Renewal "unit res" | CtxDone

datatype dogEnd = Lost | Stopped | Watching nat

definition maxFail :: nat where
  "maxFail = 3"

fun dogLoop :: "nat \<Rightarrow> beat list \<Rightarrow> dogEnd" where
  "dogLoop failCount [] = Watching failCount"
| "dogLoop failCount (CtxDone # bs) = Stopped"
| "dogLoop failCount (Renewal (Inr _) # bs) = dogLoop 0 bs"
| "dogLoop failCount (Renewal (Inl e) # bs) =
     (if Suc failCount \<ge> maxFail then Lost else dogLoop (Suc failCount) bs)"

definition WatchDog :: "EtcdLock \<Rightarrow> beat list \<Rightarrow> dogEnd outcome" where
  "WatchDog l beats = (if lockTTL l div 4 \<le> 0 then Panic else Done (dogLoop 0 beats))"

section \<open>Taking and giving up leadership\<close>

definition outerVersionKey :: "Config \<Rightarrow> string" where
  "outerVersionKey cfg = fmt_d (ChainID cfg) @ ''/version''"

definition ChangeToChainLeader :: "nat \<Rightarrow> Checker \<Rightarrow> world \<Rightarrow> unit res outcome \<times> Checker \<times> world" where
  "ChangeToChainLeader fuel c w =
     (if etcdLock c \<noteq> None then (Done (Inr ()), c, w)
      else (case Acquire fuel (NewLock (fmt_d (ChainID (config c)) @ ''/outer_block_notice'') (outerVersionKey (config c))
                   (Version (config c)) (EtcdLockTTL (config c))) w of
              (Done True, l, w') \<Rightarrow> (Done (Inr ()), c\<lparr>etcdLock := Some l\<rparr>, w')
            | (Done False, l, w') \<Rightarrow> (Done (Inl (Msg ''acquire etcd lock failed'')), c, w')
            | (Panic, l, w') \<Rightarrow> (Panic, c, w')
            | (NoFuel, l, w') \<Rightarrow> (NoFuel, c, w')))"

definition RevokeChainLeader :: "Checker \<Rightarrow> world \<Rightarrow> Checker \<times> world" where
  "RevokeChainLeader c w = (case etcdLock c of
     None \<Rightarrow> (c, w)
   | Some l \<Rightarrow> (case Release l w of (_, w') \<Rightarrow> (c\<lparr>etcdLock := None, isOuterSingletonAlign := False\<rparr>, w')))"

text \<open>The callback of the watch dog: the lease is marked as gone, then the leadership is given up.\<close>

definition onLost :: "Checker \<Rightarrow> world \<Rightarrow> Checker \<times> world" where
  "onLost c w = RevokeChainLeader (c\<lparr>etcdLock := map_option (\<lambda>l. l\<lparr>lease := 0\<rparr>) (etcdLock c)\<rparr>) w"

definition InitLeaderFromEtcd :: "nat \<Rightarrow> Checker \<Rightarrow> world \<Rightarrow> unit res outcome \<times> Checker \<times> world" where
  "InitLeaderFromEtcd fuel c w =
     (case etcdRead Background (outerVersionKey (config c)) w of
        (Inl e, w1) \<Rightarrow> (Done (Inl e), c, w1)
      | (Inr None, w1) \<Rightarrow> (Done (Inr ()), c, w1)
      | (Inr (Some ver), w1) \<Rightarrow>
          if ver = Version (config c) then ChangeToChainLeader fuel c w1 else (Done (Inr ()), c, w1))"

text \<open>One tick of the periodic check; an error of the acquisition is only logged.\<close>

definition versionCheck :: "nat \<Rightarrow> Checker \<Rightarrow> world \<Rightarrow> unit outcome \<times> Checker \<times> world" where
  "versionCheck fuel c w =
     (case etcdRead Background (outerVersionKey (config c)) w of
        (Inl e, w1) \<Rightarrow> (Done (), c, w1)
      | (Inr (Some ver), w1) \<Rightarrow>
          if ver = Version (config c)
          then (if etcdLock c = None
                then (case ChangeToChainLeader fuel c w1 of
                        (Done _, c', w') \<Rightarrow> (Done (), c', w')
                      | (Panic, c', w') \<Rightarrow> (Panic, c', w')
                      | (NoFuel, c', w') \<Rightarrow> (NoFuel, c', w'))
                else (Done (), c, w1))
          else (case RevokeChainLeader c w1 of (c', w') \<Rightarrow> (Done (), c', w'))
      | (Inr None, w1) \<Rightarrow> (case RevokeChainLeader c w1 of (c', w') \<Rightarrow> (Done (), c', w')))"

section \<open>Processes sharing a lock\<close>

text \<open>
  The processes of a chain, each with its lock object and whether its checker is leader (\<^verbatim>\<open>c.etcdLock\<close> is
  set). The steps are those of the operations above: granting a lease, the transaction (also with a
  lost answer), releasing (also when the revocation does not arrive), and the watch dog giving up.
  Besides, leases expire, and other clients grant leases and write other keys.
\<close>

record lsys =
  lstore :: etcd
  locks :: "nat \<Rightarrow> EtcdLock"
  leader :: "nat \<Rightarrow> bool"

definition setLock :: "nat \<Rightarrow> EtcdLock \<Rightarrow> bool \<Rightarrow> etcd \<Rightarrow> lsys \<Rightarrow> lsys" where
  "setLock i l b s sys = sys\<lparr>lstore := s, locks := (locks sys)(i := l), leader := (leader sys)(i := b)\<rparr>"

definition lock_init :: "string \<Rightarrow> lsys \<Rightarrow> bool" where
  "lock_init lk sys = (etcd_wf (lstore sys) \<and> (\<forall>i. leaderKey (locks sys i) = lk \<and> lease (locks sys i) = 0 \<and> \<not> leader sys i))"

inductive lock_step :: "string \<Rightarrow> lsys \<Rightarrow> lsys \<Rightarrow> bool" for lk where
  grant: "\<not> leader sys i \<Longrightarrow> lease (locks sys i) = 0 \<Longrightarrow> grantLease (lstore sys) = (id', s') \<Longrightarrow>
    lock_step lk sys (setLock i ((locks sys i)\<lparr>lease := id'\<rparr>) False s' sys)"
| acquire: "\<not> leader sys i \<Longrightarrow> lease (locks sys i) \<noteq> 0 \<Longrightarrow> list_all (holdsCmp (lstore sys)) (lockCmps (locks sys i)) \<Longrightarrow>
    runOps (lockOps (locks sys i)) (lstore sys) = Some s' \<Longrightarrow>
    lock_step lk sys (setLock i (locks sys i) b s' sys)"
| release: "lock_step lk sys (setLock i (fst (Release (locks sys i) w)) False
    (if lease (locks sys i) \<noteq> 0 \<and> arrived then dropLease (lease (locks sys i)) (lstore sys) else lstore sys) sys)"
| lost: "leader sys i \<Longrightarrow> dogLoop 0 beats = Lost \<Longrightarrow>
    lock_step lk sys (setLock i ((locks sys i)\<lparr>lease := 0, cancelled := True\<rparr>) False (lstore sys) sys)"
| expire: "l \<noteq> 0 \<Longrightarrow> lock_step lk sys (sys\<lparr>lstore := dropLease l (lstore sys)\<rparr>)"
| other_grant: "grantLease (lstore sys) = (id', s') \<Longrightarrow> lock_step lk sys (sys\<lparr>lstore := s'\<rparr>)"
| other_write: "opKey op \<noteq> lk \<Longrightarrow> opOK (lstore sys) op \<Longrightarrow> lock_step lk sys (sys\<lparr>lstore := runOp op (lstore sys)\<rparr>)"

text \<open>
  The invariant: leases of different processes differ and were handed out by etcd, and the lease of a leader,
  as long as it is alive, holds the leader key.
\<close>

definition lock_inv :: "string \<Rightarrow> lsys \<Rightarrow> bool" where
  "lock_inv lk sys = (etcd_wf (lstore sys) \<and>
     (\<forall>i. leaderKey (locks sys i) = lk \<and> 0 \<le> lease (locks sys i) \<and> lease (locks sys i) < nextLease (lstore sys)) \<and>
     (\<forall>i j. lease (locks sys i) \<noteq> 0 \<and> lease (locks sys i) = lease (locks sys j) \<longrightarrow> i = j) \<and>
     (\<forall>i. leader sys i \<and> lease (locks sys i) \<in> set (leases (lstore sys)) \<longrightarrow>
        (\<exists>v. map_of (pairs (lstore sys)) lk = Some (v, lease (locks sys i)))))"

lemma setLock_sel [simp]:
  "lstore (setLock i l b s sys) = s" "locks (setLock i l b s sys) = (locks sys)(i := l)"
  "leader (setLock i l b s sys) = (leader sys)(i := b)"
  by (simp_all add: setLock_def)

lemma Release_sel [simp]: "leaderKey (fst (Release l w)) = leaderKey l" "lease (fst (Release l w)) = 0"
  by (simp_all add: Release_def)

lemma grantLease_sel: "grantLease s = (i, s') \<Longrightarrow>
    i = nextLease s \<and> pairs s' = pairs s \<and> leases s' = i # leases s \<and> nextLease s' = nextLease s + 1"
  by (auto simp: grantLease_def)

lemma dropLease_sel: "set (leases (dropLease l s)) = set (leases s) - {l}" "nextLease (dropLease l s) = nextLease s"
  by (auto simp: dropLease_def)

text \<open>A dropped lease leaves the keys of the others.\<close>

lemma dropLease_keeps:
  assumes "etcd_wf s" and "l \<noteq> 0" and "l' \<in> set (leases (dropLease l s))" and "map_of (pairs s) k = Some (v, l')"
  shows "map_of (pairs (dropLease l s)) k = Some (v, l')"
  using dropLease_lookup [OF assms(1,2), of k] assms(3,4) by (auto simp: dropLease_sel)

lemma lock_inv_key:
  "lock_inv lk sys \<Longrightarrow> leader sys i \<Longrightarrow> lease (locks sys i) \<in> set (leases (lstore sys)) \<Longrightarrow>
    \<exists>v. map_of (pairs (lstore sys)) lk = Some (v, lease (locks sys i))"
  unfolding lock_inv_def by blast

lemma lock_inv_drop:
  assumes "lock_inv lk sys" and "l \<noteq> 0"
  shows "lock_inv lk (sys\<lparr>lstore := dropLease l (lstore sys)\<rparr>)"
proof -
  have wf: "etcd_wf (lstore sys)" using assms(1) by (simp add: lock_inv_def)
  have "\<exists>v. map_of (pairs (dropLease l (lstore sys))) lk = Some (v, lease (locks sys i))"
    if h: "leader sys i" "lease (locks sys i) \<in> set (leases (dropLease l (lstore sys)))" for i
  proof -
    have "lease (locks sys i) \<in> set (leases (lstore sys))" using h(2) by (simp add: dropLease_sel)
    from lock_inv_key [OF assms(1) h(1) this] obtain v where
      "map_of (pairs (lstore sys)) lk = Some (v, lease (locks sys i))" by blast
    from dropLease_keeps [OF wf assms(2) h(2) this] show ?thesis by blast
  qed
  then show ?thesis
    using assms etcd_wf_dropLease [OF wf assms(2)] by (simp add: lock_inv_def dropLease_sel)
qed

lemma lock_inv_clear:
  assumes "lock_inv lk sys" and "leaderKey l = lk" "lease l = 0"
  shows "lock_inv lk (setLock i l False (lstore sys) sys)"
proof -
  have "0 < nextLease (lstore sys)" using assms(1) by (simp add: lock_inv_def etcd_wf_def)
  with assms show ?thesis by (auto simp: lock_inv_def)
qed

lemma lock_inv_acquire:
  assumes "lock_inv lk sys" and "list_all (holdsCmp (lstore sys)) (lockCmps (locks sys i))"
    and "runOps (lockOps (locks sys i)) (lstore sys) = Some s'"
  shows "lock_inv lk (setLock i (locks sys i) b s' sys)"
proof -
  let ?l = "locks sys i" and ?s = "lstore sys"
  have lk: "leaderKey ?l = lk" using assms(1) by (simp add: lock_inv_def)
  have none: "map_of (pairs ?s) lk = None"
    using assms(2) lk by (simp add: lockCmps_def holdsCmp_def)
  have s': "s' = runOp (OpPut lk (lockVersion ?l) (lease ?l)) ?s"
    using assms(3) lk by (auto simp: runOps_def lockOps_def split: if_splits)
  have no: "\<not> (leader sys j \<and> lease (locks sys j) \<in> set (leases ?s))" for j
    using lock_inv_key [OF assms(1), of j] none by auto
  have "map_of (pairs s') lk = Some (lockVersion ?l, lease ?l)" by (simp add: s' runOp_lookup)
  moreover have "etcd_wf s'" using assms(1,3) etcd_wf_runOps by (auto simp: lock_inv_def)
  ultimately show ?thesis
    using assms(1) no by (auto simp: lock_inv_def s')
qed

lemma lock_inv_write:
  assumes "lock_inv lk sys" and "opKey op \<noteq> lk" and "opOK (lstore sys) op"
  shows "lock_inv lk (sys\<lparr>lstore := runOp op (lstore sys)\<rparr>)"
  using assms etcd_wf_runOp [of "lstore sys" op] by (auto simp: lock_inv_def runOp_at)

lemma lock_inv_grant:
  assumes "lock_inv lk sys" and "grantLease (lstore sys) = (i', s')"
  shows "lock_inv lk (sys\<lparr>lstore := s'\<rparr>)"
proof -
  have "lease (locks sys i) \<noteq> i'" for i
    using assms grantLease_sel [OF assms(2)] by (metis less_irrefl lock_inv_def)
  moreover have "lease (locks sys i) < nextLease s'" for i
  proof -
    have "lease (locks sys i) < nextLease (lstore sys)" using assms(1) by (simp add: lock_inv_def)
    then show ?thesis using grantLease_sel [OF assms(2)] by linarith
  qed
  ultimately show ?thesis
    using assms(1) grantLease_sel [OF assms(2)] etcd_wf_grantLease [of "lstore sys" i' s'] assms(2)
    by (auto simp: lock_inv_def)
qed

lemma lock_inv_own_grant:
  assumes "lock_inv lk sys" and "grantLease (lstore sys) = (i', s')"
  shows "lock_inv lk (setLock i ((locks sys i)\<lparr>lease := i'\<rparr>) False s' sys)"
proof -
  have inv: "lock_inv lk (sys\<lparr>lstore := s'\<rparr>)" by (rule lock_inv_grant [OF assms])
  have "0 < i'" "i' < nextLease s'" "lease (locks sys j) < i'" for j
    using assms grantLease_sel [OF assms(2)] by (auto simp: lock_inv_def etcd_wf_def)
  then show ?thesis using inv by (auto simp: lock_inv_def)
qed

lemma lock_inv_step:
  assumes "lock_inv lk sys" and "lock_step lk sys sys'"
  shows "lock_inv lk sys'"
  using assms(2)
proof (cases rule: lock_step.cases)
  case (release i w arrived)
  let ?l = "fst (Release (locks sys i) w)" and ?d = "lease (locks sys i) \<noteq> 0 \<and> arrived"
  have "lock_inv lk (sys\<lparr>lstore := if ?d then dropLease (lease (locks sys i)) (lstore sys) else lstore sys\<rparr>)"
    using assms(1) lock_inv_drop [OF assms(1)] by simp
  from lock_inv_clear [OF this, of ?l i] assms(1) show ?thesis
    by (simp add: release setLock_def lock_inv_def [of lk sys])
next
  case (lost i beats)
  then show ?thesis using lock_inv_clear [OF assms(1), of "(locks sys i)\<lparr>lease := 0, cancelled := True\<rparr>" i] assms(1)
    by (simp add: lock_inv_def [of lk sys])
qed (simp_all add: assms lock_inv_own_grant lock_inv_acquire lock_inv_drop lock_inv_grant lock_inv_write)

lemma lock_system: "invariant_system (lock_init lk) (lock_step lk) (lock_inv lk)"
proof
  show "lock_init lk sys \<Longrightarrow> lock_inv lk sys" for sys
    by (auto simp: lock_init_def lock_inv_def etcd_wf_def)
  show "lock_inv lk sys \<Longrightarrow> lock_step lk sys sys' \<Longrightarrow> lock_inv lk sys'" for sys sys'
    by (rule lock_inv_step)
qed

interpretation lockSys: invariant_system "lock_init lk" "lock_step lk" "lock_inv lk" for lk
  by (rule lock_system)

text \<open>
  C3: Leadership is exclusive: in every reachable state of any number of processes, at most one
  leader has a lease that is alive in etcd, and that lease holds the leader key. Transactions whose
  answer is lost, revocations that do not arrive, expiring leases and other clients do not break this.
\<close>

theorem leader_is_unique:
  assumes "reachable (lock_init lk) (lock_step lk) sys"
    and "leader sys i" "lease (locks sys i) \<in> set (leases (lstore sys))"
    and "leader sys j" "lease (locks sys j) \<in> set (leases (lstore sys))"
  shows "i = j \<and> (\<exists>v. map_of (pairs (lstore sys)) lk = Some (v, lease (locks sys i)))"
proof -
  have inv: "lock_inv lk sys" using assms(1) by (rule lockSys.reachable_inv)
  then have "lease (locks sys i) \<noteq> 0" using assms(3) by (auto simp: lock_inv_def etcd_wf_def)
  moreover have k: "\<exists>v. map_of (pairs (lstore sys)) lk = Some (v, lease (locks sys i))"
    "\<exists>v. map_of (pairs (lstore sys)) lk = Some (v, lease (locks sys j))"
    using lock_inv_key [OF inv assms(2,3)] lock_inv_key [OF inv assms(4,5)] by blast+
  ultimately have "i = j" using inv by (auto simp: lock_inv_def)
  with k(1) show ?thesis by blast
qed

definition exLock :: EtcdLock where
  "exLock = NewLock ''56/outer_block_notice'' ''56/version'' ''v1'' 20"

definition exLockSys :: lsys where
  "exLockSys = \<lparr> lstore = \<lparr> pairs = [(''56/version'', ''v1'', 0)], leases = [], nextLease = 1 \<rparr>,
     locks = (\<lambda>_. exLock), leader = (\<lambda>_. False) \<rparr>"

theorem leader_is_unique_witness:
  "\<exists>sys. reachable (lock_init ''56/outer_block_notice'') (lock_step ''56/outer_block_notice'') sys \<and>
     leader sys 0 \<and> map_of (pairs (lstore sys)) ''56/outer_block_notice'' \<noteq> None"
proof -
  let ?lk = "''56/outer_block_notice''"
  let ?s1 = "\<lparr> pairs = [(''56/version'', ''v1'', 0)], leases = [1], nextLease = 2 \<rparr>"
  let ?s2 = "\<lparr> pairs = [(''56/version'', ''v1'', 0), (?lk, ''v1'', 1)], leases = [1], nextLease = 2 \<rparr>"
  let ?a = "setLock 0 (exLock\<lparr>lease := 1\<rparr>) False ?s1 exLockSys"
  let ?b = "setLock 0 (locks ?a 0) True ?s2 ?a"
  have "lock_init ?lk exLockSys" by (simp add: lock_init_def exLockSys_def exLock_def NewLock_def etcd_wf_def)
  then have r0: "reachable (lock_init ?lk) (lock_step ?lk) exLockSys" by (rule reach_init)
  have "lock_step ?lk exLockSys ?a"
    using lock_step.grant [of exLockSys 0 1 ?s1 ?lk] by (simp add: exLockSys_def exLock_def NewLock_def grantLease_def)
  with r0 have r1: "reachable (lock_init ?lk) (lock_step ?lk) ?a" by (rule reach_step)
  have "lock_step ?lk ?a ?b"
    by (rule lock_step.acquire)
      (simp_all add: exLock_def NewLock_def lockCmps_def lockOps_def holdsCmp_def etcdGet_def runOps_def
        noConflict_def isPut_def opKey_def opOK_def runOp_def)
  with r1 have r2: "reachable (lock_init ?lk) (lock_step ?lk) ?b" by (rule reach_step)
  from leader_is_unique [OF r2, of 0 0] r2 show ?thesis by (intro exI [of _ ?b]) simp
qed

section \<open>Operations of one process\<close>

definition exEtcd :: "(nat \<Rightarrow> fate) \<Rightarrow> world" where
  "exEtcd f = \<lparr> tick = 0, clock = (\<lambda>_. 0), quit = (\<lambda>_. False), fate = f, uploads = (\<lambda>_. []),
     objects = [], pageFuel = 3, topics = (\<lambda>_. emptyTopic), otherTopics = (\<lambda>_ t. t),
     etcd = \<lparr> pairs = [(outerVersionKey (config exChecker), ''v1'', 0)], leases = [], nextLease = 1 \<rparr>,
     otherEtcd = (\<lambda>_ s. s), rpc = (\<lambda>_ _ _ _. Inl IOErr), registry = (\<lambda>_. NewRWMap) \<rparr>"

lemma exEtcd_leader: "fst (ChangeToChainLeader 1 exChecker (exEtcd (\<lambda>_. Ack))) = Done (Inr ())"
proof -
  have "Version (config exChecker) = ''v1''" "etcdLock exChecker = None" by (simp_all add: exChecker_def)
  moreover have "outerVersionKey (config exChecker) \<noteq> fmt_d (ChainID (config exChecker)) @ ''/outer_block_notice''"
    by (simp add: outerVersionKey_def)
  ultimately show ?thesis
    by (simp add: ChangeToChainLeader_def Acquire_def Let_def etcdGrant_def exEtcd_def etcdSettle_def grantLease_def
        advance_def NewLock_def lockCmps_def lockOps_def etcdTxn_def holdsCmp_def etcdGet_def runOps_def
        noConflict_def isPut_def opKey_def opOK_def apiErr_def ctx_Err_def Background_def)
qed

lemma etcdTxn_ok:
  assumes "etcdTxn ctx cmps ops w = (Inr True, w')"
  shows "list_all (holdsCmp (etcd (etcdSettle w))) cmps \<and> runOps ops (etcd (etcdSettle w)) = Some (etcd w')"
  using assms by (auto simp: etcdTxn_def Let_def advance_def split: if_splits option.splits)

lemma acquireLoop_ok:
  assumes "acquireLoop fuel l w = (Done True, l', w')" and "versionKey l \<noteq> leaderKey l"
  shows "l' = l \<and> map_of (pairs (etcd w')) (leaderKey l) = Some (lockVersion l, lease l) \<and>
    etcdGet (versionKey l) (etcd w') = Some (lockVersion l)"
  using assms
proof (induction fuel arbitrary: w)
  case (Suc fuel)
  obtain r w1 where t: "etcdTxn Background (lockCmps l) (lockOps l) w = (r, w1)" by fastforce
  show ?case
  proof (cases "r = Inr True")
    case True
    with Suc.prems t have e: "l' = l" "w' = w1" by auto
    let ?op = "OpPut (leaderKey l) (lockVersion l) (lease l)"
    from etcdTxn_ok [OF t [unfolded True]] have "etcdGet (versionKey l) (etcd (etcdSettle w)) = Some (lockVersion l)"
      and "etcd w1 = runOp ?op (etcd (etcdSettle w))"
      by (auto simp: lockCmps_def lockOps_def holdsCmp_def runOps_def split: if_splits)
    then show ?thesis using e Suc.prems(2) by (simp add: etcdGet_def runOp_lookup)
  next
    case False
    with Suc.prems t have "\<exists>w2. acquireLoop fuel l w2 = (Done True, l', w')"
      by (auto simp: giveUp_def split: sum.splits bool.splits option.splits if_splits prod.splits)
    then show ?thesis using Suc.IH Suc.prems(2) by blast
  qed
qed simp

text \<open>
  C37: A checker that becomes leader holds the lock: at that moment the leader key of its chain carries its
  version and its own, newly granted lease, and the version key names its version. Otherwise its
  state is unchanged.
\<close>

theorem new_leader_holds_the_lock:
  assumes "ChangeToChainLeader fuel c w = (r, c', w')" and "etcdLock c = None"
  shows "(c' = c \<and> r \<noteq> Done (Inr ())) \<or>
    (\<exists>l. r = Done (Inr ()) \<and> c' = c\<lparr>etcdLock := Some l\<rparr> \<and>
      map_of (pairs (etcd w')) (fmt_d (ChainID (config c)) @ ''/outer_block_notice'') = Some (Version (config c), lease l) \<and>
      etcdGet (outerVersionKey (config c)) (etcd w') = Some (Version (config c)))"
proof -
  let ?n = "NewLock (fmt_d (ChainID (config c)) @ ''/outer_block_notice'') (outerVersionKey (config c))
    (Version (config c)) (EtcdLockTTL (config c))"
  obtain q l w1 where a: "Acquire fuel ?n w = (q, l, w1)" by (metis prod_cases3)
  show ?thesis
  proof (cases "q = Done True")
    case True
    then obtain i w0 where "acquireLoop fuel (?n\<lparr>cancelled := False, lease := i\<rparr>) w0 = (Done True, l, w1)"
      using a by (auto simp: Acquire_def Let_def split: prod.splits sum.splits)
    from acquireLoop_ok [OF this] have "map_of (pairs (etcd w1)) (fmt_d (ChainID (config c)) @ ''/outer_block_notice'') = Some (Version (config c), lease l)"
      "etcdGet (outerVersionKey (config c)) (etcd w1) = Some (Version (config c))"
      by (simp_all add: NewLock_def outerVersionKey_def)
    with True a assms show ?thesis by (auto simp: ChangeToChainLeader_def)
  next
    case False
    with a assms show ?thesis by (auto simp: ChangeToChainLeader_def split: outcome.splits bool.splits)
  qed
qed

theorem new_leader_holds_the_lock_witness:
  "\<exists>c' w'. ChangeToChainLeader 1 exChecker (exEtcd (\<lambda>_. Ack)) = (Done (Inr ()), c', w') \<and>
     etcdGet (outerVersionKey (config exChecker)) (etcd w') = Some ''v1''"
proof -
  obtain r c' w' where e: "ChangeToChainLeader 1 exChecker (exEtcd (\<lambda>_. Ack)) = (r, c', w')" by (metis prod_cases3)
  have "r = Done (Inr ())" using e exEtcd_leader by simp
  moreover have "etcdLock exChecker = None" "Version (config exChecker) = ''v1''" by (simp_all add: exChecker_def)
  ultimately show ?thesis using new_leader_holds_the_lock [OF e] e by auto
qed

text \<open>The watch dog reports a loss exactly after three failed renewals in a row, that is within three quarters of the time to live.\<close>

lemma dogLoop_lost:
  "n < maxFail \<Longrightarrow> dogLoop n (replicate (maxFail - n) (Renewal (Inl e)) @ bs) = Lost"
  by (induction "maxFail - n" arbitrary: n) (auto simp: maxFail_def less_Suc_eq numeral_3_eq_3)

lemma dog_before_expiry: "0 < ttl div 4 \<Longrightarrow> int maxFail * (ttl div 4) < ttl"
  by (simp add: maxFail_def)

end
