(* ===== verification/Process.thy ===== *)
theory Process
  imports ScanSystem Replicas Outer Leader
begin

text \<open>
  The main flow of \<^verbatim>\<open>check/check.go\<close>: prefetching, \<^verbatim>\<open>processNotice\<close> with its nine steps and two short cuts,
  and the loop of \<^verbatim>\<open>Run\<close> that fetches, retries and commits messages. The lemmas show what an
  acknowledged notice has changed, and that messages are committed only after they were
  processed.
\<close>

section \<open>Prefetching\<close>

text \<open>
  The requests run concurrently with the wait for the replicas and are collected before they are used;
  here they run before it. The semaphore only bounds how many run at once.
\<close>

definition prefetchBlock :: "ext \<Rightarrow> svc \<Rightarrow> Config \<Rightarrow> BlockContext \<Rightarrow> world \<Rightarrow> blockPrefetch \<times> world" where
  "prefetchBlock x v cfg b w =
     (case getRawValidationByKeyWithReTryCtx v Background (blockValidationKey x cfg b) w of (r, w1) \<Rightarrow>
       (case listBlockValidationKeysCtx v cfg Background (BlockNumber b) w1 of (k, w2) \<Rightarrow>
         (\<lparr> pfValidation = (case r of Inl _ \<Rightarrow> None | Inr a \<Rightarrow> Some a), pfValidationErr = (case r of Inl e \<Rightarrow> Some e | Inr _ \<Rightarrow> None),
            pfKeys = (case k of Inl _ \<Rightarrow> [] | Inr ks \<Rightarrow> ks), pfKeysErr = (case k of Inl e \<Rightarrow> Some e | Inr _ \<Rightarrow> None) \<rparr>, w2)))"

fun prefetchNewBlocks :: "ext \<Rightarrow> svc \<Rightarrow> Config \<Rightarrow> BlockContext list \<Rightarrow> world \<Rightarrow> blockPrefetch list \<times> world" where
  "prefetchNewBlocks x v cfg [] w = ([], w)"
| "prefetchNewBlocks x v cfg (b # bs) w =
     (case prefetchBlock x v cfg b w of (p, w1) \<Rightarrow>
       (case prefetchNewBlocks x v cfg bs w1 of (ps, w2) \<Rightarrow> (p # ps, w2)))"

text \<open>The hints of the final re-check: the validations only, so that the keys are listed again.\<close>

definition freshHints :: "blockPrefetch list \<Rightarrow> blockPrefetch list" where
  "freshHints ps = map (\<lambda>p. p\<lparr>pfKeys := [], pfKeysErr := None\<rparr>) ps"

section \<open>Processing a notice\<close>

text \<open>The short cuts: recover the scan, align, checkpoint.\<close>

definition advanceNotice ::
  "nat \<Rightarrow> ext \<Rightarrow> svc \<Rightarrow> BlockChangeNotification \<Rightarrow> ForkScanPosition option \<Rightarrow> Checker \<Rightarrow> world \<Rightarrow>
    bool outcome \<times> Checker \<times> world" where
  "advanceNotice fuel x v n pos c w =
     (case prepareForkScan x n pos c of
        (False, c1) \<Rightarrow> (Done False, c1, w)
      | (True, c1) \<Rightarrow>
          (case AlignOuterSingleton fuel x v c1 w of
             (Done True, c2, w2) \<Rightarrow> (case finishForkScan x pos c2 of (ok, c3) \<Rightarrow> (Done ok, c3, w2))
           | r \<Rightarrow> r))"

text \<open>Steps 8 and 9, after the notices are out.\<close>

definition completeNotice ::
  "nat \<Rightarrow> ext \<Rightarrow> svc \<Rightarrow> BlockContext list \<Rightarrow> blockPrefetch list \<Rightarrow> ForkScanPosition option \<Rightarrow> Checker \<Rightarrow> world \<Rightarrow>
    bool outcome \<times> Checker \<times> world" where
  "completeNotice fuel x v newBlocks prefetched pos c w =
     (case AlignOuterSingleton fuel x v c w of
        (Done True, c1, w1) \<Rightarrow>
          (case finishForkScan x pos c1 of
             (False, c2) \<Rightarrow> (Done False, c2, w1)
           | (True, c2) \<Rightarrow>
               (case rewriteForkBlocksAtSameHeight x v (config c) newBlocks (freshHints prefetched) w1 of
                  (_, w2) \<Rightarrow> (Done True, c2, w2)))
      | r \<Rightarrow> r)"

text \<open>Steps 3 to 9, once the replicas are ready.\<close>

definition publishChecked ::
  "nat \<Rightarrow> ext \<Rightarrow> svc \<Rightarrow> BlockChangeNotification \<Rightarrow> blockPrefetch list \<Rightarrow> ForkScanPosition option \<Rightarrow> Checker \<Rightarrow> world \<Rightarrow>
    bool outcome \<times> Checker \<times> world" where
  "publishChecked fuel x v n prefetched pos c w =
     (let dropBlocks = rev (DropBlocks n); newBlocks = NewBlocks n in
      case rewriteDropBlocks x v (config c) dropBlocks w of (_, w1) \<Rightarrow>
        (case writeBlockInfoToDB x newBlocks prefetched c of
           (False, c1) \<Rightarrow> (Done False, c1, w1)
         | (True, c1) \<Rightarrow>
             (case rewriteForkBlocksAtSameHeight x v (config c) newBlocks prefetched w1 of
                (Inl e, w2) \<Rightarrow> (Done False, c1, w2)
              | (Inr _, w2) \<Rightarrow>
                  (case WriteDropBlockNotice dropBlocks c1 w2 of
                     (False, c2, w3) \<Rightarrow> (Done False, c2, w3)
                   | (True, c2, w3) \<Rightarrow>
                       (case WriteNewBlockNotice newBlocks c2 w3 of
                          (False, c3, w4) \<Rightarrow> (Done False, c3, w4)
                        | (True, c3, w4) \<Rightarrow> completeNotice fuel x v newBlocks prefetched pos c3 w4)))))"

definition processNotice ::
  "nat \<Rightarrow> ext \<Rightarrow> svc \<Rightarrow> BlockChangeNotification \<Rightarrow> ForkScanPosition option \<Rightarrow> Checker \<Rightarrow> world \<Rightarrow>
    bool outcome \<times> Checker \<times> world" where
  "processNotice fuel x v n pos c w =
     (if NewBlocks n = [] then (Done False, c, w)
      else if isDuplicateBlockNotification n c then advanceNotice fuel x v n pos c w
      else if isAlreadyProcessed n c then advanceNotice fuel x v n pos c w
      else if \<not> msgCheck n c then (Done False, c, w)
      else (case prepareForkScan x n pos c of
        (False, c1) \<Rightarrow> (Done False, c1, w)
      | (True, c1) \<Rightarrow>
          (let c2 = beginNotice n c1; kafkaLatest = BlockNumber (last (NewBlocks n)) in
           case prefetchNewBlocks x v (config c) (NewBlocks n) w of (prefetched, w1) \<Rightarrow>
             (case checkAndNotify fuel v kafkaLatest (replicaWaitTimeout (config c)) c2 w1 of
                None \<Rightarrow> (NoFuel, c2, w1)
              | Some (False, c3, w2) \<Rightarrow> (Done False, c3, w2)
              | Some (True, c3, w2) \<Rightarrow> publishChecked fuel x v n prefetched pos c3 w2))))"

section \<open>The message loop\<close>

text \<open>A message of the inner topic; \<open>mNotice\<close> is \<open>None\<close> when its value cannot be decoded.\<close>

record message =
  mTopic :: string
  mPartition :: int
  mOffset :: int
  mNotice :: "BlockChangeNotification option"

definition positionOf :: "message \<Rightarrow> ForkScanPosition" where
  "positionOf m = \<lparr> Topic = mTopic m, Partition = mPartition m, Offset = mOffset m \<rparr>"

text \<open>The retry loop; the flag is false when the checker quits.\<close>

fun processLoop ::
  "nat \<Rightarrow> ext \<Rightarrow> svc \<Rightarrow> message \<Rightarrow> BlockChangeNotification \<Rightarrow> Checker \<Rightarrow> world \<Rightarrow> bool outcome \<times> Checker \<times> world" where
  "processLoop 0 x v m n c w = (NoFuel, c, w)"
| "processLoop (Suc fuel) x v m n c w =
     (if quit w (tick w) then (Done False, c, w)
      else if latestMsgOffset c \<noteq> 0 \<and> mOffset m \<le> latestMsgOffset c then (Done True, c, w)
      else (case processNotice fuel x v n (Some (positionOf m)) c w of
              (Done True, c', w') \<Rightarrow> (Done True, c', w')
            | (Done False, c', w') \<Rightarrow> processLoop fuel x v m n c' (advance w')
            | (Panic, c', w') \<Rightarrow> (Panic, c', w')
            | (NoFuel, c', w') \<Rightarrow> (NoFuel, c', w')))"

fun commitLoop :: "nat \<Rightarrow> message \<Rightarrow> Checker \<Rightarrow> world \<Rightarrow> bool outcome \<times> Checker \<times> world" where
  "commitLoop 0 m c w = (NoFuel, c, w)"
| "commitLoop (Suc fuel) m c w =
     (if quit w (tick w) then (Done False, c, w)
      else if fate w (tick w) = Ack then (Done True, c\<lparr>latestMsgOffset := mOffset m\<rparr>, advance w)
      else commitLoop fuel m c (advance (advance w)))"

text \<open>What \<^verbatim>\<open>FetchMessage\<close> returns: a message, the expiry of its deadline, or another error.\<close>

datatype fetched = Fetched message | FetchTimeout | FetchFailed

text \<open>One iteration of \<^verbatim>\<open>Run\<close>; the flag is false when the loop returns.\<close>

definition runStep ::
  "nat \<Rightarrow> ext \<Rightarrow> svc \<Rightarrow> fetched \<Rightarrow> Checker \<Rightarrow> world \<Rightarrow> bool outcome \<times> Checker \<times> world" where
  "runStep fuel x v f c w =
     (if quit w (tick w) then (Done False, c, w)
      else (case f of
        FetchTimeout \<Rightarrow> (case CheckAndNotifyEtcd fuel v c (advance w) of
            None \<Rightarrow> (NoFuel, c, w) | Some (_, c', w') \<Rightarrow> (Done True, c', w'))
      | FetchFailed \<Rightarrow> (Done True, c, advance (advance w))
      | Fetched m \<Rightarrow>
          (case mNotice m of
             None \<Rightarrow> (Done True, c, advance (advance w))
           | Some n \<Rightarrow>
               (case processLoop fuel x v m n c (advance w) of
                  (Done True, c1, w1) \<Rightarrow> commitLoop fuel m c1 w1
                | r \<Rightarrow> r))))"

text \<open>The order in which \<^verbatim>\<open>shutdown\<close> gives up what the checker holds; closing the clients is not modelled.\<close>

definition shutdown :: "RWMap \<Rightarrow> Checker \<Rightarrow> world \<Rightarrow> RWMap \<times> Checker \<times> world" where
  "shutdown m c w = (case RevokeChainLeader c w of (c', w') \<Rightarrow> (StopWatch m, c', w'))"

section \<open>Lemmas: what each step leaves alone\<close>

text \<open>Steps that touch neither the index nor the cursor nor the scan.\<close>

definition same :: "Checker \<Rightarrow> Checker \<Rightarrow> bool" where
  "same c c' = (cdb c' = cdb c \<and> config c' = config c \<and> forkState c' = forkState c \<and> forkBatch c' = forkBatch c \<and>
     latestMsgOffset c' = latestMsgOffset c)"

lemma same_refl [simp]: "same c c"
  by (simp add: same_def)

lemma same_trans: "same a b \<Longrightarrow> same b c \<Longrightarrow> same a c"
  by (simp add: same_def)

lemma same_keeps: "same c c' \<Longrightarrow> keeps x c c'"
  by (rule keeps_cong [OF keeps_refl]) (simp_all add: same_def)

lemma beginNotice_same: "same c (beginNotice n c) \<and> latestOuter (beginNotice n c) = latestOuter c"
  by (simp add: beginNotice_def same_def Let_def)

lemma alignNow_same:
  "alignNow fuel x v ver c w = (r, c', w') \<Longrightarrow> same c c' \<and> latestOuter c' = latestOuter c"
  by (auto simp: alignNow_def same_def Let_def split: prod.splits sum.splits option.splits outcome.splits)

lemma Align_cases:
  assumes "AlignOuterSingleton fuel x v c w = (r, c', w')"
  obtains "c' = c" | "c' = c\<lparr>isOuterSingletonAlign := True\<rparr>" | s where "c' = c\<lparr>cachedOuterSingle := Some s\<rparr>"
  | ver where "alignNow fuel x v ver c w = (r, c', w')"
  | ver s w1 where "alignNow fuel x v ver (c\<lparr>cachedOuterSingle := Some s\<rparr>) w1 = (r, c', w')"
proof (cases "etcdLock c = None \<or> isOuterSingletonAlign c \<or> latestOuter c = None")
  case True
  then have "c' = c" using assms by (auto simp: AlignOuterSingleton_def split: option.splits bool.splits)
  then show ?thesis by (rule that(1))
next
  case False
  then obtain l ver where l: "etcdLock c = Some l" "\<not> isOuterSingletonAlign c" "latestOuter c = Some ver" by auto
  show ?thesis
  proof (cases "cachedOuterSingle c")
    case None
    then show ?thesis
      using assms l that
      by (auto simp add: AlignOuterSingleton_def Let_def split: sum.splits option.splits prod.splits if_splits)
  next
    case (Some s)
    then show ?thesis using assms l that by (simp add: AlignOuterSingleton_def split: if_splits)
  qed
qed

lemma Align_same:
  assumes "AlignOuterSingleton fuel x v c w = (r, c', w')"
  shows "same c c' \<and> latestOuter c' = latestOuter c"
  using assms
proof (cases rule: Align_cases)
  case 5
  then show ?thesis using alignNow_same [OF 5] by (simp add: same_def)
qed (auto simp: same_def dest: alignNow_same)

lemma markTargets_shape: "\<exists>D. snd (markTargets rs b c) = c\<lparr>delivered := D\<rparr>"
proof (induction rs arbitrary: c)
  case Nil
  show ?case by (rule exI [of _ "delivered c"]) simp
next
  case (Cons q rs)
  obtain d t r where q: "q = ((d, t), r)" by (metis prod.collapse)
  have "snd (markTargets (q # rs) b c) = snd (markTargets rs b c) \<or>
      snd (markTargets (q # rs) b c) = snd (markTargets rs b (markDelivered d (noticeKey b) c))"
    by (simp add: q split_beta split: option.splits sum.splits)
  then show ?case
    using Cons [of c] Cons [of "markDelivered d (noticeKey b) c"] by (auto simp: markDelivered_def)
qed

lemma markTargets_same: "markTargets rs b c = (ok, c') \<Longrightarrow> same c c' \<and> latestOuter c' = latestOuter c"
  using markTargets_shape [of rs b c] by (auto simp: same_def)

lemma publish_same: "publishOuter b c w = (ok, c', w') \<Longrightarrow> same c c' \<and> latestOuter c' = latestOuter c"
  by (auto simp: publishOuter_def split: prod.splits dest: markTargets_same)

lemma WriteDrop_same: "WriteDropBlockNotice bs c w = (ok, c', w') \<Longrightarrow> same c c' \<and> latestOuter c' = latestOuter c"
proof (induction bs arbitrary: c w)
  case (Cons b bs)
  obtain q c1 w1 where p: "publishOuter (outerOf (config c) True b) c w = (q, c1, w1)" by (metis prod_cases3)
  with Cons publish_same [OF p] show ?case by (cases q) (auto intro: same_trans)
qed auto

lemma WriteNew_same:
  "WriteNewBlockNotice bs c w = (ok, c', w') \<Longrightarrow> same c c' \<and>
     (ok \<and> bs \<noteq> [] \<longrightarrow> latestOuter c' = Some (outerOf (config c) False (last bs)))"
proof (induction bs arbitrary: c w)
  case (Cons b bs)
  obtain q c1 w1 where p: "publishOuter (outerOf (config c) False b) c w = (q, c1, w1)" by (metis prod_cases3)
  note s = publish_same [OF p]
  show ?case
  proof (cases q)
    case True
    let ?c2 = "c1\<lparr>latestOuter := Some (outerOf (config c) False b)\<rparr>"
    have r: "WriteNewBlockNotice bs ?c2 w1 = (ok, c', w')" using Cons.prems True p by simp
    have "same c ?c2" "config ?c2 = config c" using s by (auto simp: same_def)
    then show ?thesis
      using Cons.IH [OF r] r by (cases bs) (auto intro: same_trans)
  qed (use Cons.prems p s in auto)
qed simp

lemma WriteReplica_same:
  "WriteReplicaStateChangeToEtcd v r c w = (q, c', w') \<Longrightarrow> same c c' \<and> latestOuter c' = latestOuter c"
  by (auto simp: WriteReplicaStateChangeToEtcd_def heightOps_def same_def Let_def
      split: option.splits if_splits sum.splits prod.splits)

lemma checkAndNotify_same:
  assumes "checkAndNotify fuel v k t c w = Some (q, c', w')"
  shows "same c c' \<and> latestOuter c' = latestOuter c"
proof -
  have upd: "same c (c\<lparr>ReplicaLatestBlockNumber := h\<rparr>)" for h by (simp add: same_def)
  show ?thesis
    using assms upd
    by (auto simp: checkAndNotify_def Let_def split: if_splits option.splits prod.splits sum.splits
        dest!: WriteReplica_same intro: same_trans)
qed


text \<open>The latest outer notice and the offset are not touched by the scan.\<close>

lemma saveForkScan_outer: "saveForkScan x s c = (r, c') \<Longrightarrow> latestOuter c' = latestOuter c \<and> latestMsgOffset c' = latestMsgOffset c"
  by (auto simp: saveForkScan_def setStore_def split: sum.splits prod.splits)

lemma initializeForkScan_outer: "initializeForkScan x a p c = (r, c') \<Longrightarrow> latestOuter c' = latestOuter c \<and> latestMsgOffset c' = latestMsgOffset c"
  by (auto simp: initializeForkScan_def rewindForkScan_def Let_def split: sum.splits prod.splits option.splits if_splits
      dest: saveForkScan_outer)

lemma reconcile_outer: "reconcileForkScanReplay x n a s c = (r, c') \<Longrightarrow> latestOuter c' = latestOuter c \<and> latestMsgOffset c' = latestMsgOffset c"
  by (auto simp: reconcileForkScanReplay_def rewindForkScan_def Let_def split: sum.splits prod.splits if_splits
      dest: saveForkScan_outer)

lemma prepareForkScan_outer: "prepareForkScan x n p c = (r, c') \<Longrightarrow> latestOuter c' = latestOuter c \<and> latestMsgOffset c' = latestMsgOffset c"
  by (auto simp: prepareForkScan_def split: sum.splits prod.splits option.splits if_splits
      dest: reconcile_outer initializeForkScan_outer)

lemma finishForkScan_outer: "finishForkScan x p c = (r, c') \<Longrightarrow> latestOuter c' = latestOuter c \<and> latestMsgOffset c' = latestMsgOffset c"
  by (auto simp: finishForkScan_def Let_def split: sum.splits prod.splits option.splits if_splits
      dest: saveForkScan_outer initializeForkScan_outer)


section \<open>Lemmas: an acknowledged notice\<close>

lemma Cont_same: "same c c' \<Longrightarrow> durable x c' = durable x c"
  by (simp add: same_def durable_def cursorKey_def split: option.split)

lemma writeBlockInfo_refines:
  assumes "writeBlockInfoToDB x bs pfs c = (True, c')" and "ascending bs" and "index_ok (store c)"
  shows "canon (store c') = install bs (canon (store c)) \<and> index_ok (store c') \<and> config c' = config c"
proof -
  obtain vs where vs: "prefetchedHashes pfs = Some vs" using assms(1) by (auto simp: writeBlockInfoToDB_def split: option.splits)
  show ?thesis
  proof (cases "forkState c \<noteq> None \<and> ContinuousForkScan (config c)")
    case True
    obtain q d where q: "WriteBlockInfosWithForkScan x (cdb c) bs vs (ChainID (config c)) (Version (config c)) (forkState c) = (q, d)"
      by fastforce
    with True assms(1) vs obtain nx where "q = Inr nx" and c': "cdb c' = d \<and> config c' = config c"
      by (cases q) (auto simp: writeBlockInfoToDB_def rewindForkScan_def split: if_splits)
    with q write_refines [of x "cdb c" bs vs _ _ _ nx d] assms(2,3) show ?thesis by simp
  next
    case False
    obtain q d where q: "WriteBlockInfosWithForkScan x (cdb c) bs vs 0 [] None = (q, d)" by fastforce
    with False assms(1) vs obtain nx where "q = Inr nx" and c': "cdb c' = d \<and> config c' = config c"
      by (cases q) (auto simp: writeBlockInfoToDB_def WriteBlockInfos_def split: if_splits)
    with q write_refines [of x "cdb c" bs vs _ _ _ nx d] assms(2,3) show ?thesis by simp
  qed
qed

text \<open>The two scan steps, with and without the continuous scan.\<close>

definition scanned :: "ext \<Rightarrow> Checker \<Rightarrow> bool" where
  "scanned x c = (index_ok (store c) \<and> (ContinuousForkScan (config c) \<longrightarrow> durable x c))"

definition holds :: "ext \<Rightarrow> Checker \<Rightarrow> Checker \<Rightarrow> bool" where
  "holds x c c' = (scanned x c' \<and> canon (store c') = canon (store c) \<and> config c' = config c)"

lemma holds_trans: "holds x a b \<Longrightarrow> holds x b c \<Longrightarrow> holds x a c"
  by (simp add: holds_def)

lemma same_holds: "same c c' \<Longrightarrow> scanned x c \<Longrightarrow> holds x c c'"
  using Cont_same [of c c' x] by (simp add: holds_def scanned_def same_def)

lemma prepare_holds: "prepareForkScan x n p c = (r, c') \<Longrightarrow> scanned x c \<Longrightarrow> holds x c c'"
  using prepareForkScan_keeps [of x n p c r c']
  by (cases "ContinuousForkScan (config c)") (auto simp: holds_def scanned_def keeps_def prepareForkScan_def)

lemma finish_holds: "finishForkScan x p c = (r, c') \<Longrightarrow> position_ok p \<Longrightarrow> scanned x c \<Longrightarrow> holds x c c'"
  using finishForkScan_keeps [of x p c r c']
  by (cases "ContinuousForkScan (config c)") (auto simp: holds_def scanned_def keeps_def finishForkScan_def)

lemma write_scanned:
  assumes "writeBlockInfoToDB x bs pfs c = (True, c')" and "ascending bs" and "scanned x c"
  shows "scanned x c' \<and> canon (store c') = install bs (canon (store c)) \<and> config c' = config c"
  using writeBlockInfo_refines [OF assms(1,2)] writeBlockInfoToDB_writes [OF assms(1,2)] assms(3)
  by (auto simp: scanned_def writes_def)

lemma completeNotice_ok:
  assumes "completeNotice fuel x v bs ps pos c w = (Done True, c', w')" and "position_ok pos" and "scanned x c"
  shows "holds x c c' \<and> latestOuter c' = latestOuter c"
proof -
  obtain c1 w1 where a: "AlignOuterSingleton fuel x v c w = (Done True, c1, w1)" and f: "finishForkScan x pos c1 = (True, c')"
    using assms(1) by (auto simp: completeNotice_def split: prod.splits outcome.splits bool.splits)
  have h: "holds x c c1" using same_holds [of c c1 x] Align_same [OF a] assms(3) by simp
  then have "holds x c1 c'" using finish_holds [OF f assms(2)] by (simp add: holds_def)
  with h show ?thesis using holds_trans Align_same [OF a] finishForkScan_outer [OF f] by metis
qed

lemma publishChecked_ok:
  assumes "publishChecked fuel x v n ps pos c w = (Done True, c', w')" and "position_ok pos" and "scanned x c"
    and "ascending (NewBlocks n)" and "NewBlocks n \<noteq> []"
  shows "scanned x c' \<and> canon (store c') = install (NewBlocks n) (canon (store c)) \<and>
    latestOuter c' = Some (outerOf (config c) False (last (NewBlocks n)))"
proof -
  obtain c1 c2 c3 wa wb wc wd where wr: "writeBlockInfoToDB x (NewBlocks n) ps c = (True, c1)"
    and dr: "WriteDropBlockNotice (rev (DropBlocks n)) c1 wa = (True, c2, wb)"
    and nw: "WriteNewBlockNotice (NewBlocks n) c2 wc = (True, c3, wd)"
    and cm: "completeNotice fuel x v (NewBlocks n) ps pos c3 wd = (Done True, c', w')"
    using assms(1) by (auto simp: publishChecked_def Let_def split: prod.splits sum.splits bool.splits)
  note s1 = write_scanned [OF wr assms(4,3)]
  have s2: "holds x c1 c2" using same_holds WriteDrop_same [OF dr] s1 by blast
  have s3: "holds x c2 c3" using same_holds WriteNew_same [OF nw] s2 by (auto simp: holds_def)
  have s4: "holds x c3 c' \<and> latestOuter c' = latestOuter c3"
    using completeNotice_ok [OF cm assms(2)] s3 by (simp add: holds_def)
  show ?thesis using s1 s2 s3 s4 WriteNew_same [OF nw] assms(5) by (simp add: holds_def)
qed

lemma processNotice_ok:
  assumes "processNotice fuel x v n pos c w = (Done True, c', w')"
    and "\<not> isAlreadyProcessed n c" and "position_ok pos" and "scanned x c" and "ascending (NewBlocks n)"
  shows "msgCheck n c \<and> isAlreadyProcessed n c' \<and> scanned x c' \<and>
    canon (store c') = install (NewBlocks n) (canon (store c)) \<and>
    latestOuter c' = Some (outerOf (config c) False (last (NewBlocks n)))"
proof -
  have ne: "NewBlocks n \<noteq> []" using assms(1) by (auto simp: processNotice_def)
  have dup: "\<not> isDuplicateBlockNotification n c"
    using assms(2) by (auto simp: isDuplicateBlockNotification_def isAlreadyProcessed_def length_Suc_conv split: option.splits)
  obtain c1 where pr: "prepareForkScan x n pos c = (True, c1)" and m: "msgCheck n c"
    using assms(1,2) ne dup by (auto simp: processNotice_def split: if_splits prod.splits bool.splits)
  obtain ps w1 where pf: "prefetchNewBlocks x v (config c) (NewBlocks n) w = (ps, w1)" by fastforce
  obtain c3 w2 where ck: "checkAndNotify fuel v (BlockNumber (last (NewBlocks n))) (replicaWaitTimeout (config c))
       (beginNotice n c1) w1 = Some (True, c3, w2)"
    and pc: "publishChecked fuel x v n ps pos c3 w2 = (Done True, c', w')"
    using assms(1,2) ne dup m
    by (auto simp: processNotice_def pr pf Let_def split: prod.splits bool.splits option.splits)
  have "same c1 c3" using beginNotice_same [of c1 n] checkAndNotify_same [OF ck] same_trans by blast
  then have h: "holds x c c3"
    using prepare_holds [OF pr assms(4)] same_holds [of c1 c3 x] holds_trans [of x c c1 c3] by (simp add: holds_def)
  then show ?thesis
    using publishChecked_ok [OF pc assms(3) _ assms(5) ne] m ne by (simp add: holds_def isAlreadyProcessed_def outerOf_def)
qed


text \<open>A short cut publishes nothing and leaves the index alone.\<close>

lemma advanceNotice_ok:
  assumes "advanceNotice fuel x v n pos c w = (r, c', w')" and "position_ok pos" and "scanned x c"
  shows "holds x c c' \<and> latestOuter c' = latestOuter c"
proof -
  obtain ok c1 where p: "prepareForkScan x n pos c = (ok, c1)" by fastforce
  have h1: "holds x c c1" and o1: "latestOuter c1 = latestOuter c"
    using prepare_holds [OF p assms(3)] prepareForkScan_outer [OF p] by simp_all
  obtain q c2 w2 where a: "AlignOuterSingleton fuel x v c1 w = (q, c2, w2)" by (metis prod_cases3)
  have h2: "holds x c c2" and o2: "latestOuter c2 = latestOuter c"
    using Align_same [OF a] same_holds [of c1 c2 x] h1 o1 holds_trans [of x c c1 c2] by (auto simp: holds_def)
  obtain ok3 c3 where f: "finishForkScan x pos c2 = (ok3, c3)" by fastforce
  have h3: "holds x c c3" and o3: "latestOuter c3 = latestOuter c"
    using finish_holds [OF f assms(2)] finishForkScan_outer [OF f] h2 o2 by (auto simp: holds_def)
  have "c' = c1 \<or> c' = c2 \<or> c' = c3"
    using assms(1) p a f by (auto simp: advanceNotice_def split: bool.splits outcome.splits)
  then show ?thesis using h1 h2 h3 o1 o2 o3 by auto
qed

lemma advance_outer:
  assumes "advanceNotice fuel x v n pos c w = (Done True, c', w')"
  shows "latestOuter c' = latestOuter c"
proof -
  obtain c1 where p: "prepareForkScan x n pos c = (True, c1)"
    using assms by (auto simp: advanceNotice_def split: prod.splits bool.splits)
  then obtain c2 w2 where a: "AlignOuterSingleton fuel x v c1 w = (Done True, c2, w2)" and f: "finishForkScan x pos c2 = (True, c')"
    using assms by (auto simp: advanceNotice_def split: prod.splits bool.splits outcome.splits)
  show ?thesis using prepareForkScan_outer [OF p] Align_same [OF a] finishForkScan_outer [OF f] by simp
qed

lemma complete_outer:
  assumes "completeNotice fuel x v bs ps pos c w = (Done True, c', w')"
  shows "latestOuter c' = latestOuter c"
proof -
  obtain c1 w1 where a: "AlignOuterSingleton fuel x v c w = (Done True, c1, w1)" and f: "finishForkScan x pos c1 = (True, c')"
    using assms by (auto simp: completeNotice_def split: prod.splits outcome.splits bool.splits)
  show ?thesis using Align_same [OF a] finishForkScan_outer [OF f] by simp
qed

lemma publish_outer:
  assumes "publishChecked fuel x v n ps pos c w = (Done True, c', w')" and "NewBlocks n \<noteq> []"
  shows "isAlreadyProcessed n c'"
proof -
  obtain c2 c3 wc wd where nw: "WriteNewBlockNotice (NewBlocks n) c2 wc = (True, c3, wd)"
    and cm: "completeNotice fuel x v (NewBlocks n) ps pos c3 wd = (Done True, c', w')"
    using assms(1) by (auto simp: publishChecked_def Let_def split: prod.splits sum.splits bool.splits)
  show ?thesis
    using WriteNew_same [OF nw] complete_outer [OF cm] assms(2) by (simp add: isAlreadyProcessed_def outerOf_def)
qed

text \<open>Whatever path a notice takes, acknowledging it means that its last block is the latest published one.\<close>

lemma acknowledged:
  assumes "processNotice fuel x v n pos c w = (Done True, c', w')"
  shows "isAlreadyProcessed n c'"
proof -
  have ne: "NewBlocks n \<noteq> []" using assms by (auto simp: processNotice_def)
  show ?thesis
  proof (cases "isDuplicateBlockNotification n c \<or> isAlreadyProcessed n c")
    case True
    then have "isAlreadyProcessed n c"
      by (auto simp: isDuplicateBlockNotification_def isAlreadyProcessed_def length_Suc_conv split: option.splits)
    moreover have "advanceNotice fuel x v n pos c w = (Done True, c', w')"
      using assms True ne by (simp add: processNotice_def split: if_splits)
    then have "latestOuter c' = latestOuter c" by (rule advance_outer)
    ultimately show ?thesis by (simp add: isAlreadyProcessed_def)
  next
    case False
    then obtain ps c3 w2 where "publishChecked fuel x v n ps pos c3 w2 = (Done True, c', w')"
      using assms ne
      by (auto simp: processNotice_def Let_def split: prod.splits bool.splits option.splits if_splits)
    then show ?thesis using ne by (rule publish_outer)
  qed
qed

lemma advanceNotice_offset: "advanceNotice fuel x v n pos c w = (r, c', w') \<Longrightarrow> latestMsgOffset c' = latestMsgOffset c"
  by (auto simp: advanceNotice_def same_def split: prod.splits bool.splits outcome.splits
      dest!: prepareForkScan_outer finishForkScan_outer Align_same)

lemma completeNotice_offset: "completeNotice fuel x v bs ps pos c w = (r, c', w') \<Longrightarrow> latestMsgOffset c' = latestMsgOffset c"
  by (auto simp: completeNotice_def same_def split: prod.splits bool.splits outcome.splits
      dest!: finishForkScan_outer Align_same)

lemma writeBlockInfo_offset: "writeBlockInfoToDB x bs ps c = (r, c') \<Longrightarrow> latestMsgOffset c' = latestMsgOffset c"
  by (auto simp: writeBlockInfoToDB_def rewindForkScan_def split: option.splits if_splits prod.splits sum.splits)

lemma publishChecked_offset:
  "publishChecked fuel x v n ps pos c w = (r, c', w') \<Longrightarrow> latestMsgOffset c' = latestMsgOffset c"
  by (auto simp: publishChecked_def Let_def same_def split: prod.splits bool.splits sum.splits
      dest!: writeBlockInfo_offset WriteDrop_same WriteNew_same completeNotice_offset)

lemma processNotice_offset:
  assumes "processNotice fuel x v n pos c w = (r, c', w')"
  shows "latestMsgOffset c' = latestMsgOffset c"
proof -
  have b: "latestMsgOffset (beginNotice n c1) = latestMsgOffset c1" for c1
    using beginNotice_same [of c1 n] by (simp add: same_def)
  show ?thesis
    using assms
    by (auto simp: processNotice_def same_def b Let_def split: if_splits prod.splits bool.splits option.splits
        dest!: advanceNotice_offset prepareForkScan_outer checkAndNotify_same publishChecked_offset)
qed

lemma processLoop_acknowledged:
  "processLoop fuel x v m n c w = (Done True, c', w') \<Longrightarrow>
    (latestMsgOffset c \<noteq> 0 \<and> mOffset m \<le> latestMsgOffset c) \<or> isAlreadyProcessed n c'"
proof (induction fuel arbitrary: c w)
  case (Suc fuel)
  obtain q c1 w1 where p: "processNotice fuel x v n (Some (positionOf m)) c w = (q, c1, w1)" by (metis prod_cases3)
  show ?case
  proof (cases "quit w (tick w) \<or> (latestMsgOffset c \<noteq> 0 \<and> mOffset m \<le> latestMsgOffset c)")
    case True
    then show ?thesis using Suc.prems by (simp split: if_splits)
  next
    case False
    show ?thesis
    proof (cases q)
      case (Done b)
      then show ?thesis
        using Suc.prems Suc.IH [of c1 "advance w1"] False p acknowledged [of fuel x v n "Some (positionOf m)" c w c1 w1] processNotice_offset [OF p]
        by (cases b) auto
    qed (use Suc.prems False p in auto)
  qed
qed simp

lemma commitLoop_done:
  "commitLoop fuel m c w = (Done True, c', w') \<Longrightarrow> c' = c\<lparr>latestMsgOffset := mOffset m\<rparr>"
  by (induction fuel arbitrary: w) (auto split: if_splits)

section \<open>Lemmas: a partly published notice\<close>

lemma WriteNew_prefix:
  "WriteNewBlockNotice bs c w = (False, c', w') \<Longrightarrow>
    latestOuter c' = latestOuter c \<or> (\<exists>b \<in> set (butlast bs). latestOuter c' = Some (outerOf (config c) False b))"
proof (induction bs arbitrary: c w)
  case (Cons b bs)
  obtain q c1 w1 where p: "publishOuter (outerOf (config c) False b) c w = (q, c1, w1)" by (metis prod_cases3)
  note s = publish_same [OF p]
  show ?case
  proof (cases q)
    case True
    let ?c2 = "c1\<lparr>latestOuter := Some (outerOf (config c) False b)\<rparr>"
    have r: "WriteNewBlockNotice bs ?c2 w1 = (False, c', w')" using Cons.prems True p by simp
    have "config ?c2 = config c" using s by (auto simp: same_def)
    then show ?thesis using Cons.IH [OF r] r by (cases bs) auto
  qed (use Cons.prems p s in auto)
qed simp

lemma refused:
  assumes "latestOuter c = Some l" and "Hash (last (NewBlocks n)) \<noteq> outHash l"
    and "ParentHash (hd (NewBlocks n)) \<noteq> outHash l" and "DropBlocks n \<noteq> [] \<Longrightarrow> Hash (last (DropBlocks n)) \<noteq> outHash l"
  shows "processNotice fuel x v n pos c w = (Done False, c, w)"
proof (cases "NewBlocks n = []")
  case False
  have "\<not> isDuplicateBlockNotification n c"
    using assms(1,2) by (auto simp: isDuplicateBlockNotification_def length_Suc_conv)
  moreover have "\<not> isAlreadyProcessed n c" "\<not> msgCheck n c"
    using assms by (auto simp: isAlreadyProcessed_def msgCheck_def)
  ultimately show ?thesis using False by (simp add: processNotice_def)
qed (simp add: processNotice_def)

section \<open>A complete run\<close>

text \<open>One new block whose validation is the only object of its height; the replicas are ahead.\<close>

definition exRun :: Config where
  "exRun = exCfg\<lparr>ForkScanInterval := 0\<rparr>"

definition exNotice :: BlockChangeNotification where
  "exNotice = \<lparr> NewBlocks = [blockAt 5 7], DropBlocks = [] \<rparr>"

definition exReady :: Checker where
  "exReady = exChecker\<lparr>config := exRun, ReplicaLatestBlockNumber := 9\<rparr>"

definition exOne :: "(string \<times> bytes) list" where
  "exOne = [(exKey 7, exBytes False)]"

definition exPrefetch :: blockPrefetch where
  "exPrefetch = \<lparr> pfValidation = Some (exVal False), pfValidationErr = None, pfKeys = [exKey 7], pfKeysErr = None \<rparr>"

lemma blockAt_sel: "BlockNumber (blockAt n h) = n" "Hash (blockAt n h) = h"
  by (simp_all add: blockAt_def)

lemma exRun_keys:
  "blockValidationKey hexExt exRun (blockAt 5 7) = exKey 7" "blockValidationPrefix exRun 5 = blockValidationPrefix exCfg 5"
  "blockValidationHashFromKey exRun k = blockValidationHashFromKey exCfg k"
  by (simp_all add: exRun_def exKey_def blockValidationKey_def blockValidationPrefix_def blockValidationHashFromKey_def IsVersionMode_def)

lemma exOne_stored: "stored_validation plainSvc exOne (exKey 7) = Some (exVal False)"
  by (simp add: stored_validation_def exOne_def ex_bytes)

lemma exOne_list: "calm exOne 3 w \<Longrightarrow> listBlockValidationKeysCtx plainSvc exRun Background 5 w = (Inr [exKey 7], advance w)"
proof -
  assume c: "calm exOne 3 w"
  then have o: "arrive w = w" "objects w = exOne" "pageFuel w = Suc 2" by (simp_all add: calm_def quiet_def)
  have "listObjectsRetry plainSvc Background (blockValidationPrefix exCfg 5) None w =
      (Inr (plainPage [exKey 7] (blockValidationPrefix exCfg 5) None), advance w)"
    unfolding listObjectsRetry_def using calm_apiErr [OF c]
    by (intro retryWithBackoff_first) (simp add: ListObjectsV2_def Let_def o exOne_def plainSvc_def)
  moreover have "List.map_filter id [Some (exKey 7)] = [exKey 7]" by (simp add: List.map_filter_def)
  ultimately show ?thesis
    by (simp add: listBlockValidationKeysCtx_def o exRun_keys plainPage_def plainRest_def tokenPos_def pageSize_def Let_def numeral_3_eq_3)
qed

lemma exOne_prefetch:
  assumes "calm exOne 3 w"
  shows "prefetchNewBlocks hexExt plainSvc exRun [blockAt 5 7] w = ([exPrefetch], advance (advance w))"
  using calm_get [OF assms exOne_stored] exOne_list [of "advance w"] assms
  by (simp add: prefetchBlock_def exRun_keys exPrefetch_def blockAt_sel)

lemma exOne_plan: "calm exOne 3 w \<Longrightarrow>
  planKeys plainSvc exRun Background (hashString hexExt 7) (Some (exVal False)) [exKey 7] False [] w = (Inr (True, []), w)"
  by (simp add: exRun_keys fetchValidation_def exVal_def Let_def)

lemma exOne_flags:
  "calm exOne 3 w \<Longrightarrow> rewriteForkBlocksAtSameHeight hexExt plainSvc exRun [blockAt 5 7] [exPrefetch] w = (Inr (), w)"
  using exOne_plan [of w]
  by (simp add: numeral_3_eq_3 rewriteForkBlocksAtHeight_def planForkRewritesCtx_def planListing_def hintKeys_def hintValidation_def
      hasCanonical_def exRun_keys exPrefetch_def blockAt_def Let_def del: planKeys.simps)

lemma ex_rlp5: "rlp_pair (5, 33) = Some [0xC2, 5, 33]"
  by (simp add: rlp_pair_def big_Bytes_def nat_Bytes.simps rlp_item_def)

lemma exReady_write:
  "\<exists>d. writeBlockInfoToDB hexExt [blockAt 5 7] [exPrefetch] (exReady\<lparr>currentNotice := k\<rparr>) =
     (True, exReady\<lparr>cdb := d, currentNotice := k\<rparr>)"
  by (simp add: writeBlockInfoToDB_def prefetchedHashes_def exPrefetch_def exVal_def exReady_def exChecker_def WriteBlockInfos_def
      WriteBlockInfosWithForkScan_def buildWrite_def startWrite_def blockAt_def
      writeBlock_def GetCanonicalHashByNum_def getBlockHashByNum_def Get_def 
      cleanAbove.simps hexExt_def ex_rlp5 finishCursor_def Commit_def MaxUint64_def)

lemma exOne_calm: "calm exOne 3 (exWorld exOne)"
  by (simp add: calm_def quiet_def no_uploads_def fate_ok_def exWorld_def)

text \<open>Everything in the world but the topics and the clock.\<close>

lemma exReady_publish:
  assumes "fate_ok w" and "otherTopics w = (\<lambda>_ t. t)"
  shows "\<exists>D w'. WriteNewBlockNotice [blockAt 5 7] (exReady\<lparr>cdb := d, currentNotice := k\<rparr>) w =
    (True, exReady\<lparr>cdb := d, currentNotice := k, delivered := D, latestOuter := Some (outerOf exRun False (blockAt 5 7))\<rparr>, w')"
proof -
  let ?c = "exReady\<lparr>cdb := d, currentNotice := k\<rparr>"
  have t: "targets ?c = [(outerVersionDestination, ''outer-v1'')]"
    by (simp add: targets_def exReady_def exChecker_def exRun_def exCfg_def IsVersionMode_def)
  have f: "fate w (tick w) = Ack" using assms(1) by (simp add: fate_ok_def)
  have "config exReady = exRun" "delivered exReady = (\<lambda>_. {})" by (simp_all add: exReady_def exChecker_def)
  then show ?thesis
    by (simp add: publishOuter_def t isDelivered_def writeOuter_def topicSettle_def f assms(2) markDelivered_def Let_def)
      (rule exI, rule refl)
qed

lemma exReady_run: "\<exists>c' w'. processNotice 1 hexExt plainSvc exNotice None exReady (exWorld exOne) = (Done True, c', w')"
proof -
  let ?w = "advance (advance (exWorld exOne))"
  define k where "k = currentNotice (beginNotice exNotice exReady)"
  let ?b = "blockAt 5 7"
  have cw: "calm exOne 3 ?w" using exOne_calm by simp
  have e: "NewBlocks exNotice = [?b]" "DropBlocks exNotice = []" by (simp_all add: exNotice_def)
  have c: "latestOuter exReady = None" "config exReady = exRun" "\<not> ContinuousForkScan exRun" "etcdLock exReady = None" "\<not> isOuterSingletonAlign exReady"
    by (simp_all add: exReady_def exChecker_def ContinuousForkScan_def exRun_def)
  have b: "beginNotice exNotice exReady = exReady\<lparr>currentNotice := k\<rparr>"
    by (simp add: k_def beginNotice_def Let_def exReady_def exChecker_def)
  have pr: "prepareForkScan hexExt exNotice None exReady = (True, exReady)" by (simp add: prepareForkScan_def c)
  have ck: "checkAndNotify 1 plainSvc 5 t (exReady\<lparr>currentNotice := k\<rparr>) ?w = Some (True, exReady\<lparr>currentNotice := k\<rparr>, ?w)" for t
    by (simp add: checkAndNotify_def exReady_def exChecker_def now_def advance_def exWorld_def Second_def)
  obtain d where d': "writeBlockInfoToDB hexExt [?b] [exPrefetch] (exReady\<lparr>currentNotice := k\<rparr>) =
      (True, exReady\<lparr>cdb := d, currentNotice := k\<rparr>)"
    using exReady_write by blast
  obtain D w' where p: "WriteNewBlockNotice [?b] (exReady\<lparr>cdb := d, currentNotice := k\<rparr>) ?w =
    (True, exReady\<lparr>cdb := d, currentNotice := k, delivered := D, latestOuter := Some (outerOf exRun False ?b)\<rparr>, w')"
    using exReady_publish [of ?w k d] cw by (auto simp: calm_def advance_def exWorld_def)
  have "\<exists>c' w'. publishChecked 1 hexExt plainSvc exNotice [exPrefetch] None (exReady\<lparr>currentNotice := k\<rparr>) ?w = (Done True, c', w')"
    using exOne_flags [OF cw] p d'
    by (simp add: publishChecked_def e c completeNotice_def AlignOuterSingleton_def finishForkScan_def split_beta
        del: WriteNewBlockNotice.simps rewriteForkBlocksAtSameHeight.simps)
  then show ?thesis
    using exOne_prefetch [OF exOne_calm] ck
    by (simp add: processNotice_def e c isDuplicateBlockNotification_def isAlreadyProcessed_def msgCheck_def pr b blockAt_sel
        Let_def del: prefetchNewBlocks.simps)
qed

section \<open>Properties\<close>

text \<open>
  C1: An acknowledged notice is fully carried out. When processing a notice that was not processed before
  succeeds, the notice continued the published chain, the canonical index is the old one with exactly
  its new blocks installed, its last block is the latest published one, the index and the cursor of the
  scan stay consistent, and a repetition of the notice is recognised, whatever the other services and
  processes did during the run.
\<close>

theorem acknowledged_notice_is_installed:
  assumes "processNotice fuel x v n pos c w = (Done True, c', w')"
    and "\<not> isAlreadyProcessed n c" and "position_ok pos" and "scanned x c" and "ascending (NewBlocks n)"
  shows "msgCheck n c \<and> isAlreadyProcessed n c' \<and> scanned x c' \<and>
    canon (store c') = install (NewBlocks n) (canon (store c)) \<and>
    latestOuter c' = Some (outerOf (config c) False (last (NewBlocks n)))"
  using assms by (rule processNotice_ok)

theorem acknowledged_notice_is_installed_witness:
  "\<exists>c' w'. processNotice 1 hexExt plainSvc exNotice None exReady (exWorld exOne) = (Done True, c', w') \<and>
     canon (store c') 5 = Some 7"
proof -
  obtain c' w' where r: "processNotice 1 hexExt plainSvc exNotice None exReady (exWorld exOne) = (Done True, c', w')"
    using exReady_run by blast
  have "\<not> isAlreadyProcessed exNotice exReady" "position_ok None" "scanned hexExt exReady" "ascending (NewBlocks exNotice)"
    by (simp_all add: isAlreadyProcessed_def exReady_def exChecker_def position_ok_def scanned_def index_ok_def durable_def
        ascending_def exNotice_def)
  from acknowledged_notice_is_installed [OF r this] r show ?thesis
    by (auto simp: install_def exNotice_def blockAt_def)
qed

text \<open>
  C2: A message is committed only after it was processed. When an iteration of the main loop ends with a
  commit, the offset recorded is the one of the message, and either an earlier commit had covered the
  message or the last block of its notice is the latest published one; failures, retries and undecodable
  messages in between never lead to a commit of an unpublished notice.
\<close>

theorem commit_follows_publication:
  assumes "runStep fuel x v (Fetched m) c w = (Done True, c', w')" and "mNotice m = Some n"
  shows "latestMsgOffset c' = mOffset m \<and>
    (isAlreadyProcessed n c' \<or> (latestMsgOffset c \<noteq> 0 \<and> mOffset m \<le> latestMsgOffset c))"
proof -
  obtain c1 w1 where l: "processLoop fuel x v m n c (advance w) = (Done True, c1, w1)"
    and k: "commitLoop fuel m c1 w1 = (Done True, c', w')"
    using assms by (auto simp: runStep_def split: if_splits prod.splits outcome.splits bool.splits)
  have c': "c' = c1\<lparr>latestMsgOffset := mOffset m\<rparr>" using commitLoop_done [OF k] .
  then have "isAlreadyProcessed n c' = isAlreadyProcessed n c1" by (simp add: isAlreadyProcessed_def)
  with processLoop_acknowledged [OF l] c' show ?thesis by auto
qed

definition exMsg :: message where
  "exMsg = \<lparr> mTopic = ''inner'', mPartition = 0, mOffset = 8, mNotice = Some exNotice \<rparr>"

theorem commit_follows_publication_witness:
  "\<exists>c' w'. runStep 2 hexExt plainSvc (Fetched exMsg) (exReady\<lparr>latestOuter := Some (outerOf exRun False (blockAt 5 7))\<rparr>) (exWorld exOne) =
     (Done True, c', w') \<and> latestMsgOffset c' = 8"
proof -
  let ?c = "exReady\<lparr>latestOuter := Some (outerOf exRun False (blockAt 5 7))\<rparr>"
  have c: "config exReady = exRun" "\<not> ContinuousForkScan exRun" "etcdLock exReady = None" "latestMsgOffset exReady = 0"
    "\<not> isOuterSingletonAlign exReady"
    by (simp_all add: exReady_def exChecker_def ContinuousForkScan_def exRun_def)
  have p: "processNotice 1 hexExt plainSvc exNotice pos ?c w = (Done True, ?c, w)" for pos w
    using c by (simp add: processNotice_def isDuplicateBlockNotification_def exNotice_def blockAt_def outerOf_def
        advanceNotice_def prepareForkScan_def AlignOuterSingleton_def finishForkScan_def)
  obtain c' w' where r: "runStep 2 hexExt plainSvc (Fetched exMsg) ?c (exWorld exOne) = (Done True, c', w')"
    using p c by (simp add: runStep_def exMsg_def exWorld_def advance_def numeral_2_eq_2)
  have "mNotice exMsg = Some exNotice" by (simp add: exMsg_def)
  from commit_follows_publication [OF r this] r show ?thesis by (auto simp: exMsg_def)
qed

text \<open>
  C38: A notice that was published in part can never be retried. When publishing a new block fails after at
  least one earlier block of the same notice went out, the checker has already moved its latest published
  block into the middle of the notice; if the notice's blocks have different hashes, form no cycle
  and are not among its dropped blocks, then every further attempt is refused before it does
  anything, and the retry loop of the main flow never acknowledges the message.
\<close>

theorem partly_published_notice_is_stuck:
  assumes "WriteNewBlockNotice (NewBlocks n) c w = (False, c', w')" and "latestOuter c' \<noteq> latestOuter c"
    and "distinct (map Hash (NewBlocks n))" and "ParentHash (hd (NewBlocks n)) \<notin> Hash ` set (NewBlocks n)"
    and "\<forall>b \<in> set (DropBlocks n). Hash b \<notin> Hash ` set (NewBlocks n)"
    and "mOffset m > latestMsgOffset c'"
  shows "processNotice fuel x v n pos c' w2 = (Done False, c', w2) \<and> fst (processLoop fuel x v m n c' w2) \<noteq> Done True"
proof -
  let ?bs = "NewBlocks n"
  obtain b where b: "b \<in> set (butlast ?bs)" and l: "latestOuter c' = Some (outerOf (config c) False b)"
    using WriteNew_prefix [OF assms(1)] assms(2) by blast
  have ne: "?bs \<noteq> []" and bin: "b \<in> set ?bs" using b by (auto dest: in_set_butlastD)
  have h: "outHash (outerOf (config c) False b) = Hash b" by (simp add: outerOf_def)
  have "map Hash ?bs = map Hash (butlast ?bs) @ [Hash (last ?bs)]"
    using append_butlast_last_id [OF ne] by (metis list.simps(8,9) map_append)
  with assms(3) b have "Hash (last ?bs) \<noteq> Hash b" by auto
  moreover have "ParentHash (hd ?bs) \<noteq> Hash b" using assms(4) bin by auto
  moreover have "DropBlocks n \<noteq> [] \<Longrightarrow> Hash (last (DropBlocks n)) \<noteq> Hash b" using assms(5) bin by auto
  ultimately have r: "processNotice k x v n p c' t = (Done False, c', t)" for k p t
    by (intro refused [OF l]) (simp_all add: h)
  have "fst (processLoop fuel x v m n c' w2) \<noteq> Done True"
    using assms(6) by (induction fuel arbitrary: w2) (auto simp: r)
  with r show ?thesis by simp
qed

text \<open>Two blocks; the write of the second one, at tick 1, fails.\<close>

definition exPair2 :: BlockChangeNotification where
  "exPair2 = \<lparr> NewBlocks = [\<lparr> BlockNumber = 5, Hash = 11, ParentHash = 10, Timestamp = 50 \<rparr>,
     \<lparr> BlockNumber = 6, Hash = 13, ParentHash = 11, Timestamp = 60 \<rparr>], DropBlocks = [] \<rparr>"

theorem partly_published_notice_is_stuck_witness:
  "\<exists>c' w'. WriteNewBlockNotice (NewBlocks exPair2) exReady (exWorld []\<lparr>fate := (\<lambda>t. if t = 1 then Fail else Ack)\<rparr>) = (False, c', w') \<and>
     latestOuter c' \<noteq> latestOuter exReady \<and> fst (processLoop 9 hexExt plainSvc exMsg exPair2 c' w') \<noteq> Done True"
proof -
  let ?w = "exWorld []\<lparr>fate := (\<lambda>t. if t = 1 then Fail else Ack)\<rparr>"
  have c: "config exReady = exRun" "delivered exReady = (\<lambda>_. {})" "latestOuter exReady = None" "latestMsgOffset exReady = 0"
    by (simp_all add: exReady_def exChecker_def)
  have t: "targets c = [(outerVersionDestination, ''outer-v1'')]" if "config c = exRun" "etcdLock c = None" for c
    using that by (simp add: targets_def exRun_def exCfg_def IsVersionMode_def)
  have l: "etcdLock exReady = None" by (simp add: exReady_def exChecker_def)
  obtain c' w' where r: "WriteNewBlockNotice (NewBlocks exPair2) exReady ?w = (False, c', w')"
    and n: "latestOuter c' \<noteq> None" and o: "latestMsgOffset c' = 0"
    by (simp add: exPair2_def publishOuter_def t c l isDelivered_def writeOuter_def topicSettle_def markDelivered_def Let_def
        exWorld_def advance_def appendTopic_def noticeKey_def outerOf_def)
  have "fst (processLoop 9 hexExt plainSvc exMsg exPair2 c' w') \<noteq> Done True"
    using partly_published_notice_is_stuck [OF r, of exMsg 9 hexExt plainSvc None w'] n o c(3)
    by (simp add: exPair2_def exMsg_def)
  with r n c(3) show ?thesis by auto
qed

end
