(* ===== verification/Lifecycle.thy ===== *)
theory Lifecycle
  imports Process
begin

text \<open>
  Start-up, \<^verbatim>\<open>NewChecker\<close> of \<^verbatim>\<open>check/check.go\<close>, and the life of a checker: attempts at messages, periodic
  checks, commits, changes of leadership, the scan worker, crashes and restarts. The lemmas show that
  each complete operation is a path of the fine-grained system of \<open>ScanSystem\<close>, so that what holds
  in all reachable states there holds for the program as it is composed.
\<close>

section \<open>Start-up\<close>

text \<open>
  What opening the store and creating the clients returns: the store's contents, the two clients, and
  whether the configuration of the inner reader is accepted (\<^verbatim>\<open>kafka.NewReader\<close> panics otherwise).
\<close>

record clients =
  openedDB :: "pebble res"
  s3Client :: "unit res"
  etcdConn :: "unit res"
  innerReaderOK :: bool

text \<open>The zero value of \<^verbatim>\<open>time.Time\<close>, on the clock of the world.\<close>

definition zeroTime :: int where
  "zeroTime = - 62135596800 * Second"

definition freshChecker :: "Config \<Rightarrow> pebble \<Rightarrow> Checker" where
  "freshChecker cfg p = \<lparr> config = cfg, latestOuter = None, etcdLock = None, latestWriteEtcd = zeroTime,
     latestMsgOffset = 0, isOuterSingletonAlign = False, cachedOuterSingle = None, ReplicaLatestBlockNumber = 0,
     lastWrittenBlockNumber = 0, currentNotice = \<lparr> nidTail = 0, nidNewCount = 0, nidDropCount = 0 \<rparr>,
     delivered = (\<lambda>_. {}), forkState = None, forkRecoveryAnchor = None, forkRecoveryDrop = False, forkAligned = False,
     forkSchedule = zeroSchedule 0, forkBatch = None, batches = 0, cdb = \<lparr> db = p, latest = None \<rparr> \<rparr>"

text \<open>The outer topic whose last message is the latest published block.\<close>

definition ownTopic :: "Config \<Rightarrow> string" where
  "ownTopic cfg = (if IsVersionMode cfg then OuterVersionNewBlockTopic cfg else OuterNewBlockTopic cfg)"

text \<open>After the clients: the latest notice, the cursor, and in version mode the leadership.\<close>

definition startChecker :: "nat \<Rightarrow> ext \<Rightarrow> Config \<Rightarrow> pebble \<Rightarrow> world \<Rightarrow> Checker res outcome \<times> world" where
  "startChecker fuel x cfg p w =
     (case GetLastOuterBlockNotice (OuterBrokers cfg) (ownTopic cfg) w of
        (Inl e, w1) \<Rightarrow> (Done (Inl e), w1)
      | (Inr n, w1) \<Rightarrow>
          (case loadForkScan x ((freshChecker cfg p)\<lparr>latestOuter := n\<rparr>) of
             Inl e \<Rightarrow> (Done (Inl e), w1)
           | Inr c \<Rightarrow>
               if IsVersionMode cfg
               then (case InitLeaderFromEtcd fuel c w1 of
                       (Done (Inl e), _, w2) \<Rightarrow> (Done (Inl e), w2)
                     | (Done (Inr _), c', w2) \<Rightarrow> (Done (Inr c'), w2)
                     | (Panic, _, w2) \<Rightarrow> (Panic, w2)
                     | (NoFuel, _, w2) \<Rightarrow> (NoFuel, w2))
               else (Done (Inr c), w1)))"

text \<open>\<open>load\<close> is the answer of etcd to the first listing of the nodes.\<close>

definition NewChecker ::
  "nat \<Rightarrow> ext \<Rightarrow> clients \<Rightarrow> Config \<Rightarrow> (KeyValue list \<times> int) res \<Rightarrow> RWMap \<Rightarrow> world \<Rightarrow> Checker res outcome \<times> RWMap \<times> world" where
  "NewChecker fuel x k cfg load m w =
     (case Validate cfg of
        Inl e \<Rightarrow> (Done (Inl e), m, w)
      | Inr _ \<Rightarrow> (case openedDB k of
        Inl e \<Rightarrow> (Done (Inl e), m, w)
      | Inr p \<Rightarrow> (case s3Client k of
        Inl e \<Rightarrow> (Done (Inl e), m, w)
      | Inr _ \<Rightarrow> (case etcdConn k of
        Inl e \<Rightarrow> (Done (Inl e), m, w)
      | Inr _ \<Rightarrow> (case InitFromEtcd (ChainID cfg) (Version cfg) load m of
        (Inl e, m1) \<Rightarrow> (Done (Inl e), m1, w)
      | (Inr _, m1) \<Rightarrow>
          if \<not> innerReaderOK k then (Panic, m1, w)
          else (case startChecker fuel x cfg p w of (r, w1) \<Rightarrow> (r, m1, w1)))))))"

section \<open>What the main flow does to the scan\<close>

text \<open>Steps that keep the index: recovery, checkpoints, and everything that does not concern the scan.\<close>

definition main_quiet :: "ext \<Rightarrow> Checker \<Rightarrow> Checker \<Rightarrow> bool" where
  "main_quiet x c c' = (scan_untouched c c' \<or> (\<exists>n p r. prepareForkScan x n p c = (r, c')) \<or>
     (\<exists>p r. position_ok p \<and> finishForkScan x p c = (r, c')))"

abbreviation quiets :: "ext \<Rightarrow> Checker \<Rightarrow> Checker \<Rightarrow> bool" where
  "quiets x \<equiv> (main_quiet x)\<^sup>*\<^sup>*"

text \<open>An attempt at a notice writes the index at most once, between steps that keep it.\<close>

definition handled :: "ext \<Rightarrow> Checker \<Rightarrow> Checker \<Rightarrow> bool" where
  "handled x c c' = (\<exists>c1 c2. quiets x c c1 \<and>
     (c2 = c1 \<or> (\<exists>bs pfs r. ascending bs \<and> writeBlockInfoToDB x bs pfs c1 = (r, c2))) \<and> quiets x c2 c')"

lemma same_untouched: "same c c' \<Longrightarrow> scan_untouched c c'"
  by (simp add: same_def scan_untouched_def)

lemma quiet_same: "same c c' \<Longrightarrow> quiets x c c'"
  by (rule r_into_rtranclp) (simp add: main_quiet_def same_untouched)

lemma quiet_prepare: "prepareForkScan x n p c = (r, c') \<Longrightarrow> quiets x c c'"
  by (rule r_into_rtranclp) (auto simp: main_quiet_def)

lemma quiet_finish: "finishForkScan x p c = (r, c') \<Longrightarrow> position_ok p \<Longrightarrow> quiets x c c'"
  by (rule r_into_rtranclp) (auto simp: main_quiet_def)

lemmas quiets_trans = rtranclp_trans [of "main_quiet x" for x]

lemma advanceNotice_quiets:
  assumes "advanceNotice fuel x v n pos c w = (r, c', w')" and "position_ok pos"
  shows "quiets x c c'"
proof -
  obtain ok c1 where p: "prepareForkScan x n pos c = (ok, c1)" by fastforce
  obtain q c2 w2 where a: "AlignOuterSingleton fuel x v c1 w = (q, c2, w2)" by (metis prod_cases3)
  obtain ok3 c3 where f: "finishForkScan x pos c2 = (ok3, c3)" by fastforce
  have 1: "quiets x c c1" using p by (rule quiet_prepare)
  have 2: "quiets x c c2" using 1 Align_same [OF a] quiet_same quiets_trans by metis
  have 3: "quiets x c c3" using 2 quiet_finish [OF f assms(2)] quiets_trans by metis
  have "c' = c1 \<or> c' = c2 \<or> c' = c3"
    using assms(1) p a f by (auto simp: advanceNotice_def split: bool.splits outcome.splits)
  then show ?thesis using 1 2 3 by auto
qed

lemma completeNotice_quiets:
  assumes "completeNotice fuel x v bs ps pos c w = (r, c', w')" and "position_ok pos"
  shows "quiets x c c'"
proof -
  obtain q c1 w1 where a: "AlignOuterSingleton fuel x v c w = (q, c1, w1)" by (metis prod_cases3)
  obtain ok c2 where f: "finishForkScan x pos c1 = (ok, c2)" by fastforce
  have 1: "quiets x c c1" using Align_same [OF a] quiet_same by blast
  have 2: "quiets x c c2" using 1 quiet_finish [OF f assms(2)] quiets_trans by metis
  have "c' = c1 \<or> c' = c2"
    using assms(1) a f by (auto simp: completeNotice_def split: bool.splits outcome.splits prod.splits)
  then show ?thesis using 1 2 by auto
qed

lemma publishChecked_quiets:
  assumes "publishChecked fuel x v n ps pos c w = (r, c', w')" and "position_ok pos"
  obtains ok c1 where "writeBlockInfoToDB x (NewBlocks n) ps c = (ok, c1)" "quiets x c1 c'"
proof -
  obtain k w1 where d: "rewriteDropBlocks x v (config c) (rev (DropBlocks n)) w = (k, w1)" by fastforce
  obtain ok c1 where wr: "writeBlockInfoToDB x (NewBlocks n) ps c = (ok, c1)" by fastforce
  obtain q w2 where f: "rewriteForkBlocksAtSameHeight x v (config c) (NewBlocks n) ps w1 = (q, w2)" by fastforce
  obtain ok2 c2 w3 where dr: "WriteDropBlockNotice (rev (DropBlocks n)) c1 w2 = (ok2, c2, w3)" by (metis prod_cases3)
  obtain ok3 c3 w4 where nw: "WriteNewBlockNotice (NewBlocks n) c2 w3 = (ok3, c3, w4)" by (metis prod_cases3)
  obtain q4 c4 w5 where cm: "completeNotice fuel x v (NewBlocks n) ps pos c3 w4 = (q4, c4, w5)" by (metis prod_cases3)
  have 2: "quiets x c1 c2" using WriteDrop_same [OF dr] quiet_same by blast
  have 3: "quiets x c1 c3" using 2 WriteNew_same [OF nw] quiet_same quiets_trans by metis
  have 4: "quiets x c1 c4" using 3 completeNotice_quiets [OF cm assms(2)] quiets_trans by metis
  have "c' = c1 \<or> c' = c2 \<or> c' = c3 \<or> c' = c4"
    using assms(1) d wr f dr nw cm
    by (auto simp: publishChecked_def Let_def split: bool.splits sum.splits)
  then have "quiets x c1 c'" using 2 3 4 by auto
  with wr show thesis by (rule that)
qed

lemma processNotice_handled:
  assumes "processNotice fuel x v n pos c w = (r, c', w')" and "ascending (NewBlocks n)" and "position_ok pos"
  shows "handled x c c'"
proof -
  obtain ra ca wa where ad: "advanceNotice fuel x v n pos c w = (ra, ca, wa)" by (metis prod_cases3)
  obtain ok c1 where pr: "prepareForkScan x n pos c = (ok, c1)" by fastforce
  obtain ps w1 where pf: "prefetchNewBlocks x v (config c) (NewBlocks n) w = (ps, w1)" by fastforce
  have qa: "quiets x c ca" using advanceNotice_quiets [OF ad assms(3)] .
  have q1: "quiets x c c1" using pr by (rule quiet_prepare)
  have q2: "quiets x c (beginNotice n c1)" using q1 beginNotice_same [of c1 n] quiet_same quiets_trans by metis
  have h: "quiets x c c2 \<Longrightarrow> handled x c c2" for c2 unfolding handled_def by blast
  show ?thesis
  proof (cases "\<exists>ps c3 w2. quiets x c c3 \<and> publishChecked fuel x v n ps pos c3 w2 = (r, c', w')")
    case True
    then obtain ps c3 w2 where "quiets x c c3" and pc: "publishChecked fuel x v n ps pos c3 w2 = (r, c', w')" by blast
    moreover obtain ok' c4 where "writeBlockInfoToDB x (NewBlocks n) ps c3 = (ok', c4)" "quiets x c4 c'"
      using pc assms(3) by (rule publishChecked_quiets)
    ultimately show ?thesis using assms(2) unfolding handled_def by blast
  next
    case False
    have ck: "quiets x c c3" if "checkAndNotify fuel v k t (beginNotice n c1) w1 = Some (b, c3, w2)" for k t b c3 w2
      using q2 checkAndNotify_same [OF that] quiet_same quiets_trans by metis
    have "c' = c \<or> c' = ca \<or> c' = c1 \<or> c' = beginNotice n c1 \<or> quiets x c c'"
      using assms(1) ad pr pf ck False
      by (auto simp: processNotice_def Let_def split: if_splits bool.splits option.splits prod.splits)
    then show ?thesis using qa q1 q2 h by auto
  qed
qed

section \<open>Paths of the fine-grained system\<close>

lemma main_quiet_step:
  assumes "main_quiet x (chkr s) c'"
  shows "scan_step x v s (s\<lparr>chkr := c'\<rparr>)"
  using assms unfolding main_quiet_def
  by (elim disjE exE conjE) (blast intro: scan_step.bookkeeping scan_step.recover scan_step.checkpoint)+

lemma quiets_path: "quiets x (chkr s) c' \<Longrightarrow> (scan_step x v)\<^sup>*\<^sup>* s (s\<lparr>chkr := c'\<rparr>)"
proof (induction rule: rtranclp_induct)
  case (step c1 c2)
  have "scan_step x v (s\<lparr>chkr := c1\<rparr>) (s\<lparr>chkr := c1, chkr := c2\<rparr>)"
    using step.hyps(2) by (intro main_quiet_step) simp
  with step.IH show ?case by simp
qed simp

lemma main_quiet_keeps: "main_quiet x c c' \<Longrightarrow> durable x c \<Longrightarrow> keeps x c c'"
  unfolding main_quiet_def
  by (elim disjE exE conjE)
    (auto simp: scan_untouched_def intro: keeps_cong [OF keeps_refl] prepareForkScan_keeps finishForkScan_keeps)

lemma quiets_keeps: "quiets x c c' \<Longrightarrow> durable x c \<Longrightarrow> keeps x c c'"
proof (induction rule: rtranclp_induct)
  case (step c1 c2)
  then have "keeps x c c1" "durable x c1" by (simp_all add: keeps_def)
  then show ?case using main_quiet_keeps [OF step.hyps(2)] keeps_trans by blast
qed simp

text \<open>A whole attempt, as a path; the mappings it changed are counted once.\<close>

lemma handled_path:
  assumes "scan_inv x s" and "handled x (chkr s) c'"
  shows "(scan_step x v)\<^sup>*\<^sup>* s (s\<lparr>chkr := c', outside := w', stamp := bump (chkr s) c' (stamp s)\<rparr>)"
proof -
  have d: "durable x (chkr s)" and i: "index_ok (store (chkr s))" and ct: "ContinuousForkScan (config (chkr s))"
    using assms(1) by (simp_all add: scan_inv_def)
  obtain c1 c2 where q1: "quiets x (chkr s) c1" and q2: "quiets x c2 c'"
    and wr: "c2 = c1 \<or> (\<exists>bs pfs r. ascending bs \<and> writeBlockInfoToDB x bs pfs c1 = (r, c2))"
    using assms(2) unfolding handled_def by blast
  have k1: "keeps x (chkr s) c1" using q1 d by (rule quiets_keeps)
  then have c1: "durable x c1" "index_ok (store c1)" "ContinuousForkScan (config c1)" "canon (store c1) = canon (store (chkr s))"
    using d i ct by (simp_all add: keeps_def)
  let ?s1 = "s\<lparr>chkr := c1\<rparr>" and ?s2 = "s\<lparr>chkr := c2, stamp := bump c1 c2 (stamp s)\<rparr>"
  have p2: "(scan_step x v)\<^sup>*\<^sup>* ?s1 ?s2 \<and> durable x c2"
  proof (cases "c2 = c1")
    case True
    then show ?thesis using c1 by simp
  next
    case False
    then obtain bs pfs r where a: "ascending bs" and w: "writeBlockInfoToDB x bs pfs c1 = (r, c2)" using wr by blast
    have "scan_step x v ?s1 (?s1\<lparr>chkr := c2, stamp := bump (chkr ?s1) c2 (stamp ?s1)\<rparr>)"
      using scan_step.canonical [of x bs pfs ?s1 r c2 v] a w by simp
    moreover have "durable x c2" using writeBlockInfoToDB_writes [OF w a c1(2,1,3)] by (simp add: writes_def)
    ultimately show ?thesis by auto
  qed
  then have d2: "durable x c2" by simp
  have p1: "(scan_step x v)\<^sup>*\<^sup>* s ?s1" using q1 by (rule quiets_path)
  have p3: "(scan_step x v)\<^sup>*\<^sup>* ?s2 (?s2\<lparr>chkr := c'\<rparr>)" using q2 by (intro quiets_path) simp
  have p4: "scan_step x v (?s2\<lparr>chkr := c'\<rparr>) (?s2\<lparr>chkr := c', outside := w'\<rparr>)" by (rule scan_step.elsewhere)
  have path: "(scan_step x v)\<^sup>*\<^sup>* s (?s2\<lparr>chkr := c', outside := w'\<rparr>)"
    using rtranclp_trans [OF p1 rtranclp_trans [OF conjunct1 [OF p2] rtranclp.rtrancl_into_rtrancl [OF p3 p4]]] .
  have "canon (store c') = canon (store c2)" using quiets_keeps [OF q2 d2] by (simp add: keeps_def)
  then have "bump c1 c2 (stamp s) = bump (chkr s) c' (stamp s)" using c1(4) by (simp add: bump_def fun_eq_iff)
  then have e: "?s2\<lparr>chkr := c', outside := w'\<rparr> =
      s\<lparr>chkr := c', outside := w', stamp := bump (chkr s) c' (stamp s)\<rparr>" by simp
  show ?thesis using path unfolding e .
qed

section \<open>The other operations\<close>

lemma ChangeToChainLeader_untouched:
  "ChangeToChainLeader fuel c w = (r, c', w') \<Longrightarrow> scan_untouched c c'"
  by (auto simp: ChangeToChainLeader_def scan_untouched_def split: if_splits prod.splits outcome.splits bool.splits)

lemma RevokeChainLeader_untouched: "RevokeChainLeader c w = (c', w') \<Longrightarrow> scan_untouched c c'"
  by (auto simp: RevokeChainLeader_def scan_untouched_def split: option.splits prod.splits)

lemma onLost_untouched: "onLost c w = (c', w') \<Longrightarrow> scan_untouched c c'"
  unfolding onLost_def by (drule RevokeChainLeader_untouched) (simp add: scan_untouched_def)

lemma versionCheck_untouched: "versionCheck fuel c w = (r, c', w') \<Longrightarrow> scan_untouched c c'"
  by (auto simp: versionCheck_def scan_untouched_def split: prod.splits sum.splits option.splits if_splits outcome.splits
      dest!: ChangeToChainLeader_untouched RevokeChainLeader_untouched)

lemma InitLeader_untouched: "InitLeaderFromEtcd fuel c w = (r, c', w') \<Longrightarrow> scan_untouched c c'"
  by (auto simp: InitLeaderFromEtcd_def scan_untouched_def split: prod.splits sum.splits option.splits if_splits
      dest!: ChangeToChainLeader_untouched)

lemma commitLoop_untouched: "commitLoop fuel m c w = (r, c', w') \<Longrightarrow> scan_untouched c c'"
  by (induction fuel arbitrary: w) (auto simp: scan_untouched_def split: if_splits)

lemma CheckAndNotifyEtcd_untouched: "CheckAndNotifyEtcd fuel v c w = Some (b, c', w') \<Longrightarrow> scan_untouched c c'"
  unfolding CheckAndNotifyEtcd_def using checkAndNotify_same same_untouched by blast

lemma startChecker_loads:
  assumes "startChecker fuel x cfg p w = (Done (Inr c), w')"
  obtains n c1 where "loadForkScan x ((freshChecker cfg p)\<lparr>latestOuter := n\<rparr>) = Inr c1" "scan_untouched c1 c"
proof -
  obtain n w1 c1 where l: "loadForkScan x ((freshChecker cfg p)\<lparr>latestOuter := n\<rparr>) = Inr c1"
    and r: "(c = c1) \<or> InitLeaderFromEtcd fuel c1 w1 = (Done (Inr ()), c, w')"
    using assms by (auto simp: startChecker_def split: prod.splits sum.splits if_splits outcome.splits)
  have "scan_untouched c1 c" using r InitLeader_untouched by (auto simp: scan_untouched_def)
  with l show thesis by (rule that)
qed

lemma NewChecker_starts:
  assumes "NewChecker fuel x k cfg load m w = (Done (Inr c), m', w')"
  obtains p where "Validate cfg = Inr ()" "openedDB k = Inr p" "startChecker fuel x cfg p w = (Done (Inr c), w')"
  using assms that by (auto simp: NewChecker_def split: sum.splits prod.splits if_splits)

lemma NewChecker_path:
  assumes "NewChecker fuel x k (config (chkr s)) load m w = (Done (Inr c), m', w')" and "openedDB k = Inr (store (chkr s))"
  shows "(scan_step x v)\<^sup>*\<^sup>* s (s\<lparr>chkr := c, wrk := Idle, outside := w'\<rparr>)"
proof -
  have st: "startChecker fuel x (config (chkr s)) (store (chkr s)) w = (Done (Inr c), w')"
    using assms by (auto elim: NewChecker_starts)
  obtain n c1 where l: "loadForkScan x ((freshChecker (config (chkr s)) (store (chkr s)))\<lparr>latestOuter := n\<rparr>) = Inr c1"
    and u: "scan_untouched c1 c"
    using st by (rule startChecker_loads)
  let ?s1 = "s\<lparr>chkr := c1, wrk := Idle\<rparr>" and ?s2 = "s\<lparr>chkr := c, wrk := Idle\<rparr>"
  have 1: "scan_step x v s ?s1"
    using l by (intro scan_step.restart) (simp_all add: freshChecker_def)
  have e: "?s1\<lparr>chkr := c\<rparr> = ?s2" by simp
  have "scan_step x v ?s1 (?s1\<lparr>chkr := c\<rparr>)" using u by (intro scan_step.bookkeeping) simp
  then have 2: "scan_step x v ?s1 ?s2" unfolding e .
  have 3: "scan_step x v ?s2 (?s2\<lparr>outside := w'\<rparr>)" by (rule scan_step.elsewhere)
  show ?thesis
    using rtranclp.rtrancl_into_rtrancl [OF converse_rtranclp_into_rtranclp [OF 1 r_into_rtranclp [of "scan_step x v", OF 2]] 3] .
qed

section \<open>The life of a checker\<close>

text \<open>
  One step is a whole attempt at a message, with whatever result; the periodic check of the replicas; the
  commit of a message; a tick of the version check; the loss of the lock; a start of the process on
  the store the previous one left, after any crash; or a step of the scan worker or its environment.
\<close>

inductive life_step :: "ext \<Rightarrow> svc \<Rightarrow> system \<Rightarrow> system \<Rightarrow> bool" for x v where
  attempt: "processNotice fuel x v n pos (chkr s) (outside s) = (r, c', w') \<Longrightarrow> ascending (NewBlocks n) \<Longrightarrow> position_ok pos \<Longrightarrow>
    life_step x v s (s\<lparr>chkr := c', outside := w', stamp := bump (chkr s) c' (stamp s)\<rparr>)"
| replicas: "CheckAndNotifyEtcd fuel v (chkr s) (outside s) = Some (b, c', w') \<Longrightarrow>
    life_step x v s (s\<lparr>chkr := c', outside := w'\<rparr>)"
| commit: "commitLoop fuel m (chkr s) (outside s) = (q, c', w') \<Longrightarrow> life_step x v s (s\<lparr>chkr := c', outside := w'\<rparr>)"
| version: "versionCheck fuel (chkr s) (outside s) = (q', c', w') \<Longrightarrow> life_step x v s (s\<lparr>chkr := c', outside := w'\<rparr>)"
| lost: "onLost (chkr s) (outside s) = (c', w') \<Longrightarrow> life_step x v s (s\<lparr>chkr := c', outside := w'\<rparr>)"
| startup: "NewChecker fuel x k (config (chkr s)) load m (outside s) = (Done (Inr c'), m', w') \<Longrightarrow>
    openedDB k = Inr (store (chkr s)) \<Longrightarrow> life_step x v s (s\<lparr>chkr := c', wrk := Idle, outside := w'\<rparr>)"
| worker: "scan_step x v s t \<Longrightarrow> life_step x v s t"

lemma untouched_path:
  assumes "scan_untouched (chkr s) c'"
  shows "(scan_step x v)\<^sup>*\<^sup>* s (s\<lparr>chkr := c', outside := w'\<rparr>)"
proof -
  have "scan_step x v s (s\<lparr>chkr := c'\<rparr>)" using assms by (rule scan_step.bookkeeping)
  moreover have "scan_step x v (s\<lparr>chkr := c'\<rparr>) (s\<lparr>chkr := c', outside := w'\<rparr>)" by (rule scan_step.elsewhere)
  ultimately show ?thesis by (metis rtranclp.simps)
qed

lemma life_step_path:
  assumes "scan_inv x s" and "life_step x v s t"
  shows "(scan_step x v)\<^sup>*\<^sup>* s t"
  using assms(2)
proof cases
  case (attempt fuel n pos r c' w')
  show ?thesis unfolding attempt(1)
    by (rule handled_path [OF assms(1) processNotice_handled [OF attempt(2-4)]])
next
  case (startup fuel k load m c' m' w')
  show ?thesis unfolding startup(1) using NewChecker_path startup(2,3) by blast
qed (auto intro: untouched_path CheckAndNotifyEtcd_untouched commitLoop_untouched versionCheck_untouched onLost_untouched)

lemma reachable_path: "(step)\<^sup>*\<^sup>* s t \<Longrightarrow> reachable init step s \<Longrightarrow> reachable init step t"
  by (induction rule: rtranclp_induct) (auto intro: reach_step)

lemma life_reachable:
  assumes "ext_codecs x" and "reachable (scan_init x) (life_step x v) s"
  shows "reachable (scan_init x) (scan_step x v) s"
  using assms(2)
proof (induction rule: reachable.induct)
  case (reach_step s t)
  have "scan_inv x s"
    using invariant_system.reachable_inv [OF ext_codecs.scan_system [OF assms(1)] reach_step.IH] .
  then show ?case using life_step_path [OF _ reach_step.hyps(2)] reach_step.IH reachable_path by metis
qed (rule reach_init)

section \<open>Properties\<close>

text \<open>
  C5: Complete operations refine the fine-grained system. In a state reached by any sequence of attempts at
  messages, periodic checks, commits, changes of leadership, worker steps, crashes and starts, each
  further complete operation, whatever its result, is a sequence of the single steps from which the
  interleaving of main flow and scan worker is built, and counts each changed mapping once.
\<close>

theorem life_refines_scan_system:
  assumes "reachable (scan_init x) (life_step x v) s" and "ext_codecs x" and "life_step x v s t"
  shows "(scan_step x v)\<^sup>*\<^sup>* s t"
proof -
  have "scan_inv x s"
    using invariant_system.reachable_inv [OF ext_codecs.scan_system [OF assms(2)] life_reachable [OF assms(2,1)]] .
  then show ?thesis using assms(3) by (rule life_step_path)
qed

theorem life_refines_scan_system_witness:
  "\<exists>r c' w'. processNotice 3 hexExt plainSvc exNotice None exChk (exWorld exSettled) = (r, c', w') \<and>
     (scan_step hexExt plainSvc)\<^sup>*\<^sup>* exSys (exSys\<lparr>chkr := c', outside := w', stamp := bump exChk c' (\<lambda>_. 0)\<rparr>)"
proof -
  obtain r c' w' where p: "processNotice 3 hexExt plainSvc exNotice None exChk (exWorld exSettled) = (r, c', w')"
    by (metis prod_cases3)
  have s: "chkr exSys = exChk" "outside exSys = exWorld exSettled" "stamp exSys = (\<lambda>_. 0)" by (simp_all add: exSys_def)
  have "life_step hexExt plainSvc exSys (exSys\<lparr>chkr := c', outside := w', stamp := bump (chkr exSys) c' (stamp exSys)\<rparr>)"
    using p by (intro life_step.attempt [where n = exNotice and pos = None])
      (simp_all add: s exNotice_def ascending_def position_ok_def)
  from life_refines_scan_system [OF reach_init [of "scan_init hexExt", OF ex_scan_init] hexc.ext_codecs_axioms this] p
  show ?thesis by (auto simp: s)
qed

text \<open>
  C4: The continuous scan never skips a change, for the program as composed. After any sequence of complete
  attempts at messages (also failed and partly published ones), periodic checks, commits, changes of
  leadership, worker steps, crashes and starts, each height strictly between baseline and cursor has
  been scanned to completion since its canonical mapping last changed, and the cursor in memory is
  the record in the store.
\<close>

theorem life_covers_every_change:
  assumes "reachable (scan_init x) (life_step x v) s" and "ext_codecs x" and "forkState (chkr s) = Some st"
  shows "(\<forall>h. anchorHeight (Baseline st) < h \<and> h < NextHeight st \<longrightarrow> scannedAt s h = Some (stamp s h)) \<and>
    stored x (ChainID (config (chkr s))) (Version (config (chkr s))) (store (chkr s)) st"
proof -
  have "scan_inv x s"
    using invariant_system.reachable_inv [OF ext_codecs.scan_system [OF assms(2)] life_reachable [OF assms(2,1)]] .
  then show ?thesis using assms(3) by (simp add: scan_inv_def covered_def durable_def)
qed

lemma scan_reachable_life: "reachable init (scan_step x v) s \<Longrightarrow> reachable init (life_step x v) s"
  by (induction rule: reachable.induct) (auto intro: reach_init reach_step life_step.worker)

theorem life_covers_every_change_witness:
  "\<exists>s :: system. reachable (scan_init hexExt) (life_step hexExt plainSvc) s \<and> latestMsgOffset (chkr s) = 8 \<and>
     scannedAt s 5 = Some (stamp s 5)"
proof -
  obtain s st where r: "reachable (scan_init hexExt) (scan_step hexExt plainSvc) s"
    and st: "forkState (chkr s) = Some st" and h: "anchorHeight (Baseline st) = 4" "NextHeight st = 6"
    using ex_scan_run by blast
  let ?w = "exWorld []"
  have 1: "reachable (scan_init hexExt) (life_step hexExt plainSvc) (s\<lparr>outside := ?w\<rparr>)"
    using scan_reachable_life [OF r] life_step.worker [OF scan_step.elsewhere] by (blast intro: reach_step)
  let ?c = "(chkr s)\<lparr>latestMsgOffset := 8\<rparr>"
  have "commitLoop 1 exMsg (chkr (s\<lparr>outside := ?w\<rparr>)) (outside (s\<lparr>outside := ?w\<rparr>)) = (Done True, ?c, advance ?w)"
    by (simp add: exWorld_def exMsg_def)
  from reach_step [OF 1 life_step.commit [OF this]]
  have 2: "reachable (scan_init hexExt) (life_step hexExt plainSvc) (s\<lparr>chkr := ?c, outside := advance ?w\<rparr>)" by simp
  have "forkState (chkr (s\<lparr>chkr := ?c, outside := advance ?w\<rparr>)) = Some st" using st by simp
  from life_covers_every_change [OF 2 hexc.ext_codecs_axioms this] 2 h show ?thesis
    by (intro exI [of _ "s\<lparr>chkr := ?c, outside := advance ?w\<rparr>"]) auto
qed

text \<open>What a start takes over: the store, the latest published block and the cursor; nothing is delivered yet.\<close>

theorem start_resumes:
  assumes "NewChecker fuel x k cfg load m w = (Done (Inr c), m', w')" and "openedDB k = Inr p"
  shows "Validate cfg = Inr () \<and> config c = cfg \<and> store c = p \<and> forkBatch c = None \<and>
    (ContinuousForkScan cfg \<longrightarrow> LoadForkScan x p (ChainID cfg) (Version cfg) = Inr (forkState c))"
proof -
  obtain q where v: "Validate cfg = Inr ()" and q: "openedDB k = Inr q" and st: "startChecker fuel x cfg q w = (Done (Inr c), w')"
    using assms(1) by (rule NewChecker_starts)
  have "q = p" using q assms(2) by simp
  with st obtain n c1 where l: "loadForkScan x ((freshChecker cfg p)\<lparr>latestOuter := n\<rparr>) = Inr c1" and u: "scan_untouched c1 c"
    by (blast elim: startChecker_loads)
  have "config c1 = cfg \<and> store c1 = p \<and> forkBatch c1 = None \<and>
      (ContinuousForkScan cfg \<longrightarrow> LoadForkScan x p (ChainID cfg) (Version cfg) = Inr (forkState c1))"
    using l by (auto simp: loadForkScan_def freshChecker_def recoverOuter_def alignRestored_def
        split: if_splits sum.splits option.splits)
  then show ?thesis using u v by (simp add: scan_untouched_def)
qed

end
