(* ===== verification/ForkWorker.thy ===== *)
theory ForkWorker
  imports ScanSystem
begin

text \<open>
  The background worker of \<^verbatim>\<open>fork_scan.go\<close>, \<^verbatim>\<open>runForkScan\<close>: the choice of the scanner by the configuration and
  its loop. The lemmas show that a batch which is left alone makes progress: it checkpoints every
  height it scanned, at least the first one and at most a batch.
\<close>

section \<open>The loops\<close>

text \<open>
  The context is cancelled when the checker quits. A wait ends at the next tick; \<open>chk\<close> and \<open>env\<close> are the
  shared state by ticks, which the main flow changes meanwhile. When the context is done and the
  timer has fired, \<^verbatim>\<open>select\<close> may run one more round; here the worker stops. The fuel bounds
  the number of rounds, and \<open>None\<close> is a worker that is still running after them.
\<close>

fun windowRounds :: "nat \<Rightarrow> ext \<Rightarrow> svc \<Rightarrow> Config \<Rightarrow> (nat \<Rightarrow> Checker) \<Rightarrow> ctx \<Rightarrow> world \<Rightarrow> world option" where
  "windowRounds 0 x v cfg chk ctx w = None"
| "windowRounds (Suc fuel) x v cfg chk ctx w =
     (let w1 = advance w in
      if ctx_Err ctx w1 \<noteq> None then Some w1
      else (case scanRecentForkBlocks x v cfg chk ctx w1 of (_, w2) \<Rightarrow> windowRounds fuel x v cfg chk ctx w2))"

fun continuousRounds ::
  "nat \<Rightarrow> ext \<Rightarrow> svc \<Rightarrow> (Checker \<Rightarrow> nat \<Rightarrow> Checker) \<Rightarrow> ctx \<Rightarrow> Checker \<Rightarrow> world \<Rightarrow> (Checker \<times> world) option" where
  "continuousRounds 0 x v env ctx c w = None"
| "continuousRounds (Suc fuel) x v env ctx c w =
     (if ctx_Err ctx w \<noteq> None then Some (c, w)
      else (case runForkScanOnce x v env ctx c w of
              (_, c1, w1) \<Rightarrow> (let w2 = advance w1 in continuousRounds fuel x v env ctx (env c1 (tick w2)) w2)))"

definition quitCtx :: "world \<Rightarrow> ctx" where
  "quitCtx w = (\<lambda>t. if quit w t then Some Canceled else None)"

definition runForkScan ::
  "nat \<Rightarrow> ext \<Rightarrow> svc \<Rightarrow> (Checker \<Rightarrow> nat \<Rightarrow> Checker) \<Rightarrow> Checker \<Rightarrow> world \<Rightarrow> (Checker \<times> world) option" where
  "runForkScan fuel x v env c w =
     (if ForkScanInterval (config c) \<le> 0 \<or> ForkScanLookback (config c) = 0 then Some (c, w)
      else if \<not> ContinuousForkScan (config c)
      then map_option (\<lambda>w'. (env c (tick w'), w')) (windowRounds fuel x v (config c) (env c) (quitCtx w) w)
      else continuousRounds fuel x v env (quitCtx w) c w)"

section \<open>A batch that is left alone\<close>

definition scannedRight :: "Checker \<Rightarrow> forkScanBatch \<Rightarrow> (u64 \<times> hash) list \<Rightarrow> bool" where
  "scannedRight c b checked = (\<forall>(h, k) \<in> set checked. h \<le> bUpper b \<and> readScanCanonical (store c) h = Inr k)"

lemma scanHeight_reads:
  "scanContinuousBatchHeight x v cfg chk ctx b h w = (Inr k, w') \<Longrightarrow> readScanCanonical (store (chk (tick w))) h = Inr k"
  by (auto simp: scanContinuousBatchHeight_def Let_def split: sum.splits prod.splits)

lemma scanHeights_alone:
  assumes "scanHeights n x v cfg (\<lambda>_. c) ctx b dl (bStart b + of_nat (length checked)) checked w = ((checked', e), w')"
    and "consecutive (bStart b) checked" and "scannedRight c b checked"
  shows "consecutive (bStart b) checked' \<and> scannedRight c b checked' \<and> length checked \<le> length checked' \<and>
    length checked' \<le> length checked + n"
  using assms
proof (induction n arbitrary: checked w)
  case (Suc n)
  let ?h = "bStart b + of_nat (length checked)"
  show ?case
  proof (cases "\<exists>k w1. scanContinuousBatchHeight x v cfg (\<lambda>_. c) ctx b ?h w = (Inr k, w1) \<and> ?h \<le> bUpper b \<and> ?h \<noteq> MaxUint64 \<and>
      scanHeights n x v cfg (\<lambda>_. c) ctx b dl (?h + 1) (checked @ [(?h, k)]) w1 = ((checked', e), w')")
    case True
    then obtain k w1 where s: "scanContinuousBatchHeight x v cfg (\<lambda>_. c) ctx b ?h w = (Inr k, w1)" "?h \<le> bUpper b" "?h \<noteq> MaxUint64"
      and r: "scanHeights n x v cfg (\<lambda>_. c) ctx b dl (?h + 1) (checked @ [(?h, k)]) w1 = ((checked', e), w')" by blast
    have "consecutive (bStart b) (checked @ [(?h, k)])" using consecutive_snoc [OF Suc.prems(2) s(3)] .
    moreover have "scannedRight c b (checked @ [(?h, k)])"
      using Suc.prems(3) s(2) scanHeight_reads [OF s(1)] by (auto simp: scannedRight_def)
    moreover have e: "?h + 1 = bStart b + of_nat (length (checked @ [(?h, k)]))" by simp
    ultimately show ?thesis using Suc.IH [OF r [unfolded e]] by auto
  next
    case False
    then have "checked' = checked"
      using Suc.prems(1) by (auto split: if_splits prod.splits sum.splits)
    then show ?thesis using Suc.prems by simp
  qed
qed simp

lemma begin_shape:
  assumes "beginForkScanBatch upper generation c = (Inr b, c1)"
  obtains s where "forkState c = Some s" "forkAligned c" "c1 = c\<lparr>forkBatch := Some b, batches := Suc (batches c)\<rparr>"
    "bStart b = NextHeight s" "bUpper b \<le> anchorHeight (Published s)" "bGeneration b = Generation s" "bRewind b = None"
proof (cases "forkState c")
  case None
  then show thesis using assms by (simp add: beginForkScanBatch_def)
next
  case (Some s)
  then show thesis using assms that by (auto simp: beginForkScanBatch_def Let_def split: if_splits)
qed

lemma begin_verifies:
  assumes "beginForkScanBatch upper generation c = (Inr b, c1)" and "h \<le> bUpper b" and "readScanCanonical (store c1) h = Inr k"
  shows "verifyForkScanBatchHeight c1 b h k = None"
  using assms(1)
proof (rule begin_shape)
  fix s
  assume s: "forkState c = Some s" "forkAligned c" "c1 = c\<lparr>forkBatch := Some b, batches := Suc (batches c)\<rparr>"
    "bStart b = NextHeight s" "bUpper b \<le> anchorHeight (Published s)" "bGeneration b = Generation s" "bRewind b = None"
  have "\<not> anchorHeight (Published s) < h" using assms(2) s(5) by simp
  then show ?thesis
    using assms(3) s by (simp add: verifyForkScanBatchHeight_def deref_def stale_def)
qed

lemma verifiedPrefix_all:
  "consecutive a checked \<Longrightarrow> (\<And>h k. (h, k) \<in> set checked \<Longrightarrow> verifyForkScanBatchHeight c b h k = None) \<Longrightarrow>
    verifiedPrefix c b checked a = (a + of_nat (length checked), None)"
proof (induction a checked rule: consecutive.induct)
  case (2 a h k l)
  then show ?case by (simp add: add.assoc)
qed simp

lemma validate_next:
  assumes "validate s = Inr ()" and "n \<le> anchorHeight (Published s) + 1 \<or> anchorHeight (Published s) = MaxUint64"
  shows "validate (s\<lparr>NextHeight := n\<rparr>) = Inr ()"
  using assms by (auto simp: validate_def split: if_splits option.splits)

lemma saveForkScan_succeeds:
  "validate s = Inr () \<Longrightarrow> \<not> commitErr (store c) (epoch (store c)) \<Longrightarrow> \<exists>c'. saveForkScan x s c = (Inr (), c')"
  by (simp add: saveForkScan_def SaveForkScan_def setForkScan_def Commit_def)

text \<open>What a successful save leaves.\<close>

lemma saveForkScan_ok:
  assumes "saveForkScan x s c = (Inr (), c')"
  shows "validate s = Inr ()" and "forkState c' = Some s"
    and "stored x (ChainID (config c)) (Version (config c)) (store c') s"
    and "\<exists>p. c' = c\<lparr>cdb := (cdb c)\<lparr>db := p\<rparr>, forkState := Some s\<rparr> \<and> readErr p = readErr (store c) \<and> commitErr p = commitErr (store c) \<and>
      (\<forall>h. kv p (NumKey h) = kv (store c) (NumKey h))"
proof -
  obtain p where p: "SaveForkScan x (store c) (ChainID (config c)) (Version (config c)) s = (Inr (), p)" "c' = (setStore p c)\<lparr>forkState := Some s\<rparr>"
    using assms by (auto simp: saveForkScan_def split: prod.splits sum.splits)
  note q = SaveForkScan_ok [OF p(1)]
  show "validate s = Inr ()" by (rule q(1))
  show "forkState c' = Some s" by (simp add: p(2))
  show "stored x (ChainID (config c)) (Version (config c)) (store c') s" by (simp add: p(2) q setStore_def stored_def)
  show "\<exists>p. c' = c\<lparr>cdb := (cdb c)\<lparr>db := p\<rparr>, forkState := Some s\<rparr> \<and> readErr p = readErr (store c) \<and> commitErr p = commitErr (store c) \<and>
      (\<forall>h. kv p (NumKey h) = kv (store c) (NumKey h))"
    by (intro exI [of _ p]) (simp add: p(2) setStore_def, simp add: q(2))
qed

text \<open>The heights that such a batch scans: at least the first one.\<close>

lemma scanHeights_some:
  assumes "beginForkScanBatch upper generation c = (Inr b, c1)"
    and "bStart b \<le> bUpper b" "bStart b \<noteq> MaxUint64"
    and "scanContinuousBatchHeight x v cfg (\<lambda>_. c1) Background b (bStart b) w = (Inr k, w1)"
  obtains checked e w2 where
    "scanHeights forkScanBatchSize x v cfg (\<lambda>_. c1) Background b dl (bStart b) [] w = ((checked, e), w2)"
    "consecutive (bStart b) checked" "scannedRight c1 b checked" "0 < length checked" "length checked \<le> forkScanBatchSize"
proof -
  have st: "\<not> stale (deref c1 b) (bStart b)"
    using assms(1) by (rule begin_shape) (simp add: deref_def stale_def)
  have n: "forkScanBatchSize = Suc 127" by (simp add: forkScanBatchSize_def)
  obtain checked e w2 where r:
    "scanHeights 127 x v cfg (\<lambda>_. c1) Background b dl (bStart b + 1) [(bStart b, k)] w1 = ((checked, e), w2)"
    by (metis surj_pair)
  have g: "consecutive (bStart b) checked \<and> scannedRight c1 b checked \<and> 1 \<le> length checked \<and> length checked \<le> 1 + 127"
    using scanHeights_alone [of 127 x v cfg c1 Background b dl "[(bStart b, k)]" w1 checked e w2] r assms(2,3)
      scanHeight_reads [OF assms(4)]
    by (simp add: scannedRight_def)
  have "scanHeights forkScanBatchSize x v cfg (\<lambda>_. c1) Background b dl (bStart b) [] w = ((checked, e), w2)"
    unfolding n scanHeights.simps(2) using r assms(2-4) st by (simp add: ctx_Err_def Background_def)
  then show thesis
    by (rule that) (use g in \<open>linarith | simp add: n\<close>)+
qed

lemma scanned_bound:
  assumes "consecutive a checked" and "scannedRight c b checked" and "0 < length checked"
  shows "unat a + length checked \<le> Suc (unat (bUpper b))"
proof -
  obtain l h k where l: "checked = l @ [(h, k)]" using assms(3) by (metis length_greater_0_conv rev_exhaust surj_pair)
  have "consecutive a (l @ [(h, k)]) \<Longrightarrow> consecutive a l \<and> h = a + of_nat (length l)"
    by (induction a l rule: consecutive.induct) (auto simp: add.assoc)
  then have c: "consecutive a l" "h = a + of_nat (length l)" using assms(1) l by auto
  have "h \<le> bUpper b" using assms(2) l by (auto simp: scannedRight_def)
  then show ?thesis using consecutive_unat [OF c(1)] c(2) l by (simp add: word_le_nat_alt)
qed

text \<open>What the batch leaves: the cursor after the last height it scanned, in the store.\<close>

lemma finish_saves:
  assumes "beginForkScanBatch upper generation c = (Inr b, c1)" and "validate (the (forkState c)) = Inr ()"
    and "\<not> commitErr (store c) (epoch (store c))"
    and "consecutive (bStart b) checked" "scannedRight c1 b checked" "0 < length checked"
  shows "\<exists>r c'. saveForkScan x ((the (forkState c))\<lparr>NextHeight := bStart b + of_nat (length checked)\<rparr>) c1 = (Inr (), c') \<and>
    finishForkScanBatch x None b checked c1 = (r, c'\<lparr>forkBatch := None\<rparr>)"
proof -
  obtain s where s: "forkState c = Some s" "c1 = c\<lparr>forkBatch := Some b, batches := Suc (batches c)\<rparr>"
    "bUpper b \<le> anchorHeight (Published s)"
    using assms(1) by (rule begin_shape)
  let ?n = "bStart b + of_nat (length checked)"
  have n: "unat ?n = unat (bStart b) + length checked" using assms(4) by (rule consecutive_unat)
  have "?n \<le> anchorHeight (Published s) + 1 \<or> anchorHeight (Published s) = MaxUint64"
    using scanned_bound [OF assms(4-6)] s(3) n by (auto simp: word_le_nat_alt u64_Suc)
  then have v: "validate (s\<lparr>NextHeight := ?n\<rparr>) = Inr ()" using assms(2) s(1) by (intro validate_next) simp_all
  have vp: "verifiedPrefix c1 b checked (bStart b) = (?n, None)"
    using assms(4)
  proof (rule verifiedPrefix_all)
    show "verifyForkScanBatchHeight c1 b h k = None" if "(h, k) \<in> set checked" for h k
      using begin_verifies [OF assms(1)] assms(5) that by (auto simp: scannedRight_def)
  qed
  have lt: "bStart b < ?n" using n assms(6) by (simp add: word_less_nat_alt)
  obtain c2 where "saveForkScan x (s\<lparr>NextHeight := ?n\<rparr>) c1 = (Inr (), c2)"
    using saveForkScan_succeeds [OF v, of c1 x] assms(3) s(2) by auto
  then show ?thesis using vp lt s by (simp add: finishForkScanBatch_def)
qed

lemma finish_alone:
  assumes "beginForkScanBatch upper generation c = (Inr b, c1)" and "validate (the (forkState c)) = Inr ()"
    and "\<not> commitErr (store c) (epoch (store c))"
    and "consecutive (bStart b) checked" "scannedRight c1 b checked" "0 < length checked"
  shows "\<exists>r c2 s2. finishForkScanBatch x None b checked c1 = (r, c2) \<and> forkBatch c2 = None \<and> forkState c2 = Some s2 \<and>
    stored x (ChainID (config c)) (Version (config c)) (store c2) s2 \<and>
    s2 = (the (forkState c))\<lparr>NextHeight := bStart b + of_nat (length checked)\<rparr>"
proof -
  have "store c1 = store c" "config c1 = config c" using assms(1) by (auto elim: begin_shape)
  moreover obtain r c' where sv: "saveForkScan x ((the (forkState c))\<lparr>NextHeight := bStart b + of_nat (length checked)\<rparr>) c1 = (Inr (), c')"
    and fin: "finishForkScanBatch x None b checked c1 = (r, c'\<lparr>forkBatch := None\<rparr>)"
    using finish_saves [OF assms] by blast
  ultimately show ?thesis using saveForkScan_ok(2,3) [OF sv] by simp
qed

section \<open>A concrete batch\<close>

definition exBatch :: "Checker \<Rightarrow> forkScanBatch" where
  "exBatch c = \<lparr> bId = batches c, bStart = 5, bUpper = 5, bGeneration = 1, bRewind = None \<rparr>"

definition exAligned :: "Checker \<Rightarrow> bool" where
  "exAligned c = (ex_ready c \<and> forkState c = Some exSt1 \<and> forkBatch c = None \<and> forkAligned c)"

lemma ex_aligned: "\<exists>c. exAligned c"
proof -
  obtain c where "ex_ready c" "forkState c = Some exSt" "forkBatch c = None" using ex_init by blast
  then show ?thesis using ex_publish [of c] by (auto simp: exAligned_def)
qed

lemma ex_begin:
  "exAligned c \<Longrightarrow> beginForkScanBatch 5 1 c = (Inr (exBatch c), c\<lparr>forkBatch := Some (exBatch c), batches := Suc (batches c)\<rparr>)"
  by (simp add: exAligned_def beginForkScanBatch_def exBatch_def exSt1_def exSt_def Let_def)

lemma ex_scan_height:
  assumes "ex_ready c"
  shows "\<exists>w'. scanContinuousBatchHeight hexExt plainSvc exCfg (\<lambda>_. c) Background b 5 (exWorld exSettled) = (Inr 7, w')"
proof -
  have "readScanCanonical (store c) 5 = Inr 7"
    using assms by (simp add: readScanCanonical_def GetCanonicalHashByNum_def getBlockHashByNum_def Get_def ex_ready_def)
  moreover have "WithTimeout forkScanHeightTimeout (exWorld exSettled) Background = Background"
    by (simp add: WithTimeout_def Background_def exWorld_def forkScanHeightTimeout_def Second_def)
  moreover obtain w' where "planForkRewritesCtx hexExt plainSvc exCfg Background (scanBlock 5 7) None (exWorld exSettled) = (Inr [], w')"
    using ex_empty_plan by blast
  ultimately show ?thesis
    by (simp add: scanContinuousBatchHeight_def executeForkScanPlan_def ctx_Err_def) (simp add: Background_def)
qed

section \<open>Progress\<close>

text \<open>
  A batch that is left alone makes progress. When the first height of the batch can be scanned, no
  other section changes the state meanwhile and the store commits, the batch ends with the cursor
  in memory and in the store moved past at least that height, by at most a batch and never past
  the upper bound, with the rest of the cursor unchanged; an error at a later height does not undo
  what was scanned before it.
\<close>

theorem batch_makes_progress:
  assumes "beginForkScanBatch upper generation c = (Inr b, c1)" and "env c1 = (\<lambda>_. c1)"
    and "bStart b \<le> bUpper b" "bStart b \<noteq> MaxUint64"
    and "scanContinuousBatchHeight x v cfg (\<lambda>_. c1) Background b (bStart b) w = (Inr k, w1)"
    and "validate (the (forkState c)) = Inr ()" and "\<not> commitErr (store c) (epoch (store c))"
  shows "\<exists>r c2 w2 s2. scanContinuousBatch x v cfg env Background upper generation c w = (r, c2, w2) \<and>
    forkBatch c2 = None \<and> forkState c2 = Some s2 \<and>
    stored x (ChainID (config c)) (Version (config c)) (store c2) s2 \<and>
    s2\<lparr>NextHeight := NextHeight (the (forkState c))\<rparr> = the (forkState c) \<and>
    NextHeight (the (forkState c)) < NextHeight s2 \<and>
    unat (NextHeight s2) \<le> min (Suc (unat (bUpper b))) (unat (NextHeight (the (forkState c))) + forkScanBatchSize)"
proof -
  obtain s where s: "forkState c = Some s" "bStart b = NextHeight s"
    using assms(1) by (rule begin_shape)
  obtain checked e w2 where sh:
    "scanHeights forkScanBatchSize x v cfg (\<lambda>_. c1) Background b (now w + forkScanBatchBudget) (bStart b) [] w = ((checked, e), w2)"
    and g: "consecutive (bStart b) checked" "scannedRight c1 b checked" "0 < length checked" "length checked \<le> forkScanBatchSize"
    using assms(1,3-5) by (rule scanHeights_some)
  obtain r c2 s2 where f: "finishForkScanBatch x None b checked c1 = (r, c2)" "forkBatch c2 = None" "forkState c2 = Some s2"
    "stored x (ChainID (config c)) (Version (config c)) (store c2) s2"
    "s2 = (the (forkState c))\<lparr>NextHeight := bStart b + of_nat (length checked)\<rparr>"
    using finish_alone [OF assms(1,6,7) g(1-3)] by blast
  have n: "unat (NextHeight s2) = unat (bStart b) + length checked" using consecutive_unat [OF g(1)] by (simp add: f(5))
  have "unat (NextHeight s2) \<le> min (Suc (unat (bUpper b))) (unat (NextHeight s) + forkScanBatchSize)"
    using scanned_bound [OF g(1-3)] g(4) s(2) by (simp add: n)
  moreover have "NextHeight s < NextHeight s2" using n g(3) s(2) by (simp add: word_less_nat_alt)
  moreover have "\<exists>r. scanContinuousBatch x v cfg env Background upper generation c w = (r, c2, w2)"
    using f(1) sh assms(1,2) by (cases r) (simp add: scanContinuousBatch_def ctx_Err_def Background_def)
  ultimately show ?thesis using f s by auto
qed

theorem batch_makes_progress_witness:
  "\<exists>c r c2 w2 s2. exAligned c \<and>
     scanContinuousBatch hexExt plainSvc exCfg (\<lambda>c _. c) Background 5 1 c (exWorld exSettled) = (r, c2, w2) \<and>
     forkState c2 = Some s2 \<and> NextHeight s2 = 6"
proof -
  obtain c where c: "exAligned c" using ex_aligned by blast
  let ?b = "exBatch c" and ?c1 = "c\<lparr>forkBatch := Some (exBatch c), batches := Suc (batches c)\<rparr>"
  have b: "bStart ?b = 5" "bUpper ?b = 5" by (simp_all add: exBatch_def)
  have "ex_ready ?c1" using c by (simp add: exAligned_def ex_ready_def)
  from ex_scan_height [OF this] obtain w1 where
    h: "scanContinuousBatchHeight hexExt plainSvc exCfg (\<lambda>_. ?c1) Background ?b (bStart ?b) (exWorld exSettled) = (Inr 7, w1)"
    unfolding b by blast
  have s: "forkState c = Some exSt1" "\<not> commitErr (store c) (epoch (store c))"
    using c by (simp_all add: exAligned_def ex_ready_def)
  have v: "validate (the (forkState c)) = Inr ()" by (simp add: s validate_def exSt1_def exSt_def MaxUint64_def)
  have le: "bStart ?b \<le> bUpper ?b" and ne: "bStart ?b \<noteq> MaxUint64" by (simp_all add: b MaxUint64_def)
  have n: "NextHeight exSt1 = 5" by (simp add: exSt1_def exSt_def)
  obtain r c2 w2 s2 where
    p: "scanContinuousBatch hexExt plainSvc exCfg (\<lambda>c _. c) Background 5 1 c (exWorld exSettled) = (r, c2, w2)" "forkState c2 = Some s2"
    "5 < NextHeight s2" "unat (NextHeight s2) \<le> Suc (unat (5 :: u64))"
    using batch_makes_progress [where env = "\<lambda>c _. c", OF ex_begin [OF c] _ le ne h v s(2)] by (auto simp: s(1) n b)
  then have "unat (NextHeight s2) = unat (6 :: u64)" by (simp add: word_less_nat_alt)
  then have "NextHeight s2 = 6" by (simp only: word_unat_eq_iff)
  then show ?thesis using c p by blast
qed

end
