(* ===== verification/CalmScan.thy ===== *)
theory CalmScan
  imports ForkWorker
begin

text \<open>
  Scanning one height of a bucket that answers and that nobody else writes. The calls run under the
  contexts of the scan, which expire: every acknowledged call takes one step of the clock, so the
  lemmas count the steps a plan and its execution take and ask that the context lasts for them.
\<close>

section \<open>Steps of the clock\<close>

definition later :: "nat \<Rightarrow> world \<Rightarrow> world" where
  "later j w = w\<lparr>tick := tick w + j\<rparr>"

definition lasting :: "nat \<Rightarrow> ctx \<Rightarrow> world \<Rightarrow> bool" where
  "lasting n ctx w = (\<forall>j \<le> n. ctx (tick w + j) = None)"

lemma later_simps [simp]:
  "later 0 w = w" "later i (later j w) = later (j + i) w" "advance w = later (Suc 0) w"
  "tick (later j w) = tick w + j" "objects (later j w) = objects w" "clock (later j w) = clock w"
  "pageFuel (later j w) = pageFuel w" "calm ob n (later j w) = calm ob n w"
  by (simp_all add: later_def advance_def calm_def quiet_def no_uploads_def fate_ok_def add.assoc)

lemma lasting_later: "lasting n ctx w \<Longrightarrow> j + m \<le> n \<Longrightarrow> lasting m ctx (later j w)"
  by (simp add: lasting_def add.assoc)

lemma lasting_mono: "lasting n ctx w \<Longrightarrow> m \<le> n \<Longrightarrow> lasting m ctx w"
  by (simp add: lasting_def)

lemma lasting_Err: "lasting n ctx w \<Longrightarrow> ctx_Err ctx w = None"
  unfolding lasting_def ctx_Err_def by (metis add_0_right le0)

lemma calm_apiErr_lasting: "calm ob n w \<Longrightarrow> lasting m ctx w \<Longrightarrow> apiErr ctx w = None"
  by (simp add: apiErr_def lasting_Err calm_def fate_ok_def)

section \<open>Planning\<close>

lemma calm_get_lasting:
  assumes "calm ob n w" and "lasting m ctx w" and "stored_validation v ob key = Some bv"
  shows "getRawValidationByKeyWithReTryCtx v ctx key w = (Inr bv, later 1 w)"
  unfolding getRawValidationByKeyWithReTryCtx_def
proof (rule retryWithBackoff_first)
  have "arrive w = w" "objects w = ob" using assms(1) by (simp_all add: calm_def quiet_def)
  then show "getRawValidationByKeyCtx v ctx key w = (Inr bv, later 1 w)"
    using assms(3) calm_apiErr_lasting [OF assms(1,2)]
    by (auto simp: getRawValidationByKeyCtx_def GetObject_def Let_def stored_validation_def
        split: option.splits sum.splits)
qed

lemma calm_planKeys_lasting:
  assumes "calm ob n w" and "lasting (length keys) ctx w"
    and "\<And>key. key \<in> set keys \<Longrightarrow> blockValidationHashFromKey c key \<noteq> None \<Longrightarrow> stored_validation v ob key \<noteq> None"
  shows "\<exists>r j. planKeys v c ctx ch None keys found plan w = (Inr r, later j w) \<and> j \<le> length keys"
  using assms
proof (induction keys arbitrary: found plan w)
  case Nil
  have "w = later 0 w" by simp
  then show ?case by (metis planKeys.simps(1) le0)
next
  case (Cons key keys)
  have IH: "\<exists>r j. planKeys v c ctx ch None keys f p (later i w) = (Inr r, later j w) \<and> j \<le> Suc (length keys)"
    if "i \<le> 1" for f p i
  proof -
    have "lasting (length keys) ctx (later i w)" using Cons.prems(2) that by (auto intro: lasting_later)
    from Cons.IH [OF _ this, of f p] Cons.prems(1,3) obtain r j where
      "planKeys v c ctx ch None keys f p (later i w) = (Inr r, later (i + j) w)" "j \<le> length keys" by auto
    then show ?thesis using that by (intro exI [of _ r] exI [of _ "i + j"]) auto
  qed
  show ?case
  proof (cases "blockValidationHashFromKey c key")
    case None
    then show ?thesis using IH [of 0] by simp
  next
    case (Some h)
    then obtain bv where bv: "stored_validation v ob key = Some bv" using Cons.prems(3) by fastforce
    show ?thesis
      using calm_get_lasting [OF Cons.prems(1,2) bv] IH [of 1] Some
      by (simp add: fetchValidation_def Let_def)
  qed
qed

context services
begin

lemma calm_listPages_lasting:
  assumes "calm ob n w" and "lasting k ctx w" and "length (rest (map fst ob) prefix token) < k"
  shows "\<exists>ks j. listPages k v ctx prefix keys token w = (Inr ks, later j w) \<and> j \<le> k"
  using assms
proof (induction k arbitrary: keys token w)
  case (Suc k)
  let ?pg = "listPage v (map fst ob) prefix token"
  have "arrive w = w" "objects w = ob" using Suc.prems(1) by (simp_all add: calm_def quiet_def)
  then have l: "listObjectsRetry v ctx prefix token w = (Inr ?pg, later 1 w)"
    unfolding listObjectsRetry_def using calm_apiErr_lasting [OF Suc.prems(1,2)]
    by (intro retryWithBackoff_first) (simp add: ListObjectsV2_def Let_def)
  show ?case
  proof (cases "IsTruncated ?pg = Some True")
    case True
    then obtain t where t: "NextContinuationToken ?pg = Some t"
      "rest (map fst ob) prefix token = List.map_filter id (Contents ?pg) @ rest (map fst ob) prefix (Some t)"
      and "Contents ?pg \<noteq> []"
      using list_more by blast
    then have "List.map_filter id (Contents ?pg) \<noteq> []"
      using list_keys [of "map fst ob" prefix token]
      by (cases "Contents ?pg") (auto simp: List.map_filter_def)
    then have len: "length (rest (map fst ob) prefix (Some t)) < k" using t(2) Suc.prems(3)
      by (cases "List.map_filter id (Contents ?pg)") auto
    have "lasting k ctx (later 1 w)" using Suc.prems(2) by (rule lasting_later) simp
    from Suc.IH [OF _ this len, of "keys @ List.map_filter id (Contents ?pg)"] Suc.prems(1) obtain ks j where
      "listPages k v ctx prefix (keys @ List.map_filter id (Contents ?pg)) (Some t) (later 1 w) = (Inr ks, later (Suc j) w)"
      "j \<le> k" by auto
    then show ?thesis
      using l True t(1) by (intro exI [of _ ks] exI [of _ "Suc j"]) (simp add: Let_def)
  next
    case False
    then have "IsTruncated ?pg = None \<or> IsTruncated ?pg = Some False" by (cases "IsTruncated ?pg") auto
    then show ?thesis
      using l by (intro exI [of _ "keys @ List.map_filter id (Contents ?pg)"] exI [of _ 1]) (auto simp: Let_def)
  qed
qed simp

lemma calm_plan_lasting:
  assumes "calm ob n w" and "lasting (2 * n) ctx w"
    and "length (height_keys c (BlockNumber block) ob) < n"
    and "hasCanonical c (hashString x (Hash block)) (height_keys c (BlockNumber block) ob)"
    and "\<And>key. key \<in> set (height_keys c (BlockNumber block) ob) \<Longrightarrow>
       blockValidationHashFromKey c key \<noteq> None \<Longrightarrow> stored_validation v ob key \<noteq> None"
  shows "\<exists>plan j. planForkRewritesCtx x v c ctx block None w = (Inr plan, later j w) \<and> j \<le> 2 * n"
proof -
  let ?ch = "hashString x (Hash block)" and ?ks = "height_keys c (BlockNumber block) ob"
  have pf: "pageFuel w = n" using assms(1) by (simp add: calm_def)
  have r: "length (rest (map fst ob) (blockValidationPrefix c (BlockNumber block)) None) < n"
    using assms(3) by (simp add: list_start height_keys_def)
  have "lasting n ctx w" using assms(2) by (rule lasting_mono) simp
  from calm_listPages_lasting [OF assms(1) this r, of "[]"] obtain ks i where
    l: "planListing v c ctx (BlockNumber block) ?ch [] w = (Inr ks, later i w)" and i: "i \<le> n"
    by (auto simp: planListing_def listBlockValidationKeysCtx_def pf)
  have q: "quiet ob w" "quiet ob (later i w)" using assms(1) by (simp_all add: calm_def quiet_def later_def no_uploads_def)
  have ks: "ks = ?ks" using planListing_quiet(2) [OF q(1) l] by simp
  have c1: "calm ob n (later i w)" and la: "lasting (length ?ks) ctx (later i w)"
    using assms(1-3) i by (auto intro: lasting_later)
  obtain found plan j where p: "planKeys v c ctx ?ch None ?ks False [] (later i w) = (Inr (found, plan), later (i + j) w)"
    and j: "j \<le> length ?ks"
    using calm_planKeys_lasting [where v = v and c = c and ch = ?ch and found = False and plan = "[]", OF c1 la] assms(5) by auto
  have sub: "set ?ks \<subseteq> set (map fst ob)" by (auto simp: height_keys_def)
  have "hint_current v c ?ch ob None" by (simp add: hint_current_def)
  from planKeys_exact [OF q(2) p sub this] assms(4) have found by simp
  then have "planForkRewritesCtx x v c ctx block None w = (Inr plan, later (i + j) w)"
    using l p by (simp add: planForkRewritesCtx_def Let_def ks hintKeys_def hintValidation_def)
  then show ?thesis using i j assms(3) by (intro exI [of _ plan] exI [of _ "i + j"]) simp
qed

end

section \<open>Executing a plan\<close>

text \<open>Each rewrite has its own, shorter context; it is fresh when the call is made.\<close>

lemma write_ctx_fresh: "ctx_Err ctx w = None \<Longrightarrow> ctx_Err (WithTimeout forkScanWriteTimeout w ctx) w = None"
  by (simp add: ctx_Err_def WithTimeout_def forkScanWriteTimeout_def Second_def)

lemma calm_putPlan:
  assumes "calm ob n w" and "lasting (length plan) ctx w" and "\<And>bv. \<exists>d. encValidation v bv = Inr d"
  shows "\<exists>ob' w'. putPlan v ctx (ctx_Err ctx) plan w = (Inr (), w') \<and> applyForkRewrites v plan w = (Inr (), w') \<and>
    calm ob' n w' \<and> w' = (later (length plan) w)\<lparr>objects := ob'\<rparr>"
  using assms(1,2)
proof (induction plan arbitrary: ob w)
  case Nil
  have "w = w\<lparr>objects := ob\<rparr>" using Nil.prems(1) by (simp add: calm_def quiet_def)
  then show ?case using Nil.prems lasting_Err [OF Nil.prems(2)] by auto
next
  case (Cons rw plan)
  obtain d where d: "encValidation v (rwValidation rw) = Inr d" using assms(3) by blast
  let ?ob = "AList.update (rwKey rw) d ob"
  let ?w = "advance (w\<lparr>objects := ?ob\<rparr>)"
  have e: "ctx_Err ctx w = None" using Cons.prems(2) by (rule lasting_Err)
  have a: "arrive w = w" "objects w = ob" "fate w (tick w) = Ack" using Cons.prems(1) by (simp_all add: calm_def quiet_def fate_ok_def)
  have put: "rewriteValidationAtKeyCtx v (WithTimeout forkScanWriteTimeout w ctx) (rwKey rw) (rwValidation rw) w = (Inr (), ?w)"
    using d a write_ctx_fresh [OF e] by (simp add: rewriteValidationAtKeyCtx_def PutObject_def Let_def apiErr_def)
  note c = calm_put [OF Cons.prems(1) d, of "rwKey rw"]
  have "lasting (length plan) ctx ?w"
    using Cons.prems(2) by (auto simp: lasting_def later_def)
  from Cons.IH [OF c(2) this] obtain ob' w' where
    "putPlan v ctx (ctx_Err ctx) plan ?w = (Inr (), w')" "applyForkRewrites v plan ?w = (Inr (), w')"
    "calm ob' n w'" "w' = (later (length plan) ?w)\<lparr>objects := ob'\<rparr>" by blast
  then show ?case using e put c(1) by (auto simp: later_def)
qed

definition settledAt :: "ext \<Rightarrow> svc \<Rightarrow> Config \<Rightarrow> (string \<times> bytes) list \<Rightarrow> u64 \<Rightarrow> hash \<Rightarrow> bool" where
  "settledAt x v c ob h k = flags_agree v c (hashString x k) (height_keys c h ob) ob"

text \<open>What the scan of a height needs of the bucket.\<close>

definition scannable :: "ext \<Rightarrow> svc \<Rightarrow> Config \<Rightarrow> nat \<Rightarrow> (string \<times> bytes) list \<Rightarrow> u64 \<Rightarrow> hash \<Rightarrow> bool" where
  "scannable x v c n ob h k = (length (height_keys c h ob) < n \<and> hasCanonical c (hashString x k) (height_keys c h ob) \<and>
     (\<forall>key \<in> set (height_keys c h ob). blockValidationHashFromKey c key \<noteq> None \<longrightarrow> stored_validation v ob key \<noteq> None))"

context services
begin

lemma calm_execute:
  assumes "calm ob n w" and "lasting (3 * n) ctx w" and "scannable x v c n ob h k" and "\<And>bv. \<exists>d. encValidation v bv = Inr d"
  shows "\<exists>ob' w' j. executeForkScanPlan x v c ctx h k (ctx_Err ctx) w = (Inr (), w') \<and> calm ob' n w' \<and>
    w' = (later j w)\<lparr>objects := ob'\<rparr> \<and> height_settled v c (hashString x k) h ob ob'"
proof -
  let ?b = "scanBlock h k"
  have b: "BlockNumber ?b = h" "Hash ?b = k" by (simp_all add: scanBlock_def)
  have sc: "length (height_keys c h ob) < n" "hasCanonical c (hashString x k) (height_keys c h ob)"
    "\<And>key. key \<in> set (height_keys c h ob) \<Longrightarrow> blockValidationHashFromKey c key \<noteq> None \<Longrightarrow> stored_validation v ob key \<noteq> None"
    using assms(3) by (auto simp: scannable_def)
  have "lasting (2 * n) ctx w" using assms(2) by (rule lasting_mono) simp
  from calm_plan_lasting [OF assms(1) this, of c ?b x] sc obtain plan j where
    p: "planForkRewritesCtx x v c ctx ?b None w = (Inr plan, later j w)" and j: "j \<le> 2 * n"
    unfolding b by blast
  have q: "quiet ob w" using assms(1) by (simp add: calm_def)
  have hints: "hintKeys None = []" "hint_current v c (hashString x (Hash ?b)) ob (hintValidation None)"
    by (simp_all add: hintKeys_def hintValidation_def hint_current_def)
  have "length plan \<le> length (height_keys c h ob)"
    using plan_exact(2) [OF q p hints] by (simp add: b List.map_filter_def)
  then have l: "lasting (length plan) ctx (later j w)" using assms(2) sc(1) j by (auto intro: lasting_later)
  have "calm ob n (later j w)" using assms(1) by simp
  from calm_putPlan [OF this l assms(4)] obtain ob' w' where
    w': "putPlan v ctx (ctx_Err ctx) plan (later j w) = (Inr (), w')" "applyForkRewrites v plan (later j w) = (Inr (), w')"
    "calm ob' n w'" "w' = (later (j + length plan) w)\<lparr>objects := ob'\<rparr>" by auto
  obtain ob2 where ob2: "quiet ob2 w'" "height_settled v c (hashString x k) h ob ob2"
    using planned_settles [OF q p w'(2) hints] by (auto simp: b)
  have "ob2 = ob'" using w'(3) ob2(1) by (simp add: calm_def quiet_def)
  then show ?thesis using p w' ob2(2) by (auto simp: executeForkScanPlan_def)
qed

end

end
