(* ===== verification/CatchUp.thy ===== *)
theory CatchUp
  imports CalmScan
begin

text \<open>
  The continuous scan catches up. When the main flow is at rest and the bucket answers, the loop of the
  worker reaches the published head: the schedule matures it, the batches move the cursor to it, and
  every height on the way is left with the right fork flags.
\<close>

section \<open>Heights do not share keys\<close>

lemma prefix_height:
  "has_prefix key (blockValidationPrefix c h) \<Longrightarrow> has_prefix key (blockValidationPrefix c h') \<Longrightarrow> h = h'"
  by (auto simp: has_prefix_append blockValidationPrefix_def sep_inject split: if_splits)

lemma settled_stored:
  assumes "height_settled v c ch h ob ob'" and "key \<in> set (height_keys c h' ob)" and "h' \<noteq> h"
  shows "stored_validation v ob' key = stored_validation v ob key"
proof -
  have "key \<notin> set (height_keys c h ob)" using assms(2,3) prefix_height by (auto simp: height_keys_def)
  then have "map_of ob' key = map_of ob key" using assms(1) by (simp add: height_settled_def)
  then show ?thesis by (simp add: stored_validation_def)
qed

lemma settled_keys: "height_settled v c ch h ob ob' \<Longrightarrow> height_keys c h' ob' = height_keys c h' ob"
  by (rule height_keys_cong) (simp add: height_settled_def)

lemma settledAt_self: "height_settled v c (hashString x k) h ob ob' \<Longrightarrow> settledAt x v c ob' h k"
  by (simp add: height_settled_def settledAt_def)

lemma settledAt_other:
  "height_settled v c ch h ob ob' \<Longrightarrow> h' \<noteq> h \<Longrightarrow> settledAt x v c ob h' k \<Longrightarrow> settledAt x v c ob' h' k"
  using settled_stored settled_keys by (simp add: settledAt_def flags_agree_def)

lemma scannable_settled:
  assumes "height_settled v c ch h ob ob'" and "scannable x v c n ob h' k"
  shows "scannable x v c n ob' h' k"
proof -
  have "stored_validation v ob' key \<noteq> None"
    if "key \<in> set (height_keys c h' ob)" "blockValidationHashFromKey c key \<noteq> None" for key
  proof (cases "h' = h")
    case True
    then show ?thesis using assms(1) that settled_keys [OF assms(1), of h] unfolding height_settled_def flags_agree_def by fastforce
  next
    case False
    then show ?thesis using settled_stored [OF assms(1) that(1)] assms(2) that by (simp add: scannable_def)
  qed
  then show ?thesis using assms(2) settled_keys [OF assms(1)] by (simp add: scannable_def)
qed

section \<open>A height\<close>

definition brisk :: "nat \<Rightarrow> (nat \<Rightarrow> int) \<Rightarrow> bool" where
  "brisk n clk = (\<forall>t. \<forall>j \<le> 3 * n. clk (t + j) - clk t < forkScanHeightTimeout)"

text \<open>
  The bucket answers, and every height from \<open>lo\<close> to \<open>hi\<close> can be scanned; the clock is the given one and the
  checker does not quit.
\<close>

definition bucketReady ::
  "ext \<Rightarrow> svc \<Rightarrow> Config \<Rightarrow> nat \<Rightarrow> (nat \<Rightarrow> int) \<Rightarrow> (u64 \<Rightarrow> hash) \<Rightarrow> u64 \<Rightarrow> u64 \<Rightarrow> world \<Rightarrow> bool" where
  "bucketReady x v c n clk can lo hi w =
     (calm (objects w) n w \<and> clock w = clk \<and> quit w = (\<lambda>_. False) \<and>
      (\<forall>h. lo \<le> h \<and> h \<le> hi \<longrightarrow> scannable x v c n (objects w) h (can h)))"

definition allSettled :: "ext \<Rightarrow> svc \<Rightarrow> Config \<Rightarrow> (u64 \<Rightarrow> hash) \<Rightarrow> u64 \<Rightarrow> u64 \<Rightarrow> world \<Rightarrow> bool" where
  "allSettled x v c can lo m w = (\<forall>h. lo \<le> h \<and> h < m \<longrightarrow> settledAt x v c (objects w) h (can h))"

lemma ready_later [simp]: "bucketReady x v c n clk can lo hi (later j w) = bucketReady x v c n clk can lo hi w"
  by (simp add: bucketReady_def) (simp add: later_def)

lemma settled_later [simp]: "allSettled x v c can lo m (later j w) = allSettled x v c can lo m w"
  by (simp add: allSettled_def)

lemma settled_Suc:
  assumes "allSettled x v c can lo h w" and "h \<noteq> MaxUint64"
    and "height_settled v c (hashString x (can h)) h (objects w) (objects w')"
  shows "allSettled x v c can lo (h + 1) w'"
  using assms settledAt_self [OF assms(3)] settledAt_other [OF assms(3)]
  by (auto simp: allSettled_def u64_less_Suc_iff order.order_iff_strict)

context services
begin

lemma scanHeight_ready:
  assumes "bucketReady x v cfg n clk can lo hi w" and "brisk n clk" and "lo \<le> h" "h \<le> hi"
    and "readScanCanonical (store c1) h = Inr (can h)" and "verifyForkScanBatchHeight c1 b h (can h) = None"
    and "\<And>bv. \<exists>d. encValidation v bv = Inr d"
  shows "\<exists>w'. scanContinuousBatchHeight x v cfg (\<lambda>_. c1) Background b h w = (Inr (can h), w') \<and>
    bucketReady x v cfg n clk can lo hi w' \<and> tick w \<le> tick w' \<and>
    height_settled v cfg (hashString x (can h)) h (objects w) (objects w')"
proof -
  let ?ctx = "WithTimeout forkScanHeightTimeout w Background"
  have r: "calm (objects w) n w" "clock w = clk" "quit w = (\<lambda>_. False)"
    "\<And>h. lo \<le> h \<Longrightarrow> h \<le> hi \<Longrightarrow> scannable x v cfg n (objects w) h (can h)"
    using assms(1) by (simp_all add: bucketReady_def)
  have l: "lasting (3 * n) ?ctx w"
    using assms(2) unfolding lasting_def WithTimeout_def Background_def brisk_def r(2) by (auto simp: not_le linorder_not_less [symmetric])
  obtain ob' w' j where e: "executeForkScanPlan x v cfg ?ctx h (can h) (ctx_Err ?ctx) w = (Inr (), w')" "calm ob' n w'"
    "w' = (later j w)\<lparr>objects := ob'\<rparr>" "height_settled v cfg (hashString x (can h)) h (objects w) ob'"
    using calm_execute [OF r(1) l r(4) [OF assms(3,4)] assms(7)] by blast
  have "verifyBatch (\<lambda>_. c1) ?ctx b h (can h) = ctx_Err ?ctx"
    by (rule ext) (simp add: verifyBatch_def assms(6) split: option.split)
  then have "scanContinuousBatchHeight x v cfg (\<lambda>_. c1) Background b h w = (Inr (can h), w')"
    using assms(5) e(1) by (simp add: scanContinuousBatchHeight_def Let_def)
  moreover have o: "objects w' = ob'" "clock w' = clk" "quit w' = (\<lambda>_. False)" "tick w \<le> tick w'"
    using r(2,3) by (simp_all add: e(3)) (simp add: later_def)
  moreover have "bucketReady x v cfg n clk can lo hi w'"
    using e(2) r(4) scannable_settled [OF e(4)] by (simp add: bucketReady_def o)
  ultimately show ?thesis using e(4) by auto
qed

text \<open>The loop over the heights of a batch.\<close>

lemma scanHeights_ready:
  assumes b: "beginForkScanBatch upper generation c = (Inr b, c1)"
    and br: "brisk n clk" and enc: "\<And>bv. \<exists>d. encValidation v bv = Inr d"
    and lim: "lo \<le> bStart b" "bUpper b \<le> hi" "bUpper b \<noteq> MaxUint64"
    and rd: "\<And>h. lo \<le> h \<Longrightarrow> h \<le> hi \<Longrightarrow> readScanCanonical (store c1) h = Inr (can h)"
    and "bucketReady x v cfg n clk can lo hi w" and "allSettled x v cfg can lo (bStart b + of_nat (length checked)) w"
    and "consecutive (bStart b) checked"
  shows "\<exists>checked' w'. scanHeights k x v cfg (\<lambda>_. c1) Background b dl (bStart b + of_nat (length checked)) checked w =
      ((checked', None), w') \<and> bucketReady x v cfg n clk can lo hi w' \<and> tick w \<le> tick w' \<and>
      allSettled x v cfg can lo (bStart b + of_nat (length checked')) w'"
  using assms(8-10)
proof (induction k arbitrary: checked w)
  case 0
  then show ?case by auto
next
  case (Suc k)
  let ?h = "bStart b + of_nat (length checked)"
  have st: "\<not> stale (deref c1 b) ?h"
    using b by (rule begin_shape) (simp add: deref_def stale_def)
  show ?case
  proof (cases "\<not> ?h \<le> bUpper b \<or> (checked \<noteq> [] \<and> \<not> now w < dl)")
    case True
    then have "scanHeights (Suc k) x v cfg (\<lambda>_. c1) Background b dl ?h checked w = ((checked, None), w)"
      using st by (auto simp: ctx_Err_def Background_def)
    then show ?thesis using Suc.prems by blast
  next
    case False
    then have h: "?h \<le> bUpper b" "\<not> (checked \<noteq> [] \<and> \<not> now w < dl)" by auto
    have nm: "?h \<noteq> MaxUint64" using h(1) lim(3) not_MaxUint64_less [of "bUpper b"] not_MaxUint64_less [of ?h] by auto
    have lo: "lo \<le> ?h" "?h \<le> hi"
      using lim(1) consecutive_bounds(1) [OF Suc.prems(3)] h(1) lim(2) by (auto intro: order_trans)
    obtain w1 where w1: "scanContinuousBatchHeight x v cfg (\<lambda>_. c1) Background b ?h w = (Inr (can ?h), w1)"
      "bucketReady x v cfg n clk can lo hi w1" "tick w \<le> tick w1"
      "height_settled v cfg (hashString x (can ?h)) ?h (objects w) (objects w1)"
      using scanHeight_ready [OF Suc.prems(1) br lo rd [OF lo] begin_verifies [OF b h(1) rd [OF lo]] enc] by blast
    let ?checked = "checked @ [(?h, can ?h)]"
    have e: "?h + 1 = bStart b + of_nat (length ?checked)" by simp
    have "allSettled x v cfg can lo (?h + 1) w1" using Suc.prems(2) nm w1(4) by (rule settled_Suc)
    from Suc.IH [OF w1(2) this [unfolded e] consecutive_snoc [OF Suc.prems(3) nm]] obtain checked' w' where
      r: "scanHeights k x v cfg (\<lambda>_. c1) Background b dl (?h + 1) ?checked w1 = ((checked', None), w')"
      "bucketReady x v cfg n clk can lo hi w'" "tick w1 \<le> tick w'" "allSettled x v cfg can lo (bStart b + of_nat (length checked')) w'"
      unfolding e by blast
    have "scanHeights (Suc k) x v cfg (\<lambda>_. c1) Background b dl ?h checked w = ((checked', None), w')"
      using h nm st w1(1) r(1) by (auto simp: ctx_Err_def Background_def)
    then show ?thesis using r w1(3) by (intro exI [of _ checked'] exI [of _ w']) auto
  qed
qed

end

section \<open>A round of the worker\<close>

text \<open>
  The checker at rest: aligned, nothing pending, no batch, a store that works, \<open>hi\<close> published and \<open>can\<close> the
  canonical hashes from \<open>lo\<close> to \<open>hi\<close>; the heights below the cursor have the right flags.
\<close>

definition atRest :: "(u64 \<Rightarrow> hash) \<Rightarrow> u64 \<Rightarrow> u64 \<Rightarrow> Checker \<Rightarrow> bool" where
  "atRest can lo hi c =
     (forkAligned c \<and> forkBatch c = None \<and> (\<forall>t. \<not> commitErr (store c) t) \<and> (\<forall>t k. \<not> readErr (store c) t k) \<and>
      (\<forall>h. lo \<le> h \<and> h \<le> hi \<longrightarrow> readScanCanonical (store c) h = Inr (can h)))"

definition cursorAt :: "u64 \<Rightarrow> u64 \<Rightarrow> ForkScanState \<Rightarrow> bool" where
  "cursorAt lo hi s = (Pending s = None \<and> validate s = Inr () \<and> anchorHeight (Published s) = hi \<and> lo \<le> NextHeight s)"

definition scanning ::
  "ext \<Rightarrow> svc \<Rightarrow> nat \<Rightarrow> (nat \<Rightarrow> int) \<Rightarrow> (u64 \<Rightarrow> hash) \<Rightarrow> u64 \<Rightarrow> u64 \<Rightarrow> Checker \<Rightarrow> ForkScanState \<Rightarrow> world \<Rightarrow> bool" where
  "scanning x v n clk can lo hi c s w =
     (atRest can lo hi c \<and> forkState c = Some s \<and> cursorAt lo hi s \<and>
      bucketReady x v (config c) n clk can lo hi w \<and> allSettled x v (config c) can lo (NextHeight s) w)"

lemma atRest_saved:
  assumes "saveForkScan x s c = (Inr (), c')" and "atRest can lo hi (c\<lparr>forkBatch := None\<rparr>)"
  shows "atRest can lo hi (c'\<lparr>forkBatch := None\<rparr>)" and "config c' = config c" and "forkSchedule c' = forkSchedule c"
proof -
  obtain p where p: "c' = c\<lparr>cdb := (cdb c)\<lparr>db := p\<rparr>, forkState := Some s\<rparr>" "readErr p = readErr (store c)"
    "commitErr p = commitErr (store c)" "\<forall>h. kv p (NumKey h) = kv (store c) (NumKey h)"
    using saveForkScan_ok(4) [OF assms(1)] by blast
  have ne: "\<not> readErr (store c) t k" for t k using assms(2) by (simp add: atRest_def)
  have "readScanCanonical p h = readScanCanonical (store c) h" for h
    using p(2,4) ne by (simp add: readScanCanonical_def GetCanonicalHashByNum_def getBlockHashByNum_def Get_def)
  then show "atRest can lo hi (c'\<lparr>forkBatch := None\<rparr>)" using assms(2) p by (simp add: atRest_def)
  show "config c' = config c" "forkSchedule c' = forkSchedule c" by (simp_all add: p(1))
qed

context services
begin

lemma batch_ready:
  assumes sc: "scanning x v n clk can lo hi c s w" and hi: "hi \<noteq> MaxUint64" and br: "brisk n clk"
    and enc: "\<And>bv. \<exists>d. encValidation v bv = Inr d"
  shows "\<exists>r c' s' w'. scanContinuousBatch x v (config c) (\<lambda>c _. c) Background upper (Generation s) c w = (r, c', w') \<and>
    scanning x v n clk can lo hi c' s' w' \<and> tick w \<le> tick w' \<and> config c' = config c \<and> forkSchedule c' = forkSchedule c \<and>
    Generation s' = Generation s \<and> NextHeight s \<le> NextHeight s' \<and> (NextHeight s \<le> min upper hi \<longrightarrow> NextHeight s < NextHeight s')"
proof -
  define b where "b = \<lparr> bId = batches c, bStart = NextHeight s, bUpper = min upper hi, bGeneration = Generation s, bRewind = None \<rparr>"
  define c1 where "c1 = c\<lparr> forkBatch := Some b, batches := Suc (batches c) \<rparr>"
  have s: "atRest can lo hi c" "forkState c = Some s" "cursorAt lo hi s" "bucketReady x v (config c) n clk can lo hi w"
    "allSettled x v (config c) can lo (NextHeight s) w" using sc by (simp_all add: scanning_def)
  have beg: "beginForkScanBatch upper (Generation s) c = (Inr b, c1)"
    using s by (simp add: beginForkScanBatch_def atRest_def cursorAt_def b_def c1_def Let_def)
  have bs: "bStart b = NextHeight s" "bUpper b = min upper hi" by (simp_all add: b_def)
  have st: "store c1 = store c" "config c1 = config c" "forkSchedule c1 = forkSchedule c" by (simp_all add: c1_def)
  have rest1: "atRest can lo hi (c1\<lparr>forkBatch := None\<rparr>)" using s(1) by (simp add: atRest_def c1_def)
  have rd: "readScanCanonical (store c1) h = Inr (can h)" if "lo \<le> h" "h \<le> hi" for h
    using s(1) that by (simp add: atRest_def st)
  have lim: "lo \<le> bStart b" "bUpper b \<le> hi" "bUpper b \<noteq> MaxUint64"
    using s(3) hi not_MaxUint64_less [of hi] not_MaxUint64_less [of "min upper hi"] by (auto simp: bs cursorAt_def min_less_iff_disj)
  let ?dl = "now w + forkScanBatchBudget"
  obtain checked w' where sh: "scanHeights forkScanBatchSize x v (config c) (\<lambda>_. c1) Background b ?dl (bStart b) [] w = ((checked, None), w')"
    "bucketReady x v (config c) n clk can lo hi w'" "tick w \<le> tick w'"
    "allSettled x v (config c) can lo (bStart b + of_nat (length checked)) w'"
    using scanHeights_ready [where checked = "[]" and k = forkScanBatchSize and dl = ?dl, OF beg br enc lim rd s(4)] s(5) by (auto simp: bs)
  have run: "\<exists>r. scanContinuousBatch x v (config c) (\<lambda>c _. c) Background upper (Generation s) c w = (r, c', w')"
    if "finishForkScanBatch x None b checked c1 = (q, c')" for q c'
    using that sh(1) beg by (cases q) (simp add: scanContinuousBatch_def ctx_Err_def Background_def)
  show ?thesis
  proof (cases "NextHeight s \<le> min upper hi")
    case True
    then have le: "bStart b \<le> bUpper b" by (simp add: bs)
    have ne: "bStart b \<noteq> MaxUint64" using le lim(3) not_MaxUint64_less [of "bUpper b"] not_MaxUint64_less [of "bStart b"] by auto
    have sh1: "bStart b \<le> hi" using le lim(2) by simp
    obtain w1 where w1: "scanContinuousBatchHeight x v (config c) (\<lambda>_. c1) Background b (bStart b) w = (Inr (can (bStart b)), w1)"
      using scanHeight_ready [OF s(4) br lim(1) sh1 rd [OF lim(1) sh1] begin_verifies [OF beg le rd [OF lim(1) sh1]] enc] by blast
    have g: "consecutive (bStart b) checked" "scannedRight c1 b checked" "0 < length checked"
      using scanHeights_some [OF beg le ne w1, where dl = ?dl] sh(1) by (metis Pair_inject)+
    have v: "validate (the (forkState c)) = Inr ()" "\<not> commitErr (store c) (epoch (store c))"
      using s(1-3) by (simp_all add: cursorAt_def atRest_def)
    let ?s = "s\<lparr>NextHeight := bStart b + of_nat (length checked)\<rparr>"
    obtain q c' where sv: "saveForkScan x ?s c1 = (Inr (), c')" and
      fin: "finishForkScanBatch x None b checked c1 = (q, c'\<lparr>forkBatch := None\<rparr>)"
      using finish_saves [OF beg v g, of x] s(2) by auto
    have lt: "NextHeight s < NextHeight ?s"
      using consecutive_unat [OF g(1)] g(3) by (simp add: word_less_nat_alt bs)
    have "cursorAt lo hi ?s" using s(3) saveForkScan_ok(1) [OF sv] lt by (auto simp: cursorAt_def)
    then have "scanning x v n clk can lo hi (c'\<lparr>forkBatch := None\<rparr>) ?s w'"
      using atRest_saved [OF sv rest1] sh(2,4) st saveForkScan_ok(2) [OF sv] by (simp add: scanning_def)
    then show ?thesis
      using run [OF fin] sh(3) lt atRest_saved(2,3) [OF sv rest1] st
      by (elim exE, intro exI [of _ "c'\<lparr>forkBatch := None\<rparr>"] exI [of _ ?s] exI [of _ w'] exI) auto
  next
    case False
    then have "checked = []" "w' = w" using sh(1) by (simp_all add: forkScanBatchSize_def bs numeral_eq_Suc)
    then have fin: "finishForkScanBatch x None b checked c1 = ((bStart b \<le> bUpper b, None), c1\<lparr>forkBatch := None\<rparr>)"
      by (simp add: finishForkScanBatch_def)
    have "scanning x v n clk can lo hi (c1\<lparr>forkBatch := None\<rparr>) s w"
      using rest1 s by (simp add: scanning_def c1_def)
    then show ?thesis
      using run [OF fin] False \<open>w' = w\<close> st
      by (elim exE, intro exI [of _ "c1\<lparr>forkBatch := None\<rparr>"] exI [of _ s] exI [of _ w] exI) auto
  qed
qed

text \<open>One iteration of the loop and the wait after it.\<close>

lemma round_ready:
  assumes sc: "scanning x v n clk can lo hi c s w" and hi: "hi \<noteq> MaxUint64" and br: "brisk n clk"
    and enc: "\<And>bv. \<exists>d. encValidation v bv = Inr d"
  shows "\<exists>r c' s' w'. runForkScanOnce x v (\<lambda>c _. c) Background c w = (r, c', w') \<and>
    scanning x v n clk can lo hi c' s' (advance w') \<and> tick w < tick (advance w') \<and> config c' = config c \<and>
    forkSchedule c' = schedObserve (now w) (ForkScanInterval (config c) * Second) hi (Generation s) (forkSchedule c) \<and>
    Generation s' = Generation s \<and> NextHeight s \<le> NextHeight s' \<and>
    (mature (forkSchedule c') \<and> matureHeight (forkSchedule c') = hi \<and> NextHeight s \<le> hi \<longrightarrow> NextHeight s < NextHeight s')"
proof -
  define sched where "sched = schedObserve (now w) (ForkScanInterval (config c) * Second) hi (Generation s) (forkSchedule c)"
  let ?c = "c\<lparr>forkSchedule := sched\<rparr>"
  let ?ready = "mature sched \<and> NextHeight s \<le> matureHeight sched"
  have o: "observeForkScan (now w) c = ((matureHeight sched, Generation s, ?ready), ?c)"
    using sc by (simp add: observeForkScan_def scanning_def atRest_def cursorAt_def sched_def Let_def)
  have sc1: "scanning x v n clk can lo hi ?c s w" using sc by (simp add: scanning_def atRest_def)
  show ?thesis
  proof (cases ?ready)
    case False
    then have "runForkScanOnce x v (\<lambda>c _. c) Background c w = (forkScanWait (config c) None, ?c, w)"
      unfolding runForkScanOnce_def o using False by (simp only: prod.case if_False)
    moreover have "scanning x v n clk can lo hi ?c s (advance w)" using sc1 by (simp add: scanning_def)
    ultimately show ?thesis
      using False by (intro exI [of _ ?c] exI [of _ s] exI [of _ w] exI) (auto simp: sched_def)
  next
    case True
    obtain r c' s' w' where b: "scanContinuousBatch x v (config c) (\<lambda>c _. c) Background (matureHeight sched) (Generation s) ?c w = (r, c', w')"
      "scanning x v n clk can lo hi c' s' w'" "tick w \<le> tick w'" "config c' = config c" "forkSchedule c' = sched"
      "Generation s' = Generation s" "NextHeight s \<le> NextHeight s'"
      "NextHeight s \<le> min (matureHeight sched) hi \<longrightarrow> NextHeight s < NextHeight s'"
      using batch_ready [OF sc1 hi br enc, of "matureHeight sched"] by (auto simp del: min.bounded_iff)
    have "runForkScanOnce x v (\<lambda>c _. c) Background c w = (forkScanWait (config c) (Some r), c', w')"
      using o b(1) True by (simp add: runForkScanOnce_def)
    moreover have "scanning x v n clk can lo hi c' s' (advance w')" using b(2) by (simp add: scanning_def)
    ultimately show ?thesis
      using b by (intro exI [of _ c'] exI [of _ s'] exI [of _ w'] exI) (auto simp: sched_def)
  qed
qed

end

section \<open>A head that stays matures\<close>

lemma sched_matures:
  fixes S :: "nat \<Rightarrow> forkScanSchedule" and T :: "nat \<Rightarrow> int"
  assumes step: "\<And>m. S (Suc m) = schedObserve (T m) i h g (S m)" and unbounded: "\<And>B. \<exists>N. \<forall>m \<ge> N. B \<le> T m"
  shows "\<exists>N. \<forall>m \<ge> N. mature (S m) \<and> matureHeight (S m) = h"
proof -
  define due where "due m = (T m - the (observedAt (S m)) \<ge> i)" for m
  have seen: "schedGeneration (S (Suc m)) = g \<and> observedAt (S (Suc m)) \<noteq> None" for m
    by (simp add: step schedObserve_def zeroSchedule_def Let_def split: option.split)
  have nxt: "S (Suc m) = (if due m then (S m)\<lparr> matureHeight := observedHeight (S m), mature := True,
      observedAt := Some (T m), observedHeight := h \<rparr> else S m)" if "0 < m" for m
    using seen [of "m - 1"] that by (auto simp: step [of m] schedObserve_def due_def Let_def)
  have fires: "\<exists>m \<ge> N. due m" if "0 < N" for N
  proof (rule ccontr)
    assume a: "\<not> (\<exists>m \<ge> N. due m)"
    have same: "S (N + j) = S N" for j
    proof (induction j)
      case (Suc j)
      have "\<not> due (N + j)" "0 < N + j" using a that by auto
      then show ?case using nxt [of "N + j"] Suc by simp
    qed simp
    obtain M where M: "\<forall>m \<ge> M. the (observedAt (S N)) + i \<le> T m" using unbounded by blast
    have "the (observedAt (S N)) + i \<le> T (N + M)" using M by simp
    then have "due (N + M)" using same [of M] by (simp add: due_def)
    then show False using a by auto
  qed
  obtain m1 where m1: "0 < m1" "due m1" using fires [of 1] by (auto simp: Suc_le_eq)
  have obs: "observedHeight (S (Suc m1 + j)) = h" for j
  proof (induction j)
    case 0
    then show ?case using nxt m1 by simp
  next
    case (Suc j)
    then show ?case using nxt [of "Suc m1 + j"] by auto
  qed
  obtain m2 where m2: "m2 \<ge> Suc m1" "due m2" using fires [of "Suc m1"] by auto
  have o2: "observedHeight (S (m2 + j)) = h" for j using obs [of "m2 + j - Suc m1"] m2(1) by simp
  have "mature (S (Suc m2 + j)) \<and> matureHeight (S (Suc m2 + j)) = h" for j
  proof (induction j)
    case 0
    then show ?case using nxt [of m2] m2 o2 [of 0] by simp
  next
    case (Suc j)
    then show ?case using nxt [of "Suc m2 + j"] o2 [of "Suc j"] by auto
  qed
  then show ?thesis by (metis le_Suc_ex)
qed

section \<open>The loop\<close>

definition roundOf :: "ext \<Rightarrow> svc \<Rightarrow> Checker \<times> world \<Rightarrow> Checker \<times> world" where
  "roundOf x v cw = (case runForkScanOnce x v (\<lambda>c _. c) Background (fst cw) (snd cw) of (_, c, w) \<Rightarrow> (c, advance w))"

lemma continuousRounds_iterate:
  "continuousRounds (m + fuel) x v (\<lambda>c _. c) Background c w =
   continuousRounds fuel x v (\<lambda>c _. c) Background (fst ((roundOf x v ^^ m) (c, w))) (snd ((roundOf x v ^^ m) (c, w)))"
proof (induction m arbitrary: c w)
  case (Suc m)
  have "continuousRounds (Suc m + fuel) x v (\<lambda>c _. c) Background c w =
      continuousRounds (m + fuel) x v (\<lambda>c _. c) Background (fst (roundOf x v (c, w))) (snd (roundOf x v (c, w)))"
    by (simp add: ctx_Err_def Background_def roundOf_def Let_def split: prod.split)
  then show ?case using Suc by (simp add: funpow_swap1)
qed simp

context services
begin

lemma rounds_scanning:
  assumes sc: "scanning x v n clk can lo hi c s w" and hi: "hi \<noteq> MaxUint64" and br: "brisk n clk"
    and enc: "\<And>bv. \<exists>d. encValidation v bv = Inr d"
  shows "\<exists>s'. scanning x v n clk can lo hi (fst ((roundOf x v ^^ m) (c, w))) s' (snd ((roundOf x v ^^ m) (c, w))) \<and>
    config (fst ((roundOf x v ^^ m) (c, w))) = config c \<and> Generation s' = Generation s \<and>
    tick w + m \<le> tick (snd ((roundOf x v ^^ m) (c, w)))"
proof (induction m)
  case 0
  then show ?case using sc by auto
next
  case (Suc m)
  obtain cm wm where cw: "(roundOf x v ^^ m) (c, w) = (cm, wm)" by fastforce
  then obtain s' where s': "scanning x v n clk can lo hi cm s' wm" "config cm = config c" "Generation s' = Generation s" "tick w + m \<le> tick wm"
    using Suc by auto
  from round_ready [OF s'(1) hi br enc] obtain r c2 s2 w2 where
    "runForkScanOnce x v (\<lambda>c _. c) Background cm wm = (r, c2, w2)" "scanning x v n clk can lo hi c2 s2 (advance w2)"
    "tick wm < tick (advance w2)" "config c2 = config cm" "Generation s2 = Generation s'" by blast
  moreover from this(1) cw have "(roundOf x v ^^ Suc m) (c, w) = (c2, advance w2)"
    by (simp only: funpow.simps comp_apply) (simp add: roundOf_def)
  ultimately show ?case using s' by auto
qed

lemma cursor_arrives:
  assumes sc: "scanning x v n clk can lo hi c s w" and hi: "hi \<noteq> MaxUint64" and br: "brisk n clk"
    and enc: "\<And>bv. \<exists>d. encValidation v bv = Inr d" and unbounded: "\<And>B. \<exists>N. \<forall>t \<ge> N. B \<le> clk t"
  shows "\<exists>m s'. scanning x v n clk can lo hi (fst ((roundOf x v ^^ m) (c, w))) s' (snd ((roundOf x v ^^ m) (c, w))) \<and> hi < NextHeight s'"
proof (rule ccontr)
  assume never: "\<not> ?thesis"
  define C W where "C m = fst ((roundOf x v ^^ m) (c, w))" and "W m = snd ((roundOf x v ^^ m) (c, w))" for m
  define cur where "cur m = the (forkState (C m))" for m
  have J: "scanning x v n clk can lo hi (C m) (cur m) (W m)" "config (C m) = config c" "Generation (cur m) = Generation s"
    "tick w + m \<le> tick (W m)" for m
    using rounds_scanning [OF sc hi br enc, of m] by (auto simp: C_def W_def cur_def scanning_def)
  have le: "NextHeight (cur m) \<le> hi" for m
    using never J(1) [of m] by (auto simp: C_def W_def not_less)
  have R: "forkSchedule (C (Suc m)) = schedObserve (now (W m)) (ForkScanInterval (config c) * Second) hi (Generation s) (forkSchedule (C m)) \<and>
    (mature (forkSchedule (C (Suc m))) \<and> matureHeight (forkSchedule (C (Suc m))) = hi \<longrightarrow> NextHeight (cur m) < NextHeight (cur (Suc m)))" for m
  proof -
    from round_ready [OF J(1) hi br enc] obtain r c2 s2 w2 where
      r: "runForkScanOnce x v (\<lambda>c _. c) Background (C m) (W m) = (r, c2, w2)" "scanning x v n clk can lo hi c2 s2 (advance w2)"
      "forkSchedule c2 = schedObserve (now (W m)) (ForkScanInterval (config (C m)) * Second) hi (Generation (cur m)) (forkSchedule (C m))"
      "mature (forkSchedule c2) \<and> matureHeight (forkSchedule c2) = hi \<and> NextHeight (cur m) \<le> hi \<longrightarrow> NextHeight (cur m) < NextHeight s2"
      by blast
    then have "C (Suc m) = c2" unfolding C_def W_def by (simp only: funpow.simps comp_apply) (simp add: roundOf_def [of x v "(roundOf x v ^^ m) (c, w)"])
    then show ?thesis using r le J by (auto simp: cur_def scanning_def)
  qed
  have "\<exists>N. \<forall>m \<ge> N. B \<le> now (W m)" for B
  proof -
    obtain N where N: "\<forall>t \<ge> N. B \<le> clk t" using unbounded by blast
    have "clock (W m) = clk" for m using J(1) [of m] by (simp add: scanning_def bucketReady_def)
    moreover have "N \<le> tick (W m)" if "N \<le> m" for m using J(4) [of m] that by simp
    ultimately show ?thesis using N by (auto simp: now_def)
  qed
  from sched_matures [of "\<lambda>m. forkSchedule (C m)", OF _ this] R obtain N where
    N: "\<forall>m \<ge> N. mature (forkSchedule (C m)) \<and> matureHeight (forkSchedule (C m)) = hi" by blast
  have "unat (NextHeight (cur N)) + j \<le> unat (NextHeight (cur (N + j)))" for j
  proof (induction j)
    case (Suc j)
    have "NextHeight (cur (N + j)) < NextHeight (cur (Suc (N + j)))" using R [of "N + j"] N by simp
    then show ?case using Suc by (simp add: word_less_nat_alt)
  qed simp
  from this [of "Suc (unat hi)"] le [of "N + Suc (unat hi)"] show False by (simp add: word_le_nat_alt)
qed

end

text \<open>
  C6: the continuous scan catches up. When the main flow is at rest with head \<open>hi\<close> published, the checker does not
  quit, the store and the bucket answer, nobody else writes the bucket, each height from the cursor to \<open>hi\<close> has its canonical
  object and decodable objects, fewer than \<open>n\<close>, the clock is unbounded and \<open>3 * n\<close> calls fit into the time of a height,
  then the worker reaches a state in which the cursor is past \<open>hi\<close> and the fork flags
  of all these heights agree with the canonical index. The schedule may be in any state at the start.
\<close>

theorem worker_catches_up:
  assumes "services v rest" and "\<forall>bv. \<exists>d. encValidation v bv = Inr d"
    and "ContinuousForkScan (config c)" and "forkState c = Some s" and "cursorAt (NextHeight s) hi s" and "hi \<noteq> MaxUint64"
    and "atRest can (NextHeight s) hi c" and "bucketReady x v (config c) n clk can (NextHeight s) hi w"
    and "brisk n clk" and "\<forall>B. \<exists>N. \<forall>t \<ge> N. B \<le> clk t"
  shows "\<exists>m c' s' w'. (\<forall>fuel. runForkScan (m + fuel) x v (\<lambda>c _. c) c w = runForkScan fuel x v (\<lambda>c _. c) c' w') \<and>
    forkState c' = Some s' \<and> NextHeight s' = hi + 1 \<and>
    (\<forall>h. NextHeight s \<le> h \<and> h \<le> hi \<longrightarrow> settledAt x v (config c) (objects w') h (can h))"
proof -
  have sc: "scanning x v n clk can (NextHeight s) hi c s w"
    using assms(4,5,7,8) by (auto simp: scanning_def allSettled_def)
  have enc: "\<And>bv. \<exists>d. encValidation v bv = Inr d" and unb: "\<And>B. \<exists>N. \<forall>t \<ge> N. B \<le> clk t" using assms by auto
  obtain m s' where m: "scanning x v n clk can (NextHeight s) hi (fst ((roundOf x v ^^ m) (c, w))) s' (snd ((roundOf x v ^^ m) (c, w)))"
    "hi < NextHeight s'"
    using services.cursor_arrives [OF assms(1) sc assms(6,9) enc unb] by blast
  obtain c' w' where cw: "(roundOf x v ^^ m) (c, w) = (c', w')" by fastforce
  have cfg: "config c' = config c" using services.rounds_scanning [OF assms(1) sc assms(6,9) enc, of m] cw by auto
  have s': "forkState c' = Some s'" "validate s' = Inr ()" "anchorHeight (Published s') = hi"
    "bucketReady x v (config c') n clk can (NextHeight s) hi w'" "allSettled x v (config c') can (NextHeight s) (NextHeight s') w'"
    using m cw by (simp_all add: scanning_def cursorAt_def)
  have nx: "NextHeight s' = hi + 1"
    using s'(2,3) m(2) assms(6) by (auto simp: validate_def u64_Suc_le_iff [symmetric] split: if_splits)
  have q: "quitCtx w = Background" "quitCtx w' = Background"
    using assms(8) s'(4) by (simp_all add: quitCtx_def Background_def bucketReady_def)
  have "runForkScan (m + fuel) x v (\<lambda>c _. c) c w = runForkScan fuel x v (\<lambda>c _. c) c' w'" for fuel
    using assms(3) continuousRounds_iterate [of m fuel x v c w] cw
    by (simp add: runForkScan_def q cfg) (simp add: ContinuousForkScan_def)
  moreover have "\<forall>h. NextHeight s \<le> h \<and> h \<le> hi \<longrightarrow> settledAt x v (config c) (objects w') h (can h)"
    using s'(5) assms(6) by (simp add: allSettled_def nx cfg u64_less_Suc_iff)
  ultimately show ?thesis using s'(1) nx by blast
qed

text \<open>A bucket in which the flags of height 5 are wrong, and a clock that ticks every millisecond.\<close>

definition msClock :: "nat \<Rightarrow> int" where
  "msClock t = int t * Millisecond"

lemma msClock_ok: "brisk 3 msClock" "\<forall>B. \<exists>N. \<forall>t \<ge> N. B \<le> msClock t"
proof -
  show "brisk 3 msClock"
    by (simp add: brisk_def msClock_def forkScanHeightTimeout_def Second_def Millisecond_def algebra_simps)
  show "\<forall>B. \<exists>N. \<forall>t \<ge> N. B \<le> msClock t"
  proof (intro allI)
    fix B
    have "B \<le> msClock t" if "nat B \<le> t" for t
      using that by (simp add: msClock_def Millisecond_def)
    then show "\<exists>N. \<forall>t \<ge> N. B \<le> msClock t" by blast
  qed
qed

theorem worker_catches_up_witness:
  "\<exists>c m c' s' w'. exAligned c \<and> \<not> settledAt hexExt plainSvc exCfg exBucket 5 7 \<and>
     (\<forall>fuel. runForkScan (m + fuel) hexExt plainSvc (\<lambda>c _. c) c ((exWorld exBucket)\<lparr>clock := msClock\<rparr>) =
       runForkScan fuel hexExt plainSvc (\<lambda>c _. c) c' w') \<and>
     forkState c' = Some s' \<and> NextHeight s' = 6 \<and> settledAt hexExt plainSvc exCfg (objects w') 5 7"
proof -
  obtain c where c: "exAligned c" using ex_aligned by blast
  let ?w = "(exWorld exBucket)\<lparr>clock := msClock\<rparr>"
  have e: "ex_ready c" "forkState c = Some exSt1" "forkBatch c = None" "forkAligned c" "config c = exCfg"
    using c by (simp_all add: exAligned_def ex_ready_def)
  have n: "NextHeight exSt1 = 5" by (simp add: exSt1_def exSt_def)
  have five: "h = 5" if "5 \<le> h" "h \<le> 5" for h :: u64 using that by simp
  have cur: "cursorAt (NextHeight exSt1) 5 exSt1"
    by (simp add: cursorAt_def validate_def exSt1_def exSt_def MaxUint64_def)
  have "readScanCanonical (store c) 5 = Inr 7"
    using e(1) by (simp add: readScanCanonical_def GetCanonicalHashByNum_def getBlockHashByNum_def Get_def ex_ready_def)
  then have rest: "atRest (\<lambda>_. 7) (NextHeight exSt1) 5 c"
    using e(1,3,4) by (auto simp: atRest_def ex_ready_def n dest: five)
  have "scannable hexExt plainSvc exCfg 3 exBucket 5 7"
    using ex_plan_hyps by (simp add: scannable_def blockAt_def)
  moreover have "calm exBucket 3 ?w"
    using ex_calm by (simp add: calm_def quiet_def no_uploads_def fate_ok_def)
  ultimately have ready: "bucketReady hexExt plainSvc (config c) 3 msClock (\<lambda>_. 7) (NextHeight exSt1) 5 ?w"
    by (auto simp: bucketReady_def e(5) n dest: five) (simp_all add: exWorld_def)
  have enc: "\<forall>bv. \<exists>d. encValidation plainSvc bv = Inr d" by (simp add: plainSvc_def plainEnc_def)
  have cont: "ContinuousForkScan (config c)" by (simp add: e(5) ex_cfg)
  have mx: "(5 :: u64) \<noteq> MaxUint64" by (simp add: MaxUint64_def)
  obtain m c' s' w' where r: "\<forall>fuel. runForkScan (m + fuel) hexExt plainSvc (\<lambda>c _. c) c ?w = runForkScan fuel hexExt plainSvc (\<lambda>c _. c) c' w'"
    "forkState c' = Some s'" "NextHeight s' = 5 + 1"
    "\<forall>h. NextHeight exSt1 \<le> h \<and> h \<le> 5 \<longrightarrow> settledAt hexExt plainSvc (config c) (objects w') h 7"
    using worker_catches_up [OF plain.services_axioms enc cont e(2) cur mx rest ready msClock_ok] by blast
  have "settledAt hexExt plainSvc exCfg (objects w') 5 7" using r(4) by (simp add: n e(5))
  moreover have "\<not> settledAt hexExt plainSvc exCfg exBucket 5 7"
    by (simp add: settledAt_def flags_agree_def ex_height ex_stored exVal_def)
  moreover have "NextHeight s' = 6" using r(3) by simp
  ultimately show ?thesis using c r(1,2) by blast
qed

end
