(* ===== verification/Server.thy ===== *)
theory Server
  imports ConsistencyDB Nodes
begin

text \<open>
  The query server, \<^verbatim>\<open>cmd/checker/server.go\<close>: decoding a request, the four handlers and their dispatch.
  A reply is the value handed to gin, which writes it as JSON with status 200, or \<open>Abort\<close> for a panic,
  which \<^verbatim>\<open>gin.Recovery\<close> turns into status 500. The lemmas say what the answers mean for the
  canonical index and when a request makes a handler panic.
\<close>

section \<open>Numbers in a request\<close>

text \<open>
  \<^verbatim>\<open>big.Int.SetString(s, 0)\<close>: an optional sign, a base prefix, and the digits scanned one by one. The
  state of the scan is what is left to read, the class of the previous character (\<^verbatim>\<open>0\<close> a digit, \<^verbatim>\<open>_\<close> a
  separator, \<^verbatim>\<open>.\<close> anything else), whether a separator was misplaced, and the digits with their value.
\<close>

record scanState =
  scLeft :: string
  scPrev :: char
  scInval :: bool
  scCount :: nat
  scValue :: nat

fun scanDigits :: "nat \<Rightarrow> string \<Rightarrow> char \<Rightarrow> bool \<Rightarrow> nat \<Rightarrow> nat \<Rightarrow> scanState" where
  "scanDigits b [] prev inval count z = \<lparr> scLeft = [], scPrev = prev, scInval = inval, scCount = count, scValue = z \<rparr>"
| "scanDigits b (ch # r) prev inval count z =
     (if ch = CHR ''_'' then scanDigits b r CHR ''_'' (inval \<or> prev \<noteq> CHR ''0'') count z
      else (case digit_val ch of
              Some d \<Rightarrow>
                if d < b then scanDigits b r CHR ''0'' inval (Suc count) (z * b + d)
                else \<lparr> scLeft = ch # r, scPrev = prev, scInval = inval, scCount = count, scValue = z \<rparr>
            | None \<Rightarrow> \<lparr> scLeft = ch # r, scPrev = prev, scInval = inval, scCount = count, scValue = z \<rparr>))"

text \<open>The prefix: a lone \<^verbatim>\<open>0\<close> is a digit, \<^verbatim>\<open>0b\<close>, \<^verbatim>\<open>0o\<close> and \<^verbatim>\<open>0x\<close> select a base, any other \<^verbatim>\<open>0\<close> selects base 8.\<close>

definition scanNat :: "string \<Rightarrow> scanState" where
  "scanNat s = (case s of
     z # ch # r \<Rightarrow>
       if z = CHR ''0'' then
         (if low_char ch = CHR ''b'' then scanDigits 2 r CHR ''0'' False 0 0
          else if low_char ch = CHR ''o'' then scanDigits 8 r CHR ''0'' False 0 0
          else if low_char ch = CHR ''x'' then scanDigits 16 r CHR ''0'' False 0 0
          else scanDigits 8 (ch # r) CHR ''0'' False 0 0)
       else scanDigits 10 s CHR ''.'' False 0 0
   | _ \<Rightarrow> scanDigits 10 s CHR ''.'' False 0 0)"

text \<open>
  Without digits the scan fails; the exception of the source, a \<^verbatim>\<open>0\<close> followed by characters that are no
  octal digits, always leaves characters unread or ends in a separator and fails as well.
\<close>

definition SetStringNat :: "string \<Rightarrow> nat option" where
  "SetStringNat s = (let st = scanNat s in
     if scLeft st \<noteq> [] \<or> scInval st \<or> scPrev st = CHR ''_'' \<or> scCount st = 0 then None else Some (scValue st))"

definition SetString0 :: "string \<Rightarrow> int option" where
  "SetString0 s = (case s of
     [] \<Rightarrow> None
   | c # r \<Rightarrow>
       if c = CHR ''-'' then map_option (\<lambda>n. - int n) (SetStringNat r)
       else if c = CHR ''+'' then map_option int (SetStringNat r)
       else map_option int (SetStringNat s))"

section \<open>Requests\<close>

text \<open>
  A number of a parameter is stored as a \<^verbatim>\<open>float64\<close>; a literal that rounds to infinity is an error. The
  bound is the midpoint between the largest \<^verbatim>\<open>float64\<close> and two to the 1024.
\<close>

definition floatBound :: nat where
  "floatBound = 2 ^ 1024 - 2 ^ 970"

definition float_ok :: "string \<Rightarrow> bool" where
  "float_ok lit =
     (let s = TrimPrefix lit ''-'';
          ints = takeWhile is_digit s;
          r1 = dropWhile is_digit s;
          fracs = (case r1 of d # r \<Rightarrow> if d = CHR ''.'' then takeWhile is_digit r else [] | [] \<Rightarrow> []);
          r2 = (case r1 of d # r \<Rightarrow> if d = CHR ''.'' then dropWhile is_digit r else r1 | [] \<Rightarrow> []);
          e = (case r2 of [] \<Rightarrow> 0 | _ # x \<Rightarrow> lit_int (TrimPrefix x ''+''));
          m = undecimal (ints @ fracs);
          e10 = e - int (length fracs) in
      if 0 \<le> e10 then m * 10 ^ nat e10 < floatBound else m < floatBound * 10 ^ nat (- e10))"

fun value_ok :: "json \<Rightarrow> bool"
and values_ok :: "json list \<Rightarrow> bool"
and fields_ok :: "(string \<times> json) list \<Rightarrow> bool" where
  "value_ok (JNum lit) = float_ok lit"
| "value_ok (JArr xs) = values_ok xs"
| "value_ok (JObj ms) = fields_ok ms"
| "value_ok JNull = True"
| "value_ok (JBool b) = True"
| "value_ok (JStr s) = True"
| "values_ok [] = True"
| "values_ok (x # xs) = (value_ok x \<and> values_ok xs)"
| "fields_ok [] = True"
| "fields_ok ((k, v) # ms) = (value_ok v \<and> fields_ok ms)"

definition dec_params :: "json \<Rightarrow> json list res" where
  "dec_params j = (case j of
     JNull \<Rightarrow> Inr []
   | JArr xs \<Rightarrow> if values_ok xs then Inr xs else Inl jsonErr
   | _ \<Rightarrow> Inl jsonErr)"

definition req_field :: "string \<times> json \<Rightarrow> JsonRpcReq \<Rightarrow> JsonRpcReq res" where
  "req_field m r = (case m of (k, v) \<Rightarrow>
     if EqualFold k ''id''
     then (case dec_int v (reqID r) of Inl e \<Rightarrow> Inl e | Inr i \<Rightarrow> Inr (r\<lparr>reqID := i\<rparr>))
     else if EqualFold k ''jsonrpc''
     then (case dec_string v (reqJsonRpc r) of Inl e \<Rightarrow> Inl e | Inr s \<Rightarrow> Inr (r\<lparr>reqJsonRpc := s\<rparr>))
     else if EqualFold k ''method''
     then (case dec_string v (Method r) of Inl e \<Rightarrow> Inl e | Inr s \<Rightarrow> Inr (r\<lparr>Method := s\<rparr>))
     else if EqualFold k ''params''
     then (case dec_params v of Inl e \<Rightarrow> Inl e | Inr xs \<Rightarrow> Inr (r\<lparr>Params := xs\<rparr>))
     else Inr r)"

definition decodeReq :: "string \<Rightarrow> JsonRpcReq res" where
  "decodeReq body = (let zero = \<lparr> reqID = 0, reqJsonRpc = [], Method = [], Params = [] \<rparr> in
     case json_parse body of
       Some JNull \<Rightarrow> Inr zero
     | Some (JObj ms) \<Rightarrow> fold_res req_field ms zero
     | _ \<Rightarrow> Inl jsonErr)"

section \<open>Replies\<close>

text \<open>A message is a text of the handler or the text of an error of the store.\<close>

datatype rpcMessage = Text string | ErrorText err

datatype rpcResult = Block "BlockInfo option" | Valid bool

datatype reply = NewJsonRpcRsp rpcResult | NewErrorRsp int rpcMessage | Abort

section \<open>Handlers\<close>

definition handleGetLatestBlock :: "ConsistencyDB option \<Rightarrow> reply" where
  "handleGetLatestBlock DB = (case DB of
     None \<Rightarrow> NewErrorRsp (-39005) (Text ''db not initialized'')
   | Some cdb \<Rightarrow> NewJsonRpcRsp (Block (GetLatestBlockInfo cdb)))"

definition blockReply :: "BlockInfo res \<Rightarrow> reply" where
  "blockReply r = (case r of
     Inl e \<Rightarrow> NewErrorRsp (-39005) (ErrorText e)
   | Inr b \<Rightarrow> NewJsonRpcRsp (Block (Some b)))"

definition handleGetBlockByHeight :: "ext \<Rightarrow> ConsistencyDB option \<Rightarrow> JsonRpcReq \<Rightarrow> reply" where
  "handleGetBlockByHeight x DB req = (case Params req of
     [] \<Rightarrow> NewErrorRsp (-32602) (Text ''params not found'')
   | p # _ \<Rightarrow>
       (case p of
          JStr height \<Rightarrow>
            if height = [] then NewErrorRsp (-32602) (Text ''params not found'')
            else (case SetString0 height of
                    None \<Rightarrow> NewErrorRsp (-32602) (Text ''num params error'')
                  | Some num \<Rightarrow>
                      (case DB of
                         None \<Rightarrow> NewErrorRsp (-39005) (Text ''db not initialized'')
                       | Some cdb \<Rightarrow> blockReply (GetBlockInfoByNum x (db cdb) num)))
        | _ \<Rightarrow> Abort))"

definition handleGetBlockById :: "ext \<Rightarrow> ConsistencyDB option \<Rightarrow> JsonRpcReq \<Rightarrow> reply" where
  "handleGetBlockById x DB req = (case Params req of
     [] \<Rightarrow> NewErrorRsp (-32602) (Text ''params not found'')
   | p # _ \<Rightarrow>
       (case p of
          JStr ident \<Rightarrow>
            (case DB of
               None \<Rightarrow> NewErrorRsp (-39005) (Text ''db not initialized'')
             | Some cdb \<Rightarrow> blockReply (GetBlockInfoByHash x (db cdb) (HexToHash x ident)))
        | _ \<Rightarrow> NewErrorRsp (-32602) (Text ''params error'')))"

text \<open>The main flow may write between the two queries: \<open>later\<close> is the store at the second one.\<close>

definition handleBlockIsValid :: "ext \<Rightarrow> ConsistencyDB option \<Rightarrow> pebble \<Rightarrow> JsonRpcReq \<Rightarrow> reply" where
  "handleBlockIsValid x DB later req = (case Params req of
     [] \<Rightarrow> NewErrorRsp (-32602) (Text ''params not found'')
   | p # _ \<Rightarrow>
       (case p of
          JStr ident \<Rightarrow>
            (case DB of
               None \<Rightarrow> NewErrorRsp (-39005) (Text ''db not initialized'')
             | Some cdb \<Rightarrow>
                 (case GetBlockInfoByHash x (db cdb) (HexToHash x ident) of
                    Inl e \<Rightarrow> NewErrorRsp (-39005) (ErrorText e)
                  | Inr block0 \<Rightarrow>
                      (case GetBlockInfoByNum x later (uint (Height block0)) of
                         Inl e \<Rightarrow> NewErrorRsp (-39005) (ErrorText e)
                       | Inr block1 \<Rightarrow> NewJsonRpcRsp (Valid (ID block0 = ID block1)))))
        | _ \<Rightarrow> NewErrorRsp (-32602) (Text ''params error'')))"

definition index :: "ext \<Rightarrow> ConsistencyDB option \<Rightarrow> pebble \<Rightarrow> string \<Rightarrow> reply" where
  "index x DB later body = (case decodeReq body of
     Inl e \<Rightarrow> NewErrorRsp (-32700) (Text ''parse error'')
   | Inr req \<Rightarrow>
       if reqJsonRpc req \<noteq> ''2.0'' then NewErrorRsp (-32600) (Text ''jsonrpc version not found'')
       else if Method req = [] then NewErrorRsp (-32601) (Text ''method not found'')
       else if Method req = ''getLatestBlock'' then handleGetLatestBlock DB
       else if Method req = ''getBlockByHeight'' then handleGetBlockByHeight x DB req
       else if Method req = ''getBlockById'' then handleGetBlockById x DB req
       else if Method req = ''blockIsValid'' then handleBlockIsValid x DB later req
       else NewErrorRsp (-32601) (Text ''method not found''))"

section \<open>Lemmas: requests\<close>

lemma scanDigits_step:
  "d < b \<Longrightarrow> digit_val c = Some d \<Longrightarrow> c \<noteq> CHR ''_'' \<Longrightarrow> scanDigits b (c # r) p i k z = scanDigits b r CHR ''0'' i (Suc k) (z * b + d)"
  by simp

lemma scanDigits_hex:
  "scanDigits 16 (hexNat n @ r) p i k 0 = scanDigits 16 r CHR ''0'' i (k + length (hexNat n)) n"
proof (induction n arbitrary: r k rule: hexNat.induct)
  case (1 n)
  have m: "digit_val (hex_digit (n mod 16)) = Some (n mod 16)" "hex_digit (n mod 16) \<noteq> CHR ''_''"
    using digit_val_hex [of "n mod 16"] by simp_all
  show ?case
  proof (cases "n < 16")
    case True
    then show ?thesis using m by (subst (1 2) hexNat.simps) simp
  next
    case False
    then have "hexNat n = hexNat (n div 16) @ [hex_digit (n mod 16)]" by (subst hexNat.simps) simp
    then show ?thesis using 1 [OF False] m by simp
  qed
qed

lemma SetString0_hex: "SetString0 (''0x'' @ hexNat n) = Some (int n)"
proof -
  have "hexNat n \<noteq> []" using digits_hexNat [of n] by simp
  then have "SetStringNat (''0x'' @ hexNat n) = Some n"
    using scanDigits_hex [of n "[]"] low_x by (simp add: SetStringNat_def scanNat_def Let_def)
  then show ?thesis by (simp add: SetString0_def)
qed

text \<open>The request the README sends.\<close>

definition request :: "string \<Rightarrow> string \<Rightarrow> string" where
  "request m s = json_print (JObj [(''jsonrpc'', JStr ''2.0''), (''method'', JStr m), (''params'', JArr [JStr s]), (''id'', JNum (fmt_d 1))])"

lemma req_names:
  "\<not> EqualFold ''jsonrpc'' ''id''" "EqualFold ''jsonrpc'' ''jsonrpc''" "\<not> EqualFold ''method'' ''id''"
  "\<not> EqualFold ''method'' ''jsonrpc''" "EqualFold ''method'' ''method''" "\<not> EqualFold ''params'' ''id''"
  "\<not> EqualFold ''params'' ''jsonrpc''" "\<not> EqualFold ''params'' ''method''" "EqualFold ''params'' ''params''"
  "EqualFold ''id'' ''id''"
  by code_simp+

lemma decodeReq_request:
  assumes "ascii m" and "ascii s"
  shows "decodeReq (request m s) = Inr \<lparr> reqID = 1, reqJsonRpc = ''2.0'', Method = m, Params = [JStr s] \<rparr>"
proof -
  let ?j = "JObj [(''jsonrpc'', JStr ''2.0''), (''method'', JStr m), (''params'', JArr [JStr s]), (''id'', JNum (fmt_d 1))]"
  have "ascii ''jsonrpc''" "ascii ''id''" "ascii ''method''" "ascii ''params''" "ascii ''2.0''" by code_simp+
  then have "json_ok ?j" using assms by simp
  then have "json_parse (request m s) = Some ?j" unfolding request_def by (rule json_parse_print)
  moreover have "dec_int (JNum (fmt_d 1)) 0 = Inr 1" by (rule int_json_dec) simp_all
  ultimately show ?thesis
    by (simp add: decodeReq_def Let_def req_field_def req_names dec_params_def)
qed

lemma method_names: "ascii ''getBlockByHeight''" "ascii ''blockIsValid''" "ascii ''getBlockById''"
  by code_simp+

lemmas handler_defs = handleGetLatestBlock_def handleGetBlockByHeight_def handleGetBlockById_def handleBlockIsValid_def blockReply_def

lemma GetBlockInfoByHash_ID: "GetBlockInfoByHash x p h = Inr info \<Longrightarrow> ID info = h"
  by (auto simp: GetBlockInfoByHash_def split: sum.splits option.splits if_splits)

section \<open>Properties\<close>

text \<open>
  C39: What \<^verbatim>\<open>blockIsValid\<close> answers. When the request of the documentation is answered with a result, the block
  is known and the result is true exactly when the canonical index maps its height to its hash at
  the time of the second query, even if the main flow wrote in between.
\<close>

theorem validity_answer_is_canonicity:
  assumes "index x (Some cdb) later (request ''blockIsValid'' s) = NewJsonRpcRsp (Valid b)" and "ascii s"
  shows "\<exists>info. GetBlockInfoByHash x (db cdb) (HexToHash x s) = Inr info \<and>
    (b \<longleftrightarrow> canon later (Height info) = Some (HexToHash x s))"
proof -
  obtain info b1 where i: "GetBlockInfoByHash x (db cdb) (HexToHash x s) = Inr info"
    and n: "GetBlockInfoByNum x later (uint (Height info)) = Inr b1" and b: "b = (ID info = ID b1)"
    using assms(1) by (auto simp: index_def decodeReq_request [OF method_names(2) assms(2)] handler_defs split: sum.splits)
  obtain h where h: "getBlockHashByNum later (uint (Height info)) = Inr h" and g: "GetBlockInfoByHash x later h = Inr b1"
    using n by (auto simp: GetBlockInfoByNum_def split: sum.splits)
  have "ID b1 = h" "ID info = HexToHash x s" using g i GetBlockInfoByHash_ID by metis+
  then show ?thesis using i b getBlockHashByNum_canon [OF h] by auto
qed


text \<open>Block 7 is canonical at height 3; block 8 was at height 4 and lost its mapping.\<close>

definition exStore :: ConsistencyDB where
  "exStore = exDB\<lparr>db := emptyPebble\<lparr>kv := [HashKey 7 \<mapsto> [0xC2, 3, 33], NumKey 3 \<mapsto> hash_bytes 7, HashKey 8 \<mapsto> [0xC2, 4, 33]]\<rparr>\<rparr>"

lemma ex_rlp4: "rlp_pair (4, 33) = Some [0xC2, 4, 33]"
  by (simp add: rlp_pair_def big_Bytes_def nat_Bytes.simps rlp_item_def)

lemma exStore_blocks:
  "GetBlockInfoByHash hexExt (db exStore) 7 = Inr \<lparr> ID = 7, Height = 3, ValidationHash = 33, IsFork = False \<rparr>"
  "GetBlockInfoByHash hexExt (db exStore) 8 = Inr \<lparr> ID = 8, Height = 4, ValidationHash = 33, IsFork = True \<rparr>"
proof -
  have d: "rlpDecode hexExt [0xC2, 3, 33] = Some (3, 33)" "rlpDecode hexExt [0xC2, 4, 33] = Some (4, 33)"
    using rlp_unpair_pair [OF ex_rlp] rlp_unpair_pair [OF ex_rlp4] by (simp_all add: hexExt_def)
  show "GetBlockInfoByHash hexExt (db exStore) 7 = Inr \<lparr> ID = 7, Height = 3, ValidationHash = 33, IsFork = False \<rparr>"
    "GetBlockInfoByHash hexExt (db exStore) 8 = Inr \<lparr> ID = 8, Height = 4, ValidationHash = 33, IsFork = True \<rparr>"
    by (simp_all add: GetBlockInfoByHash_def getBlockHashByNum_def Get_def exStore_def exDB_def emptyPebble_def d
        NumKey_inject big_Uint64_def big_Int64_def)
qed

lemma ex_hashes: "HexToHash hexExt ''0x07'' = 7" "HexToHash hexExt ''0x08'' = 8" "ascii ''0x07''" "ascii ''0x08''"
  by (simp add: hexExt_def, code_simp) (simp add: hexExt_def, code_simp, code_simp, code_simp)

theorem validity_answer_is_canonicity_witness:
  "index hexExt (Some exStore) (db exStore) (request ''blockIsValid'' ''0x07'') = NewJsonRpcRsp (Valid True) \<and>
   canon (db exStore) 3 = Some 7"
proof -
  have h: "getBlockHashByNum (db exStore) 3 = Inr 7"
    by (simp add: getBlockHashByNum_def Get_def exStore_def exDB_def emptyPebble_def)
  have r: "index hexExt (Some exStore) (db exStore) (request ''blockIsValid'' ''0x07'') = NewJsonRpcRsp (Valid True)"
    by (simp add: index_def decodeReq_request [OF method_names(2) ex_hashes(3)] handler_defs ex_hashes exStore_blocks
        GetBlockInfoByNum_def h)
  from validity_answer_is_canonicity [OF r ex_hashes(3)] r exStore_blocks(1) show ?thesis
    by (simp add: ex_hashes)
qed

text \<open>
  Heights in requests. A request for the block at a height given in hexadecimal, as the documentation
  shows, is answered with what the index holds for exactly that height, whatever its size: the block or
  the error of the store.
\<close>

theorem height_request_is_exact:
  "index x (Some cdb) later (request ''getBlockByHeight'' (''0x'' @ hexNat n)) =
     (case GetBlockInfoByNum x (db cdb) (int n) of
        Inl e \<Rightarrow> NewErrorRsp (-39005) (ErrorText e) | Inr info \<Rightarrow> NewJsonRpcRsp (Block (Some info)))"
  unfolding index_def decodeReq_request [OF method_names(1) ascii_hexNat]
  using SetString0_hex [of n] by (simp add: handler_defs)

text \<open>
  C40: Exactly which requests panic. A handler panics, and the client gets status 500, exactly when a
  well-formed request asks for the block at a height whose first parameter is not a string, for example a
  number; all other bodies, malformed ones included, are answered with a JSON-RPC reply.
\<close>

theorem only_untyped_height_panics:
  "index x DB later body = Abort \<longleftrightarrow>
     (\<exists>req p ps. decodeReq body = Inr req \<and> reqJsonRpc req = ''2.0'' \<and> Method req = ''getBlockByHeight'' \<and>
        Params req = p # ps \<and> (\<forall>s. p \<noteq> JStr s))"
proof (cases "decodeReq body")
  case (Inl e)
  then show ?thesis by (simp add: index_def)
next
  case (Inr req)
  have "handleGetLatestBlock DB \<noteq> Abort" "handleGetBlockById x DB req \<noteq> Abort" "handleBlockIsValid x DB later req \<noteq> Abort"
    by (simp_all add: handler_defs split: option.splits list.splits json.splits sum.splits)
  moreover have "handleGetBlockByHeight x DB req = Abort \<longleftrightarrow> (\<exists>p ps. Params req = p # ps \<and> (\<forall>s. p \<noteq> JStr s))"
    by (simp add: handler_defs split: option.splits list.splits json.splits sum.splits)
  ultimately show ?thesis using Inr by (simp add: index_def)
qed

text \<open>
  A block whose height lost its canonical mapping is not reported as invalid. After a reorganisation to
  a shorter chain the block is served by hash with its fork flag set, but \<^verbatim>\<open>blockIsValid\<close> answers with the
  store's not-found error instead of false.
\<close>

theorem orphaned_block_is_an_error:
  assumes "GetBlockInfoByHash x (db cdb) (HexToHash x s) = Inr info" and "ascii s"
    and "kv (db cdb) (NumKey (uint (Height info))) = None" and "\<not> readErr (db cdb) (epoch (db cdb)) (NumKey (uint (Height info)))"
  shows "index x (Some cdb) (db cdb) (request ''blockIsValid'' s) = NewErrorRsp (-39005) (ErrorText NotFound)"
proof -
  have "GetBlockInfoByNum x (db cdb) (uint (Height info)) = Inl NotFound"
    using assms(3,4) by (simp add: GetBlockInfoByNum_def getBlockHashByNum_def Get_def)
  then show ?thesis
    using assms(1) by (simp add: index_def decodeReq_request [OF method_names(2) assms(2)] handler_defs)
qed

theorem orphaned_block_is_an_error_witness:
  "GetBlockInfoByHash hexExt (db exStore) 8 = Inr \<lparr> ID = 8, Height = 4, ValidationHash = 33, IsFork = True \<rparr> \<and>
   index hexExt (Some exStore) (db exStore) (request ''blockIsValid'' ''0x08'') = NewErrorRsp (-39005) (ErrorText NotFound)"
  using orphaned_block_is_an_error [of hexExt exStore "''0x08''"] exStore_blocks(2) ex_hashes
  by (simp add: exStore_def exDB_def emptyPebble_def NumKey_inject)

end
